(* ===== verification/A17_Prelude.thy ===== *)
theory A17_Prelude
  imports Main "HOL-Library.Word" "HOL-Library.List_Lexorder" "HOL-Library.Char_ord"
begin

text \<open>
  Shared vocabulary of the development: the fixed-width integers of the C++ sources, the
  standard containers they use (\<open>std::map\<close> and \<open>std::set\<close> as strictly ascending lists,
  \<open>std::multimap\<close> as a key-sorted list that keeps insertion order among equal keys), windows
  of a circular array, event-driven machines with outputs, and the two interfaces on top of
  them: \<open>keyed_store\<close> (what a client may assume of a map) and \<open>machine\<close> (an invariant kept by
  every event is kept by every run).
\<close>

section \<open>Types\<close>

type_synonym u8 = "8 word"
type_synonym u16 = "16 word"
type_synonym u32 = "32 word"
type_synonym u64 = "64 word"

text \<open>A \<open>std::map\<close>: entries in strictly ascending key order, the order of its iterators.\<close>

type_synonym ('k, 'v) omap = "('k \<times> 'v) list"

named_theorems omap_simps \<open>what the operations of an ordered map return\<close>

lemma unat_u16_bound: "unat (w :: u16) \<le> 65535"
  using unsigned_less [of w, where 'a = nat] by simp

section \<open>Ordered maps\<close>

definition omap_ok :: "('k::linorder, 'v) omap \<Rightarrow> bool" where
  "omap_ok m \<longleftrightarrow> sorted_wrt (<) (map fst m)"

fun omap_put :: "'k::linorder \<Rightarrow> 'v \<Rightarrow> ('k, 'v) omap \<Rightarrow> ('k, 'v) omap" where
  "omap_put k v [] = [(k, v)]"
| "omap_put k v (e # m) =
     (if fst e < k then e # omap_put k v m
      else if fst e = k then (k, v) # m
      else (k, v) # e # m)"

definition omap_del :: "'k::linorder \<Rightarrow> ('k, 'v) omap \<Rightarrow> ('k, 'v) omap" where
  "omap_del k m = filter (\<lambda>e. fst e \<noteq> k) m"

abbreviation omap_has :: "('k, 'v) omap \<Rightarrow> 'k \<Rightarrow> bool" where
  "omap_has m k \<equiv> map_of m k \<noteq> None"

lemma fst_omap_put: "fst ` set (omap_put k v m) = insert k (fst ` set m)"
  by (induction m) auto

lemma omap_ok_Nil [simp]: "omap_ok []"
  by (simp add: omap_ok_def)

lemma omap_ok_Cons [simp]:
  "omap_ok (e # m) \<longleftrightarrow> (\<forall>x \<in> set m. fst e < fst x) \<and> omap_ok m"
  by (auto simp: omap_ok_def)

lemma omap_ok_distinct: "omap_ok m \<Longrightarrow> distinct (map fst m)"
  by (auto simp: omap_ok_def strict_sorted_iff)

lemma omap_ok_sorted: "omap_ok m \<Longrightarrow> sorted (map fst m)"
  by (auto simp: omap_ok_def strict_sorted_iff)

lemma omap_ok_put: "omap_ok m \<Longrightarrow> omap_ok (omap_put k v m)"
proof (induction m)
  case (Cons e m)
  have "\<forall>x \<in> set (omap_put k v m). fst e < fst x" if "fst e < k"
  proof
    fix x assume "x \<in> set (omap_put k v m)"
    then have "fst x \<in> insert k (fst ` set m)"
      unfolding fst_omap_put [of k v m, symmetric] by (rule imageI)
    with Cons.prems that show "fst e < fst x" by auto
  qed
  with Cons show ?case by force
qed simp

lemma omap_ok_del: "omap_ok m \<Longrightarrow> omap_ok (omap_del k m)"
  by (simp add: omap_ok_def omap_del_def sorted_wrt_map sorted_wrt_filter)

lemma map_of_omap_put: "omap_ok m \<Longrightarrow> map_of (omap_put k v m) = (map_of m)(k \<mapsto> v)"
proof (induction m)
  case (Cons e m)
  then show ?case by (cases e) (auto simp: fun_eq_iff)
qed simp

lemma map_of_omap_del: "map_of (omap_del k m) = (map_of m)(k := None)"
  unfolding omap_del_def by (induction m) (auto simp: fun_eq_iff)

lemma omap_ext:
  assumes "omap_ok m" and "omap_ok m'" and "map_of m = map_of m'"
  shows "m = m'"
proof -
  have "distinct (map fst m)" "distinct (map fst m')"
    using assms by (simp_all add: omap_ok_distinct)
  then have eq: "set m = set m'"
    using assms(3) map_of_inject_set by blast
  moreover have "inj_on fst (set m \<union> set m')"
    using \<open>distinct (map fst m)\<close> eq by (simp add: distinct_map)
  ultimately show ?thesis
    using assms(1,2) \<open>distinct (map fst m)\<close> \<open>distinct (map fst m')\<close>
    by (intro map_sorted_distinct_set_unique) (auto simp: omap_ok_sorted)
qed

subsection \<open>The interface\<close>

text \<open>
  What the clients of a map rely on: a lookup after an insertion or an erasure, the
  representation invariant, and that two maps with the same lookups are the same map.
\<close>

locale keyed_store =
  fixes empty :: 's
    and put :: "'k \<Rightarrow> 'v \<Rightarrow> 's \<Rightarrow> 's"
    and del :: "'k \<Rightarrow> 's \<Rightarrow> 's"
    and get :: "'s \<Rightarrow> 'k \<Rightarrow> 'v option"
    and ok :: "'s \<Rightarrow> bool"
  assumes get_empty: "get empty = Map.empty"
    and ok_empty: "ok empty"
    and get_put: "ok s \<Longrightarrow> get (put k v s) = (get s)(k \<mapsto> v)"
    and get_del: "ok s \<Longrightarrow> get (del k s) = (get s)(k := None)"
    and ok_put: "ok s \<Longrightarrow> ok (put k v s)"
    and ok_del: "ok s \<Longrightarrow> ok (del k s)"
    and get_inject: "ok s \<Longrightarrow> ok t \<Longrightarrow> get s = get t \<Longrightarrow> s = t"
begin

lemma put_same: "ok s \<Longrightarrow> get s k = Some v \<Longrightarrow> put k v s = s"
  by (rule get_inject) (auto simp: ok_put get_put)

lemma put_put: "ok s \<Longrightarrow> put k v (put k w s) = put k v s"
  by (rule get_inject) (auto simp: ok_put get_put)

lemma put_comm: "ok s \<Longrightarrow> j \<noteq> k \<Longrightarrow> put j v (put k w s) = put k w (put j v s)"
  by (rule get_inject) (auto simp: ok_put get_put fun_upd_twist)

lemma del_absent: "ok s \<Longrightarrow> get s k = None \<Longrightarrow> del k s = s"
  by (rule get_inject) (auto simp: ok_del get_del)

lemma del_put_fresh: "ok s \<Longrightarrow> get s k = None \<Longrightarrow> del k (put k v s) = s"
  by (rule get_inject) (auto simp: ok_put ok_del get_put get_del)

lemma empty_iff: "ok s \<Longrightarrow> (s = empty) = (\<forall>k. get s k = None)"
  using get_inject [of s empty] ok_empty get_empty by (auto simp: fun_eq_iff)

end

interpretation omap: keyed_store "[]" omap_put omap_del map_of omap_ok
  by unfold_locales
    (auto simp: omap_ok_put omap_ok_del map_of_omap_put map_of_omap_del intro: omap_ext)

lemmas omap_laws [omap_simps] =
  map_of_omap_put map_of_omap_del omap_ok_put omap_ok_del

section \<open>Multimaps and sets\<close>

definition mmap_emplace :: "'k::linorder \<Rightarrow> 'v \<Rightarrow> ('k \<times> 'v) list \<Rightarrow> ('k \<times> 'v) list" where
  "mmap_emplace k v m =
     takeWhile (\<lambda>e. fst e \<le> k) m @ (k, v) # dropWhile (\<lambda>e. fst e \<le> k) m"

definition equal_range :: "'k \<Rightarrow> ('k \<times> 'v) list \<Rightarrow> ('k \<times> 'v) list" where
  "equal_range k m = filter (\<lambda>e. fst e = k) m"

lemma set_mmap_emplace: "set (mmap_emplace k v m) = insert (k, v) (set m)"
proof -
  have "set m = set (takeWhile (\<lambda>e. fst e \<le> k) m) \<union> set (dropWhile (\<lambda>e. fst e \<le> k) m)"
    by (metis set_append takeWhile_dropWhile_id)
  then show ?thesis by (auto simp: mmap_emplace_def)
qed

lemma sorted_dropWhile_le:
  "sorted (map fst m) \<Longrightarrow> x \<in> set (dropWhile (\<lambda>e. fst e \<le> k) m) \<Longrightarrow> k < fst x"
  by (induction m) (fastforce split: if_splits)+

lemma sorted_mmap_emplace:
  assumes "sorted (map fst m)"
  shows "sorted (map fst (mmap_emplace k v m))"
proof -
  let ?l = "takeWhile (\<lambda>e. fst e \<le> k) m" and ?r = "dropWhile (\<lambda>e. fst e \<le> k) m"
  have "sorted (map fst (?l @ ?r))" using assms by simp
  then have "sorted (map fst ?l)" and "sorted (map fst ?r)"
    unfolding map_append sorted_append by blast+
  moreover have "\<forall>x \<in> set ?l. fst x \<le> k" by (auto dest: set_takeWhileD)
  moreover have "\<forall>x \<in> set ?r. k < fst x" using sorted_dropWhile_le [OF assms] by blast
  ultimately show ?thesis
    unfolding mmap_emplace_def map_append sorted_append by fastforce
qed

text \<open>An insertion goes behind the entries with the same key, as C++11 guarantees.\<close>

lemma equal_range_emplace:
  assumes "sorted (map fst m)"
  shows "equal_range j (mmap_emplace k v m) =
    equal_range j m @ (if j = k then [(k, v)] else [])"
proof -
  let ?l = "takeWhile (\<lambda>e. fst e \<le> k) m" and ?r = "dropWhile (\<lambda>e. fst e \<le> k) m"
  have "filter (\<lambda>e. fst e = k) ?r = []"
    using sorted_dropWhile_le [OF assms] by (fastforce simp: filter_empty_conv)
  moreover have "filter (\<lambda>e. fst e = j) m
      = filter (\<lambda>e. fst e = j) ?l @ filter (\<lambda>e. fst e = j) ?r"
    by (metis filter_append takeWhile_dropWhile_id)
  ultimately show ?thesis by (auto simp: equal_range_def mmap_emplace_def)
qed

abbreviation oset_insert :: "'a::linorder \<Rightarrow> 'a list \<Rightarrow> 'a list" where
  "oset_insert \<equiv> insort_insert"

section \<open>Windows of a circular array\<close>

definition ring :: "'a list \<Rightarrow> nat \<Rightarrow> nat \<Rightarrow> 'a list" where
  "ring xs h k = map (\<lambda>i. xs ! ((h + i) mod length xs)) [0..<k]"

definition ring_len :: "nat \<Rightarrow> nat \<Rightarrow> nat \<Rightarrow> nat" where
  "ring_len n h t = (if h \<le> t then t - h else t + n - h)"

lemma length_ring [simp]: "length (ring xs h k) = k"
  by (simp add: ring_def)

lemma ring_0 [simp]: "ring xs h 0 = []"
  by (simp add: ring_def)

lemma ring_Suc: "ring xs h (Suc k) = xs ! (h mod length xs) # ring xs (Suc h mod length xs) k"
proof -
  have "[0..<Suc k] = 0 # map Suc [0..<k]" by (simp add: map_Suc_upt upt_conv_Cons del: upt_Suc)
  then show ?thesis by (simp add: ring_def mod_add_left_eq del: upt_Suc)
qed

lemma ring_index_inj:
  assumes "i < k" and "k < (n::nat)"
  shows "(h + k) mod n \<noteq> (h + i) mod n"
proof
  assume "(h + k) mod n = (h + i) mod n"
  then have "n dvd (h + k) - (h + i)"
    using assms(1) by (metis add_le_cancel_left less_imp_le_nat mod_eq_dvd_iff_nat)
  with assms show False by (auto dest: dvd_imp_le)
qed

lemma ring_update_outside:
  "k < length xs \<Longrightarrow> ring (xs[(h + k) mod length xs := v]) h k = ring xs h k"
  by (simp add: ring_def ring_index_inj)

lemma ring_snoc_update:
  assumes "k < length xs"
  shows "ring (xs[(h + k) mod length xs := v]) h (Suc k) = ring xs h k @ [v]"
proof -
  have "(h + k) mod length xs < length xs" using assms by (intro mod_less_divisor) linarith
  then show ?thesis using assms by (simp add: ring_def ring_index_inj)
qed

lemma ring_len_same [simp]: "ring_len n h h = 0"
  by (simp add: ring_len_def)

lemma ring_len_less: "h < n \<Longrightarrow> t < n \<Longrightarrow> ring_len n h t < n"
  by (auto simp: ring_len_def)

lemma ring_len_eq_0: "h < n \<Longrightarrow> t < n \<Longrightarrow> ring_len n h t = 0 \<longleftrightarrow> h = t"
  by (auto simp: ring_len_def)

lemma ring_len_index: "h < n \<Longrightarrow> t < n \<Longrightarrow> (h + ring_len n h t) mod n = t"
  by (auto simp: ring_len_def)

lemma ring_len_advance_head:
  "h < n \<Longrightarrow> t < n \<Longrightarrow> h \<noteq> t \<Longrightarrow> ring_len n h t = Suc (ring_len n (Suc h mod n) t)"
  by (cases "Suc h = n") (auto simp: ring_len_def)

lemma ring_len_advance_tail:
  "h < n \<Longrightarrow> t < n \<Longrightarrow> Suc (ring_len n h t) < n \<Longrightarrow>
    ring_len n h (Suc t mod n) = Suc (ring_len n h t)"
  by (cases "Suc t = n") (auto simp: ring_len_def split: if_splits)

section \<open>Event-driven machines\<close>

text \<open>
  A component that reacts to events is a function from a state and an event to the next state
  and the outputs it emits (packets, calls of handlers, timer requests), in order.
\<close>

type_synonym ('s, 'e, 'o) reaction = "'s \<Rightarrow> 'e \<Rightarrow> 's \<times> 'o list"

fun run :: "('s, 'e, 'o) reaction \<Rightarrow> 's \<Rightarrow> 'e list \<Rightarrow> 's \<times> 'o list" where
  "run f s [] = (s, [])"
| "run f s (e # es) =
     (let (s1, os1) = f s e; (s2, os2) = run f s1 es in (s2, os1 @ os2))"

lemma run_append:
  "run f s (es @ es') =
     (let (s1, os1) = run f s es; (s2, os2) = run f s1 es' in (s2, os1 @ os2))"
  by (induction es arbitrary: s) (auto split: prod.splits)

locale machine =
  fixes step :: "('s, 'e, 'o) reaction"
    and inv :: "'s \<Rightarrow> bool"
  assumes inv_step: "inv s \<Longrightarrow> inv (fst (step s e))"
begin

lemma inv_run: "inv s \<Longrightarrow> inv (fst (run step s es))"
proof (induction es arbitrary: s)
  case (Cons e es)
  then have "inv (fst (run step (fst (step s e)) es))"
    by (blast intro: inv_step)
  then show ?case by (auto split: prod.splits)
qed simp

end

text \<open>A machine that emits only outputs of some kind.\<close>

locale output_machine = machine step inv
  for step :: "('s, 'e, 'o) reaction" and inv :: "'s \<Rightarrow> bool" +
  fixes allowed :: "'o \<Rightarrow> bool"
  assumes allowed_step: "inv s \<Longrightarrow> x \<in> set (snd (step s e)) \<Longrightarrow> allowed x"
begin

lemma allowed_run: "inv s \<Longrightarrow> x \<in> set (snd (run step s es)) \<Longrightarrow> allowed x"
proof (induction es arbitrary: s)
  case (Cons e es)
  then have "x \<in> set (snd (step s e)) \<or> x \<in> set (snd (run step (fst (step s e)) es))"
    by (auto split: prod.splits)
  with Cons.IH [of "fst (step s e)"] Cons.prems(1) show ?case
    by (blast intro: allowed_step inv_step)
qed simp

end

text \<open>
  Double-entry bookkeeping: a quantity of the state that every step changes by exactly what its
  outputs are worth.
\<close>

locale accounting = machine step inv
  for step :: "('s, 'e, 'o) reaction" and inv :: "'s \<Rightarrow> bool" +
  fixes worth :: "'o \<Rightarrow> int" and balance :: "'s \<Rightarrow> int"
  assumes balance_step:
    "inv s \<Longrightarrow> balance (fst (step s e)) = balance s + (\<Sum>x\<leftarrow>snd (step s e). worth x)"
begin

lemma balance_run:
  "inv s \<Longrightarrow> balance (fst (run step s es)) = balance s + (\<Sum>x\<leftarrow>snd (run step s es). worth x)"
proof (induction es arbitrary: s)
  case (Cons e es)
  then have "balance (fst (run step (fst (step s e)) es)) =
      balance (fst (step s e)) + (\<Sum>x\<leftarrow>snd (run step (fst (step s e)) es). worth x)"
    by (blast intro: inv_step)
  with balance_step [OF Cons.prems, of e] show ?case by (auto split: prod.splits)
qed simp

end

end
