(* ===== verification/Buffer_Pool.thy ===== *)
theory Buffer_Pool
  imports A17_Prelude
begin

text \<open>
  The buffer pool of \<open>src/a17/utils/buffer_pool.{h,cpp}\<close>: a block of \<open>bufferCount\<close> buffers and a
  circular array of free pointers with a \<open>head\<close> (next to hand out) and a \<open>tail\<close> (next free
  slot). Addresses are natural numbers, \<open>0\<close> is \<open>nullptr\<close>; the indices keep their 16 bits. A
  result of the operating system's \<open>::malloc\<close> is an argument of the operation that calls it.
  The abstract view is the FIFO queue \<open>free_list\<close>; \<open>pool_inv p out\<close> says that the queue and the
  set \<open>out\<close> of buffers in the hands of clients partition the pool. The last section refines
  \<open>free\<close> and \<open>malloc\<close> into their single memory accesses and interleaves one allocating thread
  with any number of freeing threads.
\<close>

section \<open>State and operations\<close>

record buffer_pool =
  bp_pool :: nat
  bp_poolEnd :: nat
  bp_poolSize :: nat
  bp_bufferSize :: nat
  bp_bufferCount :: u16
  bp_singleThreaded :: bool
  bp_ptrs :: "nat list"
  bp_head :: u16
  bp_tail :: u16

definition BufferPool :: "nat \<Rightarrow> nat \<Rightarrow> u16 \<Rightarrow> bool \<Rightarrow> buffer_pool" where
  "BufferPool mem bufferSize bufferCount singleThreaded =
     \<lparr>bp_pool = mem,
      bp_poolEnd = mem + unat bufferCount * bufferSize,
      bp_poolSize = unat bufferCount * bufferSize,
      bp_bufferSize = bufferSize,
      bp_bufferCount = bufferCount,
      bp_singleThreaded = singleThreaded,
      bp_ptrs = map (\<lambda>i. mem + i * bufferSize) [0..<unat bufferCount] @ [0],
      bp_head = 0,
      bp_tail = bufferCount\<rparr>"

definition bp_next :: "buffer_pool \<Rightarrow> u16 \<Rightarrow> u16" where
  "bp_next p pos = of_nat ((unat pos + 1) mod (unat (bp_bufferCount p) + 1))"

definition bp_empty :: "buffer_pool \<Rightarrow> bool" where
  "bp_empty p \<longleftrightarrow> bp_head p = bp_tail p"

definition bp_full :: "buffer_pool \<Rightarrow> bool" where
  "bp_full p \<longleftrightarrow> bp_next p (bp_tail p) = bp_head p"

definition bp_remaining :: "buffer_pool \<Rightarrow> u16" where
  "bp_remaining p =
     (if bp_tail p > bp_head p then bp_tail p - bp_head p
      else bp_bufferCount p - (bp_head p - bp_tail p) + 1)"

definition bp_malloc :: "nat \<Rightarrow> buffer_pool \<Rightarrow> buffer_pool \<times> nat" where
  "bp_malloc os p =
     (if bp_head p = bp_tail p then (p, os)
      else (p\<lparr>bp_head := bp_next p (bp_head p)\<rparr>, bp_ptrs p ! unat (bp_head p)))"

text \<open>\<open>calloc\<close> also clears the buffer: memory maps addresses to bytes.\<close>

definition bp_calloc ::
  "nat \<Rightarrow> buffer_pool \<times> (nat \<Rightarrow> u8) \<Rightarrow> (buffer_pool \<times> (nat \<Rightarrow> u8)) \<times> nat" where
  "bp_calloc os pm =
     (let (p', ptr) = bp_malloc os (fst pm)
      in ((p', if ptr \<noteq> 0
               then (\<lambda>a. if ptr \<le> a \<and> a < ptr + bp_bufferSize p' then 0 else snd pm a)
               else snd pm), ptr))"

text \<open>\<open>free\<close> returns the pool and the pointer it hands to \<open>::free\<close>, if any.\<close>

definition bp_free :: "nat \<Rightarrow> buffer_pool \<Rightarrow> buffer_pool \<times> nat option" where
  "bp_free ptr p =
     (if ptr < bp_pool p \<or> ptr \<ge> bp_poolEnd p then (p, Some ptr)
      else (p\<lparr>bp_ptrs := (bp_ptrs p)[unat (bp_tail p) := ptr],
              bp_tail := bp_next p (bp_tail p)\<rparr>, None))"

text \<open>The destructor gives the memory of the pool back to the system, whatever buffers are still out.\<close>

definition BufferPool_destroy :: "buffer_pool \<Rightarrow> nat option" where
  "BufferPool_destroy p = (if bp_pool p \<noteq> 0 then Some (bp_pool p) else None)"

definition zmqFree :: "nat \<Rightarrow> buffer_pool \<Rightarrow> buffer_pool \<times> nat option" where
  "zmqFree ptr hint = bp_free ptr hint"

section \<open>The abstract queue and the invariant\<close>

definition slots :: "buffer_pool \<Rightarrow> nat" where
  "slots p = Suc (unat (bp_bufferCount p))"

definition free_list :: "buffer_pool \<Rightarrow> nat list" where
  "free_list p = ring (bp_ptrs p) (unat (bp_head p))
     (ring_len (slots p) (unat (bp_head p)) (unat (bp_tail p)))"

definition pool_region :: "buffer_pool \<Rightarrow> nat set" where
  "pool_region p = {bp_pool p..<bp_poolEnd p}"

definition pool_buffers :: "buffer_pool \<Rightarrow> nat set" where
  "pool_buffers p = (\<lambda>i. bp_pool p + i * bp_bufferSize p) ` {..<unat (bp_bufferCount p)}"

definition pool_wf :: "buffer_pool \<Rightarrow> bool" where
  "pool_wf p \<longleftrightarrow> 0 < bp_bufferSize p \<and> length (bp_ptrs p) = slots p \<and>
     unat (bp_head p) < slots p \<and> unat (bp_tail p) < slots p \<and>
     bp_poolEnd p = bp_pool p + unat (bp_bufferCount p) * bp_bufferSize p"

definition pool_inv :: "buffer_pool \<Rightarrow> nat set \<Rightarrow> bool" where
  "pool_inv p out \<longleftrightarrow> pool_wf p \<and> distinct (free_list p) \<and>
     set (free_list p) \<inter> out = {} \<and> set (free_list p) \<union> out = pool_buffers p"

lemma unat_bp_next: "unat (bp_next p pos) = Suc (unat pos) mod slots p"
proof -
  have "slots p \<le> 2 ^ LENGTH(16)"
    using unat_u16_bound [of "bp_bufferCount p"] by (simp add: slots_def)
  then have "Suc (unat pos) mod slots p < 2 ^ LENGTH(16)"
    by (rule order.strict_trans2 [rotated]) (simp add: slots_def)
  then show ?thesis by (simp add: bp_next_def slots_def unat_of_nat)
qed

lemma bp_head_eq_tail: "bp_head p = bp_tail p \<longleftrightarrow> unat (bp_head p) = unat (bp_tail p)"
  by (simp add: word_unat_eq_iff)

lemma free_list_Nil: "pool_wf p \<Longrightarrow> free_list p = [] \<longleftrightarrow> bp_head p = bp_tail p"
  unfolding pool_wf_def free_list_def bp_head_eq_tail
  by (metis length_0_conv length_ring ring_len_eq_0)

lemma length_free_list:
  "length (free_list p) = ring_len (slots p) (unat (bp_head p)) (unat (bp_tail p))"
  by (simp add: free_list_def)

lemma pool_wf_next [simp]: "unat (bp_next p pos) < slots p"
  by (simp add: unat_bp_next slots_def)

lemma free_list_malloc:
  assumes "pool_wf p" and "bp_head p \<noteq> bp_tail p"
  shows "free_list p = bp_ptrs p ! unat (bp_head p)
    # free_list (p\<lparr>bp_head := bp_next p (bp_head p)\<rparr>)"
proof -
  have "unat (bp_head p) < slots p" "unat (bp_tail p) < slots p" "length (bp_ptrs p) = slots p"
    "unat (bp_head p) \<noteq> unat (bp_tail p)"
    using assms by (auto simp: pool_wf_def bp_head_eq_tail)
  then show ?thesis
    by (simp add: free_list_def slots_def unat_bp_next ring_len_advance_head ring_Suc)
qed

lemma free_list_enqueue:
  assumes "pool_wf p" and "length (free_list p) < unat (bp_bufferCount p)"
  shows "free_list (p\<lparr>bp_ptrs := (bp_ptrs p)[unat (bp_tail p) := ptr],
    bp_tail := bp_next p (bp_tail p)\<rparr>) = free_list p @ [ptr]"
proof -
  let ?h = "unat (bp_head p)" and ?t = "unat (bp_tail p)"
  have wf: "?h < slots p" "?t < slots p" "length (bp_ptrs p) = slots p"
    using assms(1) by (auto simp: pool_wf_def)
  have len: "Suc (ring_len (slots p) ?h ?t) < slots p"
    using assms(2) by (simp add: length_free_list slots_def)
  have "ring_len (slots p) ?h (Suc ?t mod slots p) = Suc (ring_len (slots p) ?h ?t)"
    by (rule ring_len_advance_tail [OF wf(1,2) len])
  moreover have "ring ((bp_ptrs p)[?t := ptr]) ?h (Suc (ring_len (slots p) ?h ?t))
      = ring (bp_ptrs p) ?h (ring_len (slots p) ?h ?t) @ [ptr]"
    using ring_snoc_update [of "ring_len (slots p) ?h ?t" "bp_ptrs p" ?h ptr] len wf
    by (simp add: ring_len_index)
  ultimately show ?thesis by (simp add: free_list_def slots_def unat_bp_next)
qed

lemma pool_buffers_region: "pool_wf p \<Longrightarrow> pool_buffers p \<subseteq> pool_region p"
  by (auto simp: pool_buffers_def pool_region_def pool_wf_def)

lemma card_pool_buffers: "pool_wf p \<Longrightarrow> card (pool_buffers p) = unat (bp_bufferCount p)"
  by (simp add: pool_buffers_def card_image inj_on_def pool_wf_def)

lemma pool_inv_count:
  assumes "pool_inv p out"
  shows "length (free_list p) + card out = unat (bp_bufferCount p)"
proof -
  have "finite (set (free_list p) \<union> out)"
    using assms by (simp add: pool_inv_def pool_buffers_def)
  then have "card (set (free_list p) \<union> out) = card (set (free_list p)) + card out"
    using assms by (intro card_Un_disjoint) (auto simp: pool_inv_def)
  then show ?thesis
    using assms by (simp add: pool_inv_def card_pool_buffers distinct_card)
qed

lemma pool_inv_out_finite: "pool_inv p out \<Longrightarrow> finite out"
  by (metis finite_Un finite_imageI finite_lessThan pool_buffers_def pool_inv_def)

lemma pool_inv_room: "pool_inv p out \<Longrightarrow> ptr \<in> out \<Longrightarrow>
    length (free_list p) < unat (bp_bufferCount p)"
  using pool_inv_count [of p out] pool_inv_out_finite [of p out] card_gt_0_iff [of out] by fastforce

lemma pool_view_head [simp]:
  "slots (p\<lparr>bp_head := h\<rparr>) = slots p" "pool_buffers (p\<lparr>bp_head := h\<rparr>) = pool_buffers p"
  "pool_region (p\<lparr>bp_head := h\<rparr>) = pool_region p"
  by (simp_all add: slots_def pool_buffers_def pool_region_def)

lemma pool_view_tail [simp]:
  "slots (p\<lparr>bp_ptrs := xs, bp_tail := t\<rparr>) = slots p"
  "pool_buffers (p\<lparr>bp_ptrs := xs, bp_tail := t\<rparr>) = pool_buffers p"
  "pool_region (p\<lparr>bp_ptrs := xs, bp_tail := t\<rparr>) = pool_region p"
  by (simp_all add: slots_def pool_buffers_def pool_region_def)

lemma bp_malloc_inv:
  assumes "pool_inv p out" and "bp_malloc os p = (p', ptr)"
  shows "if bp_empty p then p' = p \<and> ptr = os
         else ptr \<in> pool_buffers p \<and> ptr \<notin> out \<and> pool_inv p' (insert ptr out) \<and>
              free_list p = ptr # free_list p'"
proof (cases "bp_empty p")
  case True
  with assms(2) show ?thesis by (simp add: bp_malloc_def bp_empty_def)
next
  case False
  have p': "p' = p\<lparr>bp_head := bp_next p (bp_head p)\<rparr>" "ptr = bp_ptrs p ! unat (bp_head p)"
    using False assms(2) by (auto simp: bp_malloc_def bp_empty_def)
  have fl: "free_list p = ptr # free_list p'"
    using False assms(1) free_list_malloc unfolding p' by (simp add: pool_inv_def bp_empty_def)
  have "pool_wf p'"
    using assms(1) by (simp add: p' pool_inv_def pool_wf_def)
  with assms(1) fl have "pool_inv p' (insert ptr out)"
    unfolding pool_inv_def by (auto simp: p')
  with assms(1) fl show ?thesis using False by (auto simp: pool_inv_def)
qed

lemma bp_free_inv:
  assumes "pool_inv p out" and "ptr \<in> out"
  shows "\<exists>p'. bp_free ptr p = (p', None) \<and> pool_inv p' (out - {ptr}) \<and>
              free_list p' = free_list p @ [ptr]"
proof -
  let ?p' = "p\<lparr>bp_ptrs := (bp_ptrs p)[unat (bp_tail p) := ptr], bp_tail := bp_next p (bp_tail p)\<rparr>"
  have wf: "pool_wf p" using assms(1) by (simp add: pool_inv_def)
  have "ptr \<in> pool_region p"
    using assms wf pool_buffers_region [of p] by (auto simp: pool_inv_def)
  then have eq: "bp_free ptr p = (?p', None)"
    by (auto simp: bp_free_def pool_region_def)
  have fl: "free_list ?p' = free_list p @ [ptr]"
    by (rule free_list_enqueue [OF wf pool_inv_room [OF assms]])
  have "pool_wf ?p'" using wf by (simp add: pool_wf_def)
  with assms fl have "pool_inv ?p' (out - {ptr})"
    unfolding pool_inv_def by auto
  with eq fl show ?thesis by blast
qed

lemma pool_region_free: "pool_region (fst (bp_free ptr p)) = pool_region p"
  by (simp add: bp_free_def pool_region_def)

lemma BufferPool_inv:
  assumes "0 < bufferSize"
  shows "pool_inv (BufferPool mem bufferSize bufferCount st) {}"
    and "free_list (BufferPool mem bufferSize bufferCount st)
      = map (\<lambda>i. mem + i * bufferSize) [0..<unat bufferCount]"
proof -
  let ?p = "BufferPool mem bufferSize bufferCount st"
  show fl: "free_list ?p = map (\<lambda>i. mem + i * bufferSize) [0..<unat bufferCount]"
    by (rule nth_equalityI) (simp_all add: free_list_def BufferPool_def ring_def ring_len_def
      slots_def nth_append)
  have "pool_wf ?p" using assms by (simp add: pool_wf_def BufferPool_def slots_def)
  moreover have "distinct (free_list ?p)"
    using assms by (simp add: fl distinct_map inj_on_def)
  moreover have "set (free_list ?p) = pool_buffers ?p"
    unfolding fl by (simp add: pool_buffers_def BufferPool_def lessThan_atLeast0)
  ultimately show "pool_inv ?p {}" by (simp add: pool_inv_def)
qed

section \<open>What the pool promises its clients\<close>

text \<open>
  The sockets, the message builder and the discovery layer only use a pool through this
  interface: an allocation never returns a pointer that is still in use, and releasing a pointer
  that is in use is always possible. \<open>ok s out\<close> relates a state to the managed buffers in use,
  \<open>region\<close> is the memory the source manages itself.
\<close>

locale buffer_source =
  fixes alloc :: "nat \<Rightarrow> 's \<Rightarrow> 's \<times> nat"
    and release :: "nat \<Rightarrow> 's \<Rightarrow> 's"
    and region :: "'s \<Rightarrow> nat set"
    and ok :: "'s \<Rightarrow> nat set \<Rightarrow> bool"
  assumes alloc_fresh: "ok s out \<Longrightarrow> os \<notin> region s \<Longrightarrow> alloc os s = (s', ptr) \<Longrightarrow>
        ptr = os \<or> ptr \<in> region s - out"
    and alloc_ok: "ok s out \<Longrightarrow> os \<notin> region s \<Longrightarrow> alloc os s = (s', ptr) \<Longrightarrow>
        ok s' (out \<union> ({ptr} \<inter> region s)) \<and> region s' = region s"
    and release_ok: "ok s out \<Longrightarrow> ptr \<in> out \<or> ptr \<notin> region s \<Longrightarrow>
        ok (release ptr s) (out - {ptr}) \<and> region (release ptr s) = region s"
    and out_region: "ok s out \<Longrightarrow> out \<subseteq> region s"
begin

primrec alloc_all :: "nat list \<Rightarrow> 's \<Rightarrow> 's \<times> nat list" where
  "alloc_all [] s = (s, [])"
| "alloc_all (os # oss) s =
     (let (s', ptr) = alloc os s; (s'', ptrs) = alloc_all oss s' in (s'', ptr # ptrs))"

lemma alloc_all_fresh:
  assumes "ok s out" and "distinct oss" and "set oss \<inter> region s = {}"
    and "alloc_all oss s = (s', ptrs)"
  shows "distinct ptrs \<and> set ptrs \<inter> out = {} \<and> set ptrs \<subseteq> set oss \<union> region s"
  using assms
proof (induction oss arbitrary: s out s' ptrs)
  case (Cons os oss)
  obtain s1 q where a: "alloc os s = (s1, q)" by fastforce
  obtain s2 qs where b: "alloc_all oss s1 = (s2, qs)" by fastforce
  from Cons.prems have os: "os \<notin> region s" by auto
  have q: "q = os \<or> q \<in> region s - out" by (rule alloc_fresh [OF Cons.prems(1) os a])
  have s1: "ok s1 (out \<union> ({q} \<inter> region s))" "region s1 = region s"
    using alloc_ok [OF Cons.prems(1) os a] by auto
  have ih: "distinct qs \<and> set qs \<inter> (out \<union> ({q} \<inter> region s)) = {}
      \<and> set qs \<subseteq> set oss \<union> region s"
    using Cons.IH [OF s1(1) _ _ b] Cons.prems(2,3) s1(2) by simp
  have "os \<notin> out" using out_region [OF Cons.prems(1)] os by auto
  have "q \<notin> set qs" using q ih Cons.prems(2,3) by auto
  with ih q a b Cons.prems(4) \<open>os \<notin> out\<close> show ?case by auto
qed simp

end

interpretation bpool: buffer_source
  bp_malloc "\<lambda>ptr p. fst (bp_free ptr p)" pool_region pool_inv
proof unfold_locales
  fix s out os s' ptr
  assume *: "pool_inv s out" "os \<notin> pool_region s" "bp_malloc os s = (s', ptr)"
  have m: "if bp_empty s then s' = s \<and> ptr = os
           else ptr \<in> pool_buffers s \<and> ptr \<notin> out \<and> pool_inv s' (insert ptr out) \<and>
                free_list s = ptr # free_list s'"
    by (rule bp_malloc_inv [OF *(1,3)])
  have sub: "pool_buffers s \<subseteq> pool_region s"
    using *(1) by (simp add: pool_inv_def pool_buffers_region)
  show "ptr = os \<or> ptr \<in> pool_region s - out"
    using m sub by (auto split: if_splits)
  have "pool_region s' = pool_region s"
    using *(3) by (auto simp: bp_malloc_def pool_region_def split: if_splits)
  moreover have "pool_inv s' (out \<union> ({ptr} \<inter> pool_region s))"
    using m sub * by (cases "bp_empty s") (auto simp: insert_absorb)
  ultimately show "pool_inv s' (out \<union> ({ptr} \<inter> pool_region s)) \<and> pool_region s' = pool_region s"
    by simp
next
  fix s out ptr
  assume *: "pool_inv s out" "ptr \<in> out \<or> ptr \<notin> pool_region s"
  have "pool_inv (fst (bp_free ptr s)) (out - {ptr})"
  proof (cases "ptr \<in> out")
    case True
    from bp_free_inv [OF *(1) this] show ?thesis by auto
  next
    case False
    with * show ?thesis by (auto simp: bp_free_def pool_region_def)
  qed
  then show "pool_inv (fst (bp_free ptr s)) (out - {ptr}) \<and>
      pool_region (fst (bp_free ptr s)) = pool_region s"
    by (simp add: pool_region_free)
next
  fix s out
  assume "pool_inv s out"
  then show "out \<subseteq> pool_region s"
    using pool_buffers_region [of s] by (auto simp: pool_inv_def)
qed

section \<open>One allocating thread and many freeing threads\<close>

text \<open>
  The header promises that \<open>free\<close> may be called from any thread while one thread calls
  \<open>malloc\<close>. Here every shared access is a step of its own: \<open>malloc\<close> tests \<open>head == tail\<close>,
  reads \<open>ptrs[head]\<close> and then writes \<open>head\<close>; \<open>free\<close> takes the mutex, writes \<open>ptrs[tail]\<close>,
  writes \<open>tail\<close> and gives the mutex back. Accesses are atomic and happen in program order.
\<close>

datatype consumer_pc = C_Idle | C_NonEmpty | C_Got nat

datatype producer_pc = P_Idle | P_Wait nat | P_Locked nat | P_Stored nat | P_Published

record pool_threads =
  pt_pool :: buffer_pool
  pt_live :: "nat set"
  pt_mutex :: "nat option"
  pt_consumer :: consumer_pc
  pt_producer :: "nat \<Rightarrow> producer_pc"

fun held :: "producer_pc \<Rightarrow> nat option" where
  "held (P_Wait ptr) = Some ptr"
| "held (P_Locked ptr) = Some ptr"
| "held (P_Stored ptr) = Some ptr"
| "held _ = None"

fun in_section :: "producer_pc \<Rightarrow> bool" where
  "in_section (P_Locked ptr) = True"
| "in_section (P_Stored ptr) = True"
| "in_section P_Published = True"
| "in_section _ = False"

datatype pool_label = Returns nat | Gives nat | Internal

inductive pt_step :: "pool_threads \<Rightarrow> pool_label \<Rightarrow> pool_threads \<Rightarrow> bool" where
  malloc_os: "\<lbrakk>pt_consumer s = C_Idle; bp_head (pt_pool s) = bp_tail (pt_pool s);
      os \<notin> pool_region (pt_pool s); os \<notin> pt_live s\<rbrakk>
    \<Longrightarrow> pt_step s (Returns os) (s\<lparr>pt_live := insert os (pt_live s)\<rparr>)"
| malloc_test: "\<lbrakk>pt_consumer s = C_Idle; bp_head (pt_pool s) \<noteq> bp_tail (pt_pool s)\<rbrakk>
    \<Longrightarrow> pt_step s Internal (s\<lparr>pt_consumer := C_NonEmpty\<rparr>)"
| malloc_read: "pt_consumer s = C_NonEmpty
    \<Longrightarrow> pt_step s Internal
      (s\<lparr>pt_consumer := C_Got (bp_ptrs (pt_pool s) ! unat (bp_head (pt_pool s)))\<rparr>)"
| malloc_write: "pt_consumer s = C_Got ptr
    \<Longrightarrow> pt_step s (Returns ptr)
      (s\<lparr>pt_consumer := C_Idle, pt_live := insert ptr (pt_live s),
         pt_pool := (pt_pool s)\<lparr>bp_head := bp_next (pt_pool s) (bp_head (pt_pool s))\<rparr>\<rparr>)"
| free_os: "\<lbrakk>ptr \<in> pt_live s; ptr \<notin> pool_region (pt_pool s)\<rbrakk>
    \<Longrightarrow> pt_step s (Gives ptr) (s\<lparr>pt_live := pt_live s - {ptr}\<rparr>)"
| free_call: "\<lbrakk>ptr \<in> pt_live s; ptr \<in> pool_region (pt_pool s); pt_producer s i = P_Idle\<rbrakk>
    \<Longrightarrow> pt_step s (Gives ptr) (s\<lparr>pt_live := pt_live s - {ptr},
         pt_producer := (pt_producer s)(i := P_Wait ptr)\<rparr>)"
| free_lock: "\<lbrakk>pt_producer s i = P_Wait ptr; pt_mutex s = None\<rbrakk>
    \<Longrightarrow> pt_step s Internal (s\<lparr>pt_mutex := Some i,
         pt_producer := (pt_producer s)(i := P_Locked ptr)\<rparr>)"
| free_store: "pt_producer s i = P_Locked ptr
    \<Longrightarrow> pt_step s Internal (s\<lparr>pt_producer := (pt_producer s)(i := P_Stored ptr),
         pt_pool := (pt_pool s)\<lparr>bp_ptrs :=
           (bp_ptrs (pt_pool s))[unat (bp_tail (pt_pool s)) := ptr]\<rparr>\<rparr>)"
| free_publish: "pt_producer s i = P_Stored ptr
    \<Longrightarrow> pt_step s Internal (s\<lparr>pt_producer := (pt_producer s)(i := P_Published),
         pt_pool := (pt_pool s)\<lparr>bp_tail := bp_next (pt_pool s) (bp_tail (pt_pool s))\<rparr>\<rparr>)"
| free_unlock: "pt_producer s i = P_Published
    \<Longrightarrow> pt_step s Internal (s\<lparr>pt_mutex := None,
         pt_producer := (pt_producer s)(i := P_Idle)\<rparr>)"

inductive pt_reach :: "buffer_pool \<Rightarrow> pool_threads \<Rightarrow> bool" for p where
  start: "pt_reach p \<lparr>pt_pool = p, pt_live = {}, pt_mutex = None, pt_consumer = C_Idle,
    pt_producer = (\<lambda>_. P_Idle)\<rparr>"
| step: "pt_reach p s \<Longrightarrow> pt_step s l s' \<Longrightarrow> pt_reach p s'"

text \<open>
  The invariant: every buffer is in the queue, in use, or in the hands of exactly one freeing
  thread; the mutex is held by the one thread inside \<open>free\<close>; what that thread stored is in the
  slot the tail points to; and what the allocating thread has seen is still at the front.
\<close>

definition pt_consumer_ok :: "pool_threads \<Rightarrow> bool" where
  "pt_consumer_ok s \<longleftrightarrow> (case pt_consumer s of
      C_Idle \<Rightarrow> True
    | C_NonEmpty \<Rightarrow> free_list (pt_pool s) \<noteq> []
    | C_Got ptr \<Rightarrow> free_list (pt_pool s) \<noteq> [] \<and> hd (free_list (pt_pool s)) = ptr)"

definition owned_by :: "(nat \<Rightarrow> producer_pc) \<Rightarrow> nat set" where
  "owned_by f = {ptr. \<exists>i. held (f i) = Some ptr}"

definition unique_by :: "(nat \<Rightarrow> producer_pc) \<Rightarrow> bool" where
  "unique_by f \<longleftrightarrow> (\<forall>i j ptr. held (f i) = Some ptr \<longrightarrow> held (f j) = Some ptr \<longrightarrow> i = j)"

abbreviation pt_owned :: "pool_threads \<Rightarrow> nat set" where
  "pt_owned s \<equiv> owned_by (pt_producer s)"

definition pt_mutex_ok :: "pool_threads \<Rightarrow> bool" where
  "pt_mutex_ok s \<longleftrightarrow> (\<forall>i. in_section (pt_producer s i) \<longleftrightarrow> pt_mutex s = Some i) \<and>
     (\<forall>i ptr. pt_producer s i = P_Stored ptr \<longrightarrow>
        bp_ptrs (pt_pool s) ! unat (bp_tail (pt_pool s)) = ptr)"

definition pt_parts :: "pool_threads \<Rightarrow> bool" where
  "pt_parts s \<longleftrightarrow> distinct (free_list (pt_pool s)) \<and>
     set (free_list (pt_pool s)) \<inter> pt_live s = {} \<and>
     pt_owned s \<inter> set (free_list (pt_pool s)) = {} \<and> pt_owned s \<inter> pt_live s = {} \<and>
     set (free_list (pt_pool s)) \<union> pt_owned s \<union> (pt_live s \<inter> pool_region (pt_pool s))
       = pool_buffers (pt_pool s)"

definition pt_inv :: "pool_threads \<Rightarrow> bool" where
  "pt_inv s \<longleftrightarrow> pool_wf (pt_pool s) \<and> pt_consumer_ok s \<and> pt_mutex_ok s \<and> unique_by (pt_producer s) \<and> pt_parts s"

lemma pt_parts_room:
  assumes "pool_wf (pt_pool s)" and "pt_parts s" and "ptr \<in> pt_owned s"
  shows "length (free_list (pt_pool s)) < unat (bp_bufferCount (pt_pool s))"
proof -
  let ?F = "set (free_list (pt_pool s))"
  have "insert ptr ?F \<subseteq> pool_buffers (pt_pool s)" and "ptr \<notin> ?F"
    using assms(2,3) by (auto simp: pt_parts_def)
  moreover have "finite (pool_buffers (pt_pool s))" by (simp add: pool_buffers_def)
  ultimately have "card (insert ptr ?F) \<le> unat (bp_bufferCount (pt_pool s))"
    using card_mono card_pool_buffers [OF assms(1)] by metis
  then show ?thesis
    using \<open>ptr \<notin> ?F\<close> assms(2) by (simp add: pt_parts_def distinct_card)
qed

lemma free_list_store:
  assumes "pool_wf p"
  shows "free_list (p\<lparr>bp_ptrs := (bp_ptrs p)[unat (bp_tail p) := v]\<rparr>) = free_list p"
proof -
  let ?h = "unat (bp_head p)" and ?t = "unat (bp_tail p)" and ?n = "slots p"
  have wf: "?h < ?n" "?t < ?n" "length (bp_ptrs p) = ?n" using assms by (auto simp: pool_wf_def)
  have "ring ((bp_ptrs p)[?t := v]) ?h (ring_len ?n ?h ?t) = ring (bp_ptrs p) ?h (ring_len ?n ?h ?t)"
    using ring_update_outside [of "ring_len ?n ?h ?t" "bp_ptrs p" ?h v] wf
    by (simp add: ring_len_index ring_len_less)
  then show ?thesis by (simp add: free_list_def slots_def)
qed

lemma free_list_publish:
  assumes "pool_wf p" and "length (free_list p) < unat (bp_bufferCount p)"
    and "bp_ptrs p ! unat (bp_tail p) = ptr"
  shows "free_list (p\<lparr>bp_tail := bp_next p (bp_tail p)\<rparr>) = free_list p @ [ptr]"
proof -
  have "(bp_ptrs p)[unat (bp_tail p) := ptr] = bp_ptrs p"
    unfolding assms(3) [symmetric] by (rule list_update_id)
  then have "free_list (p\<lparr>bp_tail := bp_next p (bp_tail p)\<rparr>)
      = free_list (p\<lparr>bp_ptrs := (bp_ptrs p)[unat (bp_tail p) := ptr],
          bp_tail := bp_next p (bp_tail p)\<rparr>)"
    by (simp add: free_list_def slots_def)
  then show ?thesis using free_list_enqueue [OF assms(1,2)] by simp
qed

lemma owned_by_same: "held (f i) = held pc \<Longrightarrow> owned_by (f(i := pc)) = owned_by f"
  unfolding owned_by_def by (metis fun_upd_apply)

lemma owned_by_take:
  "held (f i) = None \<Longrightarrow> held pc = Some ptr \<Longrightarrow> owned_by (f(i := pc)) = insert ptr (owned_by f)"
  unfolding owned_by_def by force

lemma owned_by_drop:
  "held (f i) = Some ptr \<Longrightarrow> held pc = None \<Longrightarrow> unique_by f \<Longrightarrow>
    owned_by (f(i := pc)) = owned_by f - {ptr}"
  unfolding owned_by_def unique_by_def
  by (intro set_eqI) (auto split: if_splits, metis option.inject)

lemma unique_by_same: "held (f i) = held pc \<Longrightarrow> unique_by f \<Longrightarrow> unique_by (f(i := pc))"
  unfolding unique_by_def by (metis fun_upd_apply)

lemma unique_by_take:
  "held pc = Some ptr \<Longrightarrow> ptr \<notin> owned_by f \<Longrightarrow> unique_by f \<Longrightarrow> unique_by (f(i := pc))"
  unfolding unique_by_def owned_by_def by auto

lemma unique_by_drop: "held pc = None \<Longrightarrow> unique_by f \<Longrightarrow> unique_by (f(i := pc))"
  unfolding unique_by_def by auto

lemmas owned_rules = owned_by_same owned_by_take owned_by_drop
  unique_by_same unique_by_take unique_by_drop

lemma pt_mutex_idle:
  assumes "pt_mutex_ok s" and "\<not> in_section (pt_producer s i)"
  shows "pt_mutex s \<noteq> Some i"
  using assms by (metis pt_mutex_ok_def)

lemma pt_mutex_alone:
  assumes "pt_mutex_ok s" and "in_section (pt_producer s i)" and "j \<noteq> i"
  shows "\<not> in_section (pt_producer s j)"
  using assms by (metis pt_mutex_ok_def option.inject)

lemmas pt_defs = pt_inv_def pt_consumer_ok_def pt_mutex_ok_def pt_parts_def

lemma pool_wf_parts [simp]:
  "pool_wf p \<Longrightarrow> pool_wf (p\<lparr>bp_head := bp_next p h\<rparr>)"
  "pool_wf p \<Longrightarrow> pool_wf (p\<lparr>bp_tail := bp_next p h\<rparr>)"
  "pool_wf p \<Longrightarrow> pool_wf (p\<lparr>bp_ptrs := (bp_ptrs p)[i := v]\<rparr>)"
  using pool_wf_next [of p h] by (simp_all add: pool_wf_def slots_def del: pool_wf_next)

lemma pool_view_store [simp]:
  "slots (p\<lparr>bp_ptrs := xs\<rparr>) = slots p" "pool_buffers (p\<lparr>bp_ptrs := xs\<rparr>) = pool_buffers p"
  "pool_region (p\<lparr>bp_ptrs := xs\<rparr>) = pool_region p"
  "slots (p\<lparr>bp_tail := t\<rparr>) = slots p" "pool_buffers (p\<lparr>bp_tail := t\<rparr>) = pool_buffers p"
  "pool_region (p\<lparr>bp_tail := t\<rparr>) = pool_region p"
  by (simp_all add: slots_def pool_buffers_def pool_region_def)

lemma pt_inv_malloc_write:
  assumes "pt_inv s" and "pt_consumer s = C_Got ptr"
  shows "pt_inv (s\<lparr>pt_consumer := C_Idle, pt_live := insert ptr (pt_live s),
    pt_pool := (pt_pool s)\<lparr>bp_head := bp_next (pt_pool s) (bp_head (pt_pool s))\<rparr>\<rparr>)"
proof -
  let ?p = "pt_pool s"
  have wf: "pool_wf ?p" and ne: "free_list ?p \<noteq> []" and hd: "hd (free_list ?p) = ptr"
    using assms by (auto simp: pt_inv_def pt_consumer_ok_def)
  have fl: "free_list ?p = ptr # free_list (?p\<lparr>bp_head := bp_next ?p (bp_head ?p)\<rparr>)"
    using free_list_malloc [OF wf] free_list_Nil [OF wf] ne hd by auto
  have "ptr \<in> pool_region ?p"
    using assms(1) fl pool_buffers_region [OF wf] by (auto simp: pt_inv_def pt_parts_def)
  with assms fl wf show ?thesis by (auto simp: pt_defs)
qed

lemma pt_inv_free_publish:
  assumes "pt_inv s" and "pt_producer s i = P_Stored ptr"
  shows "pt_inv (s\<lparr>pt_producer := (pt_producer s)(i := P_Published),
    pt_pool := (pt_pool s)\<lparr>bp_tail := bp_next (pt_pool s) (bp_tail (pt_pool s))\<rparr>\<rparr>)"
proof -
  let ?p = "pt_pool s"
  have wf: "pool_wf ?p" and u: "unique_by (pt_producer s)"
    using assms(1) by (auto simp: pt_inv_def)
  have own: "ptr \<in> pt_owned s"
    unfolding owned_by_def using assms(2) by (metis (mono_tags, lifting) held.simps(3) mem_Collect_eq)
  have "bp_ptrs ?p ! unat (bp_tail ?p) = ptr"
    using assms by (auto simp: pt_inv_def pt_mutex_ok_def)
  then have fl: "free_list (?p\<lparr>bp_tail := bp_next ?p (bp_tail ?p)\<rparr>) = free_list ?p @ [ptr]"
    using free_list_publish wf pt_parts_room [OF wf _ own] assms(1) by (simp add: pt_inv_def)
  have o: "owned_by ((pt_producer s)(i := P_Published)) = pt_owned s - {ptr}"
    using assms(2) u by (simp add: owned_by_drop)
  have "pt_mutex s = Some i" using assms by (force simp: pt_inv_def pt_mutex_ok_def)
  then have "pt_mutex_ok (s\<lparr>pt_producer := (pt_producer s)(i := P_Published),
      pt_pool := (?p\<lparr>bp_tail := bp_next ?p (bp_tail ?p)\<rparr>)\<rparr>)"
    using assms(1) by (force simp: pt_inv_def pt_mutex_ok_def)
  moreover have "unique_by ((pt_producer s)(i := P_Published))"
    using u by (simp add: unique_by_drop)
  ultimately show ?thesis
    using assms(1) own by (auto simp: pt_inv_def pt_consumer_ok_def pt_parts_def fl o
      split: consumer_pc.splits)
qed

lemma pt_step_inv:
  assumes "pt_step s l s'" and "pt_inv s"
  shows "pt_inv s'"
  using assms
proof (induction rule: pt_step.induct)
  case (malloc_os s os)
  then have "os \<notin> pool_buffers (pt_pool s)"
    using pool_buffers_region [of "pt_pool s"] by (auto simp: pt_inv_def)
  with malloc_os show ?case by (auto simp: pt_defs)
next
  case (malloc_test s)
  then show ?case by (auto simp: pt_defs free_list_Nil)
next
  case (malloc_read s)
  then show ?case
    using free_list_malloc [of "pt_pool s"] free_list_Nil [of "pt_pool s"]
    by (auto simp: pt_defs)
next
  case (malloc_write s ptr)
  then show ?case by (rule pt_inv_malloc_write [rotated])
next
  case (free_os ptr s)
  then show ?case by (auto simp: pt_defs split: consumer_pc.splits)
next
  case (free_call ptr s i)
  then have "ptr \<notin> pt_owned s" by (auto simp: pt_defs)
  moreover have "pt_mutex s \<noteq> Some i"
    using free_call by (intro pt_mutex_idle) (auto simp: pt_inv_def)
  ultimately show ?case using free_call
    by (auto simp: pt_defs owned_rules split: consumer_pc.splits if_splits)
next
  case (free_lock s i ptr)
  then show ?case by (auto simp: pt_defs owned_rules split: consumer_pc.splits if_splits)
next
  case (free_store s i ptr)
  then have "pt_producer s j \<noteq> P_Stored q" if "j \<noteq> i" for j q
    using pt_mutex_alone [of s i j] that by (auto simp: pt_inv_def)
  with free_store show ?case
    by (auto simp: pt_defs owned_rules free_list_store pool_wf_def split: consumer_pc.splits if_splits)
next
  case (free_publish s i ptr)
  then show ?case by (rule pt_inv_free_publish [rotated])
next
  case (free_unlock s i)
  then have "\<not> in_section (pt_producer s j)" if "j \<noteq> i" for j
    using pt_mutex_alone [of s i j] that by (auto simp: pt_inv_def)
  with free_unlock show ?case by (auto simp: pt_defs owned_rules split: consumer_pc.splits if_splits)
qed

lemma pt_reach_inv:
  assumes "pt_reach p s" and "pool_inv p {}"
  shows "pt_inv s"
  using assms(1)
proof induction
  case start
  with assms(2) show ?case
    by (auto simp: pt_defs pool_inv_def owned_by_def unique_by_def)
next
  case (step s l s')
  then show ?case by (blast intro: pt_step_inv)
qed

lemma pt_returns_fresh:
  assumes "pt_inv s" and "pt_step s (Returns ptr) s'"
  shows "ptr \<notin> pt_live s \<and> ptr \<notin> pt_owned s"
  using assms(2)
proof cases
  case malloc_os
  with assms(1) have "ptr \<notin> pool_buffers (pt_pool s)"
    using pool_buffers_region [of "pt_pool s"] by (auto simp: pt_inv_def)
  with assms(1) malloc_os show ?thesis by (auto simp: pt_inv_def pt_parts_def)
next
  case malloc_write
  with assms(1) have "ptr \<in> set (free_list (pt_pool s))"
    by (auto simp: pt_inv_def pt_consumer_ok_def intro: hd_in_set)
  with assms(1) show ?thesis by (auto simp: pt_inv_def pt_parts_def)
qed

section \<open>Properties\<close>

text \<open>
  C13: with one allocating thread and any number of freeing threads, in every interleaving of
  their memory accesses that starts from a freshly constructed pool, \<open>malloc\<close> never returns a
  pointer that a client still uses or that a thread is in the middle of freeing, and the buffers
  of the pool are always exactly those that are queued, in use or being freed.
\<close>

theorem threads_never_share_buffer:
  assumes "0 < bufferSize" and "pt_reach (BufferPool mem bufferSize bufferCount False) s"
    and "pt_step s (Returns ptr) s'"
  shows "ptr \<notin> pt_live s \<and> ptr \<notin> pt_owned s \<and>
    set (free_list (pt_pool s')) \<union> pt_owned s' \<union> (pt_live s' \<inter> pool_region (pt_pool s'))
      = pool_buffers (pt_pool s')"
proof (intro conjI)
  have "pt_inv s"
    using pt_reach_inv [OF assms(2)] BufferPool_inv(1) [OF assms(1)] by blast
  then show "ptr \<notin> pt_live s" and "ptr \<notin> pt_owned s"
    using pt_returns_fresh [OF _ assms(3)] by auto
  show "set (free_list (pt_pool s')) \<union> pt_owned s' \<union> (pt_live s' \<inter> pool_region (pt_pool s'))
      = pool_buffers (pt_pool s')"
    using pt_step_inv [OF assms(3) \<open>pt_inv s\<close>] by (simp add: pt_inv_def pt_parts_def)
qed

lemma pt_reach_example:
  "\<exists>s s'. pt_reach (BufferPool 1000 8 2 False) s \<and> pt_step s (Returns 1000) s'"
proof -
  let ?p = "BufferPool 1000 8 2 False"
  let ?s = "\<lambda>pc. \<lparr>pt_pool = ?p, pt_live = {}, pt_mutex = None, pt_consumer = pc,
    pt_producer = (\<lambda>_. P_Idle)\<rparr>"
  have ne: "bp_head ?p \<noteq> bp_tail ?p" and front: "bp_ptrs ?p ! unat (bp_head ?p) = 1000"
    by (simp_all add: BufferPool_def upt_rec)
  have "pt_reach ?p (?s C_NonEmpty)"
    using pt_reach.step [OF pt_reach.start, OF pt_step.malloc_test] ne by fastforce
  then have "pt_reach ?p (?s (C_Got 1000))"
    using pt_reach.step [OF _ pt_step.malloc_read] front by fastforce
  then show ?thesis using pt_step.malloc_write [of "?s (C_Got 1000)" 1000] by auto
qed

theorem threads_never_share_buffer_witness:
  "\<exists>s s'. pt_reach (BufferPool 1000 8 2 False) s \<and> pt_step s (Returns 1000) s' \<and>
     1000 \<notin> pt_live s"
  using pt_reach_example threads_never_share_buffer [of 8] by (metis zero_less_numeral)

text \<open>
  C27: \<open>malloc\<close> and \<open>free\<close> implement a FIFO queue of buffers: \<open>malloc\<close> takes the front of the
  queue (and falls back to the operating system only when it is empty), a \<open>free\<close> of a buffer
  in use appends it, and neither ever breaks the partition of the pool into queued and used.
\<close>

theorem pool_refines_fifo:
  assumes "pool_inv p out"
  shows "(case free_list p of
      [] \<Rightarrow> bp_malloc os p = (p, os)
    | b # q \<Rightarrow> \<exists>p'. bp_malloc os p = (p', b) \<and> free_list p' = q \<and> b \<notin> out \<and>
        pool_inv p' (insert b out)) \<and>
    (\<forall>ptr \<in> out. \<exists>p'. bp_free ptr p = (p', None) \<and>
        free_list p' = free_list p @ [ptr] \<and> pool_inv p' (out - {ptr}))"
proof (rule conjI)
  show "case free_list p of
      [] \<Rightarrow> bp_malloc os p = (p, os)
    | b # q \<Rightarrow> \<exists>p'. bp_malloc os p = (p', b) \<and> free_list p' = q \<and> b \<notin> out \<and>
        pool_inv p' (insert b out)"
  proof (cases "bp_empty p")
    case True
    with assms have "free_list p = []" by (simp add: pool_inv_def bp_empty_def free_list_Nil)
    with True show ?thesis by (simp add: bp_malloc_def bp_empty_def)
  next
    case False
    then show ?thesis
      using bp_malloc_inv [OF assms, of os] by (cases "bp_malloc os p") auto
  qed
qed (use bp_free_inv [OF assms] in blast)

theorem pool_refines_fifo_witness:
  "bp_malloc 7 (BufferPool 1000 8 0 True) = (BufferPool 1000 8 0 True, 7)"
proof -
  have "pool_inv (BufferPool 1000 8 0 True) {}" by (rule BufferPool_inv) simp
  then show ?thesis
    using pool_refines_fifo [of "BufferPool 1000 8 0 True" "{}" 7]
    by (simp add: BufferPool_inv(2))
qed

text \<open>
  A client that allocates any number of buffers from a pool, some of which may have to come
  from the operating system, gets pairwise different pointers, none of them in use before. Proved
  through the interface \<open>buffer_source\<close>.
\<close>

theorem pool_allocations_distinct:
  assumes "pool_inv p out" and "distinct oss" and "set oss \<inter> pool_region p = {}"
    and "bpool.alloc_all oss p = (p', ptrs)"
  shows "distinct ptrs \<and> set ptrs \<inter> out = {} \<and> set ptrs \<subseteq> set oss \<union> pool_region p"
  by (rule bpool.alloc_all_fresh [OF assms])

theorem pool_allocations_distinct_witness:
  "distinct (snd (bpool.alloc_all [1, 2, 3] (BufferPool 1000 8 2 True)))"
proof -
  let ?p = "BufferPool 1000 8 2 True"
  have "pool_inv ?p {}" by (rule BufferPool_inv) simp
  moreover have "set [1, 2, 3] \<inter> pool_region ?p = {}"
    by (simp add: pool_region_def BufferPool_def)
  ultimately show ?thesis
    using pool_allocations_distinct [of ?p "{}" "[1, 2, 3]"]
    by (cases "bpool.alloc_all [1, 2, 3] ?p") auto
qed

lemma bp_remaining_nat:
  assumes "pool_wf p" and "bp_head p \<noteq> bp_tail p"
  shows "bp_remaining p = of_nat (length (free_list p))"
proof (cases "bp_head p < bp_tail p")
  case True
  then have "unat (bp_head p) \<le> unat (bp_tail p)" by (simp add: word_less_nat_alt)
  with True show ?thesis
    by (simp add: bp_remaining_def length_free_list ring_len_def of_nat_diff)
next
  case False
  with assms have less: "unat (bp_tail p) < unat (bp_head p)"
    by (simp add: bp_head_eq_tail word_less_nat_alt)
  have "unat (bp_head p) \<le> unat (bp_tail p) + slots p"
    using assms(1) by (simp add: pool_wf_def)
  with less False show ?thesis
    by (simp add: bp_remaining_def length_free_list ring_len_def of_nat_diff slots_def)
qed

lemma bp_full_iff:
  assumes "pool_wf p"
  shows "bp_full p \<longleftrightarrow> length (free_list p) = unat (bp_bufferCount p)"
proof -
  let ?h = "unat (bp_head p)" and ?t = "unat (bp_tail p)" and ?n = "slots p"
  have wf: "?h < ?n" "?t < ?n" using assms by (auto simp: pool_wf_def)
  have "bp_full p \<longleftrightarrow> Suc ?t mod ?n = ?h"
    by (simp add: bp_full_def word_unat_eq_iff unat_bp_next)
  also have "\<dots> \<longleftrightarrow> Suc (ring_len ?n ?h ?t) = ?n"
    using wf by (cases "Suc ?t = ?n") (auto simp: ring_len_def)
  finally show ?thesis by (simp add: length_free_list slots_def)
qed

text \<open>
  \<open>empty()\<close> and \<open>full()\<close> are exact in every state a client can reach, and \<open>remaining()\<close> is
  the number of free buffers exactly when the pool is not empty: on an empty pool it reports
  one more than the capacity, modulo 2^16.
\<close>

theorem pool_counters:
  assumes "pool_inv p out"
  shows "(bp_empty p \<longleftrightarrow> free_list p = []) \<and> (bp_full p \<longleftrightarrow> out = {}) \<and>
    bp_remaining p = (if bp_empty p then bp_bufferCount p + 1 else of_nat (length (free_list p)))"
proof (intro conjI)
  have wf: "pool_wf p" using assms by (simp add: pool_inv_def)
  show "bp_empty p \<longleftrightarrow> free_list p = []" using wf by (simp add: bp_empty_def free_list_Nil)
  show "bp_full p \<longleftrightarrow> out = {}"
    using pool_inv_count [OF assms] pool_inv_out_finite [OF assms] by (auto simp: bp_full_iff wf)
  show "bp_remaining p =
      (if bp_empty p then bp_bufferCount p + 1 else of_nat (length (free_list p)))"
    using bp_remaining_nat [OF wf] by (auto simp: bp_empty_def bp_remaining_def)
qed

theorem pool_counters_witness:
  "bp_remaining (BufferPool 1000 8 0 True) = 1 \<and> bp_remaining (BufferPool 1000 8 5 True) = 5"
proof -
  have "pool_inv (BufferPool 1000 8 n True) {}" for n by (rule BufferPool_inv) simp
  note remaining = conjunct2 [OF conjunct2 [OF pool_counters [OF this]]]
  have "bp_empty (BufferPool 1000 8 0 True)" and "\<not> bp_empty (BufferPool 1000 8 5 True)"
    by (simp_all add: bp_empty_def BufferPool_def)
  then show ?thesis by (simp add: remaining BufferPool_inv(2)) (simp add: BufferPool_def)
qed

end
