(* ===== verification/C_Strings.thy ===== *)
theory C_Strings
  imports A17_Prelude
begin

text \<open>
  What the sources use of the C and C++ string library, written out: \<open>strtol\<close> and
  \<open>std::to_string\<close> in base 10, \<open>std::string::find\<close> and \<open>substr\<close>, character classes of the C
  locale, NUL-terminated strings inside a character buffer, and \<open>std::getline\<close> with a
  separator. Undefined behaviour and exceptions are values of \<open>fault\<close>; an operation that can
  meet them returns \<open>fault + 'a\<close>.
\<close>

section \<open>Faults\<close>

datatype fault =
    Out_Of_Bounds          \<comment> \<open>a read or write outside an array (undefined behaviour)\<close>
  | Buffer_Overflow        \<comment> \<open>\<open>sprintf\<close> or \<open>strcpy\<close> past the end of a buffer\<close>
  | Dangling               \<comment> \<open>use of an erased element or an invalidated iterator\<close>
  | Null_Pointer
  | Runtime_Error string   \<comment> \<open>a thrown \<open>std::runtime_error\<close>\<close>
  | Division_By_Zero
  | Invalid_Argument       \<comment> \<open>a thrown \<open>std::invalid_argument\<close>\<close>
  | Out_Of_Range           \<comment> \<open>thrown by \<open>.at()\<close>\<close>

type_synonym 'a result = "fault + 'a"

fun and_then :: "'a result \<Rightarrow> ('a \<Rightarrow> 'b result) \<Rightarrow> 'b result" where
  "and_then (Inl e) f = Inl e"
| "and_then (Inr x) f = f x"

lemma and_then_Inr [simp]: "and_then r f = Inr y \<longleftrightarrow> (\<exists>x. r = Inr x \<and> f x = Inr y)"
  by (cases r) auto

lemma and_then_assoc: "and_then (and_then r f) g = and_then r (\<lambda>x. and_then (f x) g)"
  by (cases r) auto

abbreviation ok :: "'a result \<Rightarrow> bool" where
  "ok r \<equiv> \<not> isl r"

section \<open>Characters\<close>

abbreviation NUL :: char where
  "NUL \<equiv> CHR 0x00"

abbreviation code_of :: "char \<Rightarrow> nat" where
  "code_of c \<equiv> of_char c"

definition isdigit :: "char \<Rightarrow> bool" where
  "isdigit c \<longleftrightarrow> 48 \<le> code_of c \<and> code_of c \<le> 57"

definition isspace :: "char \<Rightarrow> bool" where
  "isspace c \<longleftrightarrow> code_of c = 32 \<or> 9 \<le> code_of c \<and> code_of c \<le> 13"

definition isprint :: "char \<Rightarrow> bool" where
  "isprint c \<longleftrightarrow> 32 \<le> code_of c \<and> code_of c \<le> 126"

lemma code_of_char_of: "n < 256 \<Longrightarrow> code_of (char_of n) = n"
  by (simp add: of_char_of)

section \<open>Decimal numbers\<close>

definition digit_char :: "nat \<Rightarrow> char" where
  "digit_char d = char_of (48 + d)"

fun to_string :: "nat \<Rightarrow> string" where
  "to_string n = (if n < 10 then [digit_char n] else to_string (n div 10) @ [digit_char (n mod 10)])"

declare to_string.simps [simp del]

definition int_to_string :: "int \<Rightarrow> string" where
  "int_to_string i = (if i < 0 then CHR ''-'' # to_string (nat (- i)) else to_string (nat i))"

definition digits_value :: "string \<Rightarrow> nat" where
  "digits_value ds = foldl (\<lambda>acc c. acc * 10 + (code_of c - 48)) 0 ds"

text \<open>\<open>strtol(s, nullptr, 10)\<close> on a 64-bit \<open>long\<close>: white space, a sign, digits; it saturates.\<close>

definition LONG_MAX :: int where
  "LONG_MAX = 2 ^ 63 - 1"

definition LONG_MIN :: int where
  "LONG_MIN = - (2 ^ 63)"

definition strtol :: "string \<Rightarrow> int" where
  "strtol s =
     (let s1 = dropWhile isspace s;
          neg = (s1 \<noteq> [] \<and> hd s1 = CHR ''-'');
          s2 = (if s1 \<noteq> [] \<and> (hd s1 = CHR ''-'' \<or> hd s1 = CHR ''+'') then tl s1 else s1);
          v = int (digits_value (takeWhile isdigit s2))
      in max LONG_MIN (min LONG_MAX (if neg then - v else v)))"

lemma digit_char_code: "d < 10 \<Longrightarrow> code_of (digit_char d) = 48 + d"
  by (simp add: digit_char_def of_char_of)

lemma isdigit_digit_char: "d < 10 \<Longrightarrow> isdigit (digit_char d)"
  by (simp add: isdigit_def digit_char_code)

lemma to_string_digits: "c \<in> set (to_string n) \<Longrightarrow> isdigit c"
proof (induction n rule: to_string.induct)
  case (1 n)
  then show ?case
    by (subst (asm) to_string.simps) (auto simp: isdigit_digit_char split: if_splits)
qed

lemma to_string_not_Nil [simp]: "to_string n \<noteq> []"
  by (subst to_string.simps) simp

lemma digits_value_append: "digits_value (xs @ [c]) = digits_value xs * 10 + (code_of c - 48)"
  by (simp add: digits_value_def)

lemma digits_value_to_string [simp]: "digits_value (to_string n) = n"
proof (induction n rule: to_string.induct)
  case (1 n)
  then show ?case
  proof (cases "n < 10")
    case True
    then show ?thesis
      by (subst to_string.simps) (simp add: digits_value_def digit_char_code)
  next
    case False
    with 1 show ?thesis
      by (subst to_string.simps) (simp add: digits_value_append digit_char_code)
  qed
qed

lemma isdigit_not_special:
  assumes "isdigit c"
  shows "\<not> isspace c" "c \<noteq> CHR ''-''" "c \<noteq> CHR ''+''" "c \<noteq> NUL" "c \<noteq> CHR '' ''"
    "c \<noteq> CHR '':''" "c \<noteq> CHR ''/''" "isprint c" "c \<noteq> CHR ''|''" "c \<noteq> CHR ''.''"
  using assms by (auto simp: isdigit_def isspace_def isprint_def)

lemma strtol_to_string:
  assumes "int n \<le> LONG_MAX" and "rest = [] \<or> \<not> isdigit (hd rest)"
  shows "strtol (to_string n @ rest) = int n"
proof -
  obtain c cs where cs: "to_string n = c # cs" by (cases "to_string n") auto
  then have "isdigit c" using to_string_digits [of c n] by simp
  then have "\<not> isspace c" and "c \<noteq> CHR ''-''" and "c \<noteq> CHR ''+''"
    by (auto dest: isdigit_not_special)
  then have "dropWhile isspace (to_string n @ rest) = to_string n @ rest"
    by (simp add: cs)
  moreover have "takeWhile isdigit (to_string n @ rest) = to_string n"
    using assms(2) to_string_digits [of _ n]
    by (cases rest) (auto simp: takeWhile_append)
  moreover have "LONG_MIN \<le> int n" by (simp add: LONG_MIN_def)
  ultimately show ?thesis
    using assms(1) \<open>c \<noteq> CHR ''-''\<close> \<open>c \<noteq> CHR ''+''\<close>
      digits_value_to_string [of n]
    by (simp add: strtol_def cs Let_def del: digits_value_to_string)
qed

section \<open>Searching\<close>

text \<open>\<open>s.find(pat, pos)\<close>, with \<open>None\<close> for \<open>npos\<close>.\<close>

fun str_find :: "string \<Rightarrow> string \<Rightarrow> nat option" where
  "str_find pat [] = (if pat = [] then Some 0 else None)"
| "str_find pat (c # s) =
     (if take (length pat) (c # s) = pat then Some 0 else map_option Suc (str_find pat s))"

definition find_from :: "string \<Rightarrow> string \<Rightarrow> nat \<Rightarrow> nat option" where
  "find_from pat s pos =
     (if pos \<le> length s then map_option ((+) pos) (str_find pat (drop pos s)) else None)"

definition substr :: "string \<Rightarrow> nat \<Rightarrow> nat option \<Rightarrow> string" where
  "substr s pos n = (case n of None \<Rightarrow> drop pos s | Some k \<Rightarrow> take k (drop pos s))"

lemma str_find_head_absent:
  "hd pat \<notin> set pre \<Longrightarrow> pat \<noteq> [] \<Longrightarrow> str_find pat (pre @ s) = map_option ((+) (length pre)) (str_find pat s)"
proof (induction pre)
  case Nil
  then show ?case by (cases "str_find pat s") auto
next
  case (Cons c pre)
  then have "take (length pat) (c # pre @ s) \<noteq> pat" by (cases pat) auto
  with Cons show ?case by (cases "str_find pat s") auto
qed

lemma str_find_here: "pat \<noteq> [] \<Longrightarrow> str_find pat (pat @ s) = Some 0"
  by (cases pat) auto

lemma str_find_absent: "hd pat \<notin> set s \<Longrightarrow> pat \<noteq> [] \<Longrightarrow> str_find pat s = None"
  using str_find_head_absent [of pat s "[]"] by simp

section \<open>Strings in a buffer\<close>

text \<open>The C string at index \<open>i\<close>; a missing terminator is a read past the end.\<close>

definition cstr :: "string \<Rightarrow> nat \<Rightarrow> string result" where
  "cstr buf i = (if NUL \<in> set (drop i buf) then Inr (takeWhile (\<lambda>c. c \<noteq> NUL) (drop i buf))
                 else Inl Out_Of_Bounds)"

definition char_at :: "string \<Rightarrow> nat \<Rightarrow> char result" where
  "char_at buf i = (if i < length buf then Inr (buf ! i) else Inl Out_Of_Bounds)"

lemma takeWhile_neq: "x \<notin> set s \<Longrightarrow> takeWhile (\<lambda>c. c \<noteq> x) (s @ x # rest) = s"
  by (induction s) auto

lemma dropWhile_neq: "x \<notin> set s \<Longrightarrow> dropWhile (\<lambda>c. c \<noteq> x) (s @ x # rest) = x # rest"
  by (induction s) auto

lemma cstr_token:
  "NUL \<notin> set s \<Longrightarrow> i = length pre \<Longrightarrow> cstr (pre @ s @ NUL # rest) i = Inr s"
  by (simp add: cstr_def takeWhile_neq)

lemma char_at_index [simp]:
  "char_at (pre @ c # rest) (length pre) = Inr c" "char_at (c # rest) 0 = Inr c"
  by (simp_all add: char_at_def)

section \<open>Fields separated by a character\<close>

text \<open>
  \<open>while (!is.eof()) { getline(is, raw, sep); ... }\<close>: the fields of a non-empty line. After a
  separator in the last position the stream is not at its end yet, so one more, empty field is
  delivered.
\<close>

function split_on :: "char \<Rightarrow> string \<Rightarrow> string list" where
  "split_on sep s =
     (let raw = takeWhile (\<lambda>c. c \<noteq> sep) s; rest = dropWhile (\<lambda>c. c \<noteq> sep) s
      in raw # (if rest = [] then [] else split_on sep (tl rest)))"
  by pat_completeness auto

termination
proof (relation "measure (\<lambda>(sep, s). length s)")
  fix sep s raw and rest :: string
  assume "rest = dropWhile (\<lambda>c. c \<noteq> sep) s" and "rest \<noteq> []"
  then have "length rest \<le> length s" and "0 < length rest" by (auto simp: length_dropWhile_le)
  then show "((sep, tl rest), sep, s) \<in> measure (\<lambda>(sep, s). length s)"
    by (cases rest) simp_all
qed simp

declare split_on.simps [simp del]

fun joined :: "char \<Rightarrow> string list \<Rightarrow> string" where
  "joined sep [] = []"
| "joined sep [w] = w"
| "joined sep (w # ws) = w @ sep # joined sep ws"

lemma split_on_last: "sep \<notin> set w \<Longrightarrow> split_on sep w = [w]"
proof -
  assume "sep \<notin> set w"
  then have "takeWhile (\<lambda>c. c \<noteq> sep) w = w" and "dropWhile (\<lambda>c. c \<noteq> sep) w = []"
    by (auto simp: takeWhile_eq_all_conv)
  then show ?thesis by (subst split_on.simps) (simp add: Let_def)
qed

lemma split_on_step: "sep \<notin> set w \<Longrightarrow> split_on sep (w @ sep # s) = w # split_on sep s"
  by (subst split_on.simps) (simp add: takeWhile_neq dropWhile_neq Let_def)

lemma split_on_joined:
  "ws \<noteq> [] \<Longrightarrow> (\<And>w. w \<in> set ws \<Longrightarrow> sep \<notin> set w) \<Longrightarrow> split_on sep (joined sep ws) = ws"
  by (induction sep ws rule: joined.induct) (simp_all add: split_on_last split_on_step)

lemma set_joined: "c \<in> set (joined sep ws) \<Longrightarrow> c = sep \<or> (\<exists>w \<in> set ws. c \<in> set w)"
  by (induction sep ws rule: joined.induct) auto

end
