(* ===== verification/Net_Address.thy ===== *)
theory Net_Address
  imports C_Strings
begin

unbundle bit_operations_syntax

text \<open>
  Network addresses, \<open>src/a17/dispatch/address.{h,cpp}\<close>: choosing the local interface
  (\<open>OwnAddress\<close>), membership in the local network, and parsing and printing of socket addresses
  (\<open>Address\<close>). \<open>getnameinfo\<close> and \<open>inet_addr\<close> belong to the operating system and are
  arguments of the definitions that call them, as are the environment variable and the list
  that \<open>getifaddrs\<close> returns. An \<open>in_addr_t\<close> is a 32-bit word.
\<close>

section \<open>The local interface\<close>

record sockaddr =
  sa_inet :: bool
  sin_addr :: u32

record ifaddr =
  ifa_name :: string
  ifa_addr :: "sockaddr option"
  ifa_dstaddr :: "sockaddr option"
  ifa_netmask :: "sockaddr option"

record OwnAddress =
  own_address :: string
  own_broadcast :: string
  own_netmask :: string
  own_network :: u32
  own_mask :: u32
  own_interface :: string

text \<open>
  \<open>getAddressFromSocket\<close> writes its first argument only on success; \<open>nameinfo\<close> gives the result
  code of \<open>getnameinfo\<close> and the text it wrote.
\<close>

definition getAddressFromSocket ::
  "(sockaddr \<Rightarrow> int \<times> string) \<Rightarrow> string \<Rightarrow> sockaddr option \<Rightarrow> string \<times> int" where
  "getAddressFromSocket nameinfo address addr =
     (case addr of None \<Rightarrow> (address, - 1)
      | Some a \<Rightarrow> (let (s, text) = nameinfo a in (if s \<ge> 0 then text else address, s)))"

definition localhost :: "(string \<Rightarrow> u32) \<Rightarrow> OwnAddress" where
  "localhost inet_addr =
     \<lparr>own_address = ''127.0.0.1'', own_broadcast = ''127.0.0.1'', own_netmask = ''255.255.255.255'',
      own_network = inet_addr ''127.0.0.1'', own_mask = inet_addr ''255.255.255.255'',
      own_interface = []\<rparr>"

text \<open>
  The loop over the interfaces. The three strings live across iterations; every \<open>continue\<close> is a
  recursive call. The result also has the strings, which decide about the final warning.
\<close>

fun select_interface :: "(sockaddr \<Rightarrow> int \<times> string) \<Rightarrow> string \<Rightarrow> OwnAddress \<Rightarrow>
    string \<times> string \<times> string \<Rightarrow> ifaddr list \<Rightarrow> OwnAddress \<times> string \<times> string \<times> string" where
  "select_interface nameinfo interface own strs [] = (own, strs)"
| "select_interface nameinfo interface own (address, broadcast, netmask) (ifa # ifas) =
     (if (case ifa_addr ifa of None \<Rightarrow> True | Some a \<Rightarrow> \<not> sa_inet a)
      then select_interface nameinfo interface own (address, broadcast, netmask) ifas
      else if ifa_name ifa = interface then
        (let (address, s) = getAddressFromSocket nameinfo address (ifa_addr ifa) in
         if s < 0 then select_interface nameinfo interface own (address, broadcast, netmask) ifas else
         let (broadcast, s) = getAddressFromSocket nameinfo broadcast (ifa_dstaddr ifa) in
         if s < 0 then select_interface nameinfo interface own (address, broadcast, netmask) ifas else
         let (netmask, s) = getAddressFromSocket nameinfo netmask (ifa_netmask ifa) in
         if s < 0 then select_interface nameinfo interface own (address, broadcast, netmask) ifas else
         if address \<noteq> [] \<and> broadcast \<noteq> [] \<and> netmask \<noteq> [] then
           (let mask = sin_addr (the (ifa_netmask ifa)) in
            (own\<lparr>own_address := address, own_broadcast := broadcast, own_netmask := netmask,
                 own_mask := mask, own_network := sin_addr (the (ifa_addr ifa)) AND mask,
                 own_interface := interface\<rparr>, address, broadcast, netmask))
         else select_interface nameinfo interface own (address, broadcast, netmask) ifas)
      else select_interface nameinfo interface own (address, broadcast, netmask) ifas)"

text \<open>The constructor; the second component says whether it logs the warning about a missing ip.\<close>

definition make_OwnAddress :: "(string \<Rightarrow> u32) \<Rightarrow> (sockaddr \<Rightarrow> int \<times> string) \<Rightarrow> string option \<Rightarrow>
    ifaddr list option \<Rightarrow> OwnAddress \<times> bool" where
  "make_OwnAddress inet_addr nameinfo env ifaddrs =
     (case env of None \<Rightarrow> (localhost inet_addr, False)
      | Some interface \<Rightarrow>
         (case ifaddrs of None \<Rightarrow> (localhost inet_addr, False)
          | Some ifas \<Rightarrow>
             (let (own, address, broadcast, netmask) =
                select_interface nameinfo interface (localhost inet_addr) ([], [], []) ifas
              in (own, address = [] \<and> broadcast = [] \<and> netmask = []))))"

definition onNetwork :: "(string \<Rightarrow> u32) \<Rightarrow> OwnAddress \<Rightarrow> string \<Rightarrow> bool" where
  "onNetwork inet_addr own address \<longleftrightarrow> inet_addr address AND own_mask own = own_network own"

section \<open>Socket addresses\<close>

record Address =
  ad_protocol :: string
  ad_ip :: string
  ad_port :: u16
  ad_interface :: string

definition Address_of_port :: "OwnAddress \<Rightarrow> u16 \<Rightarrow> Address" where
  "Address_of_port own port =
     \<lparr>ad_protocol = ''tcp'', ad_ip = own_address own, ad_port = port,
      ad_interface = own_interface own\<rparr>"

definition make_Address :: "string \<Rightarrow> string \<Rightarrow> u16 \<Rightarrow> Address" where
  "make_Address protocol ip port =
     \<lparr>ad_protocol = protocol, ad_ip = ip, ad_port = port, ad_interface = []\<rparr>"

text \<open>The copy constructor does not copy \<open>interface_\<close>.\<close>

definition copy_Address :: "Address \<Rightarrow> Address" where
  "copy_Address other =
     \<lparr>ad_protocol = ad_protocol other, ad_ip = ad_ip other, ad_port = ad_port other,
      ad_interface = []\<rparr>"

definition Address_str :: "Address \<Rightarrow> string" where
  "Address_str a = ad_protocol a @ ''://'' @ ad_ip a @ '':'' @ to_string (unat (ad_port a))"

definition isLocalhost :: "Address \<Rightarrow> bool" where
  "isLocalhost a \<longleftrightarrow> ad_ip a = ''127.0.0.1'' \<or> ad_ip a = ''localhost''"

definition Address_parse :: "string \<Rightarrow> Address" where
  "Address_parse address =
     (let (protocol, pos) =
        (case find_from ''://'' address 0 of
           None \<Rightarrow> (''tcp'', 0)
         | Some urlPos \<Rightarrow> (substr address 0 (Some urlPos), urlPos + 3));
      portPos = find_from '':'' address pos;
      ip = substr address pos (map_option (\<lambda>p. p - pos) portPos);
      port = (case portPos of None \<Rightarrow> 0
              | Some p \<Rightarrow> word_of_int (strtol (drop (p + 1) address)))
      in make_Address protocol ip port)"

section \<open>Lemmas\<close>

lemma find_from_url:
  "CHR '':'' \<notin> set protocol \<Longrightarrow>
     find_from ''://'' (protocol @ ''://'' @ rest) 0 = Some (length protocol)"
  using str_find_head_absent [of "''://''" protocol "''://'' @ rest"] str_find_here [of "''://''" rest]
  by (simp add: find_from_def)

lemma find_from_colon:
  assumes "CHR '':'' \<notin> set ip"
  shows "find_from '':'' (pre @ ip @ CHR '':'' # rest) (length pre) = Some (length pre + length ip)"
    and "find_from '':'' (pre @ ip) (length pre) = None"
proof -
  show "find_from '':'' (pre @ ip @ CHR '':'' # rest) (length pre) = Some (length pre + length ip)"
    using assms str_find_head_absent [of "'':''" ip "CHR '':'' # rest"] by (simp add: find_from_def)
  show "find_from '':'' (pre @ ip) (length pre) = None"
    using assms str_find_absent [of "'':''" ip] by (simp add: find_from_def)
qed

lemma Address_parse_url:
  assumes "CHR '':'' \<notin> set protocol" and "CHR '':'' \<notin> set ip"
  shows "Address_parse (protocol @ ''://'' @ ip @ '':'' @ rest)
    = make_Address protocol ip (word_of_int (strtol rest))"
proof -
  have "find_from ''://'' (protocol @ ''://'' @ ip @ '':'' @ rest) 0 = Some (length protocol)"
    using find_from_url [OF assms(1)] .
  moreover have "find_from '':'' (protocol @ ''://'' @ ip @ '':'' @ rest) (length protocol + 3)
      = Some (length protocol + 3 + length ip)"
    using find_from_colon(1) [OF assms(2), of "protocol @ ''://''" rest]
    by (simp add: numeral_3_eq_3)
  moreover have "drop (length protocol + 3 + length ip + 1) (protocol @ ''://'' @ ip @ '':'' @ rest) = rest"
    by (simp add: eval_nat_numeral)
  moreover have "drop (length protocol + 3) (protocol @ ''://'' @ ip @ '':'' @ rest) = ip @ '':'' @ rest"
    by simp
  ultimately show ?thesis
    by (simp add: Address_parse_def Let_def substr_def del: drop_append)
qed

lemma getAddress_success:
  "getAddressFromSocket nameinfo str addr = (str', s) \<Longrightarrow> 0 \<le> s \<Longrightarrow>
     \<exists>a. addr = Some a \<and> nameinfo a = (s, str')"
  by (auto simp: getAddressFromSocket_def split: option.splits prod.splits)

text \<open>What it takes for an interface to be selected.\<close>

definition usable :: "(sockaddr \<Rightarrow> int \<times> string) \<Rightarrow> string \<Rightarrow> ifaddr \<Rightarrow> bool" where
  "usable nameinfo interface ifa \<longleftrightarrow> ifa_name ifa = interface \<and>
     (\<exists>a. ifa_addr ifa = Some a \<and> sa_inet a) \<and>
     (\<forall>addr \<in> {ifa_addr ifa, ifa_dstaddr ifa, ifa_netmask ifa}.
        \<exists>a. addr = Some a \<and> 0 \<le> fst (nameinfo a) \<and> snd (nameinfo a) \<noteq> [])"

definition selected :: "(sockaddr \<Rightarrow> int \<times> string) \<Rightarrow> ifaddr \<Rightarrow> OwnAddress" where
  "selected nameinfo ifa =
     \<lparr>own_address = snd (nameinfo (the (ifa_addr ifa))),
      own_broadcast = snd (nameinfo (the (ifa_dstaddr ifa))),
      own_netmask = snd (nameinfo (the (ifa_netmask ifa))),
      own_network = sin_addr (the (ifa_addr ifa)) AND sin_addr (the (ifa_netmask ifa)),
      own_mask = sin_addr (the (ifa_netmask ifa)), own_interface = ifa_name ifa\<rparr>"

lemma select_interface_first:
  "fst (select_interface nameinfo interface own strs ifas) =
     (case find (usable nameinfo interface) ifas of None \<Rightarrow> own | Some ifa \<Rightarrow> selected nameinfo ifa)"
proof (induction ifas arbitrary: strs)
  case (Cons ifa ifas)
  obtain address broadcast netmask where strs: "strs = (address, broadcast, netmask)"
    using prod_cases3 by blast
  show ?case unfolding strs
    by (cases "ifa_addr ifa"; cases "ifa_dstaddr ifa"; cases "ifa_netmask ifa")
      (auto simp: Cons.IH usable_def [of _ _ ifa] selected_def getAddressFromSocket_def Let_def
        case_prod_unfold)
qed simp

lemma onNetwork_selected:
  "onNetwork inet_addr (selected nameinfo ifa) address \<longleftrightarrow>
     (\<forall>n. bit (sin_addr (the (ifa_netmask ifa))) n \<longrightarrow>
        bit (inet_addr address) n = bit (sin_addr (the (ifa_addr ifa))) n)"
proof -
  have "(x AND m = y AND m) = (\<forall>n. bit m n \<longrightarrow> bit x n = bit y n)" for x y m :: u32
    unfolding bit_eq_iff bit_and_iff by (metis bit_imp_possible_bit)
  then show ?thesis by (simp add: onNetwork_def selected_def)
qed

section \<open>Properties\<close>

text \<open>
  Parsing the printed form of an address gives back its protocol, ip and port, for every port
  number, provided protocol and ip contain no colon; what is not restored is the interface,
  which the copy constructor loses as well.
\<close>

theorem Address_parse_print:
  assumes "CHR '':'' \<notin> set (ad_protocol a)" and "CHR '':'' \<notin> set (ad_ip a)"
  shows "Address_parse (Address_str a) = copy_Address a"
proof -
  have "int (unat (ad_port a)) \<le> LONG_MAX"
    using of_nat_mono [OF unat_u16_bound [of "ad_port a"], where 'a = int] by (simp add: LONG_MAX_def)
  then have "strtol (to_string (unat (ad_port a))) = int (unat (ad_port a))"
    using strtol_to_string [of "unat (ad_port a)" "[]"] by simp
  then show ?thesis
    using Address_parse_url [OF assms]
    by (simp add: Address_str_def copy_Address_def make_Address_def)
qed

theorem Address_parse_print_witness:
  "Address_parse (Address_str (make_Address ''inproc'' ''process'' 45)) =
     make_Address ''inproc'' ''process'' 45"
  using Address_parse_print [of "make_Address ''inproc'' ''process'' 45"]
  by (simp add: make_Address_def copy_Address_def)

text \<open>
  The port of a parsed address is the number written behind the last colon modulo 2^16, for
  every number that fits a \<open>long\<close>: 65536 and 0 name the same port, no error is raised.
\<close>

theorem Address_parse_port_wraps:
  assumes "CHR '':'' \<notin> set protocol" and "CHR '':'' \<notin> set ip" and "int n \<le> LONG_MAX"
  shows "unat (ad_port (Address_parse (protocol @ ''://'' @ ip @ '':'' @ to_string n))) = n mod 65536"
  using Address_parse_url [OF assms(1,2)] strtol_to_string [OF assms(3), of "[]"]
  by (simp add: make_Address_def unat_of_nat)

theorem Address_parse_port_wraps_witness:
  "unat (ad_port (Address_parse (''tcp'' @ ''://'' @ ''h'' @ '':'' @ to_string 65537))) = 1"
  using Address_parse_port_wraps [of "''tcp''" "''h''" 65537] by (simp add: LONG_MAX_def)

text \<open>
  The node uses the first interface of the configured name that has an IPv4 address and
  complete name information, taking all of its data from that one interface although the
  working strings of the loop survive failed attempts; without such an interface (or without
  configuration) it uses localhost.
\<close>

theorem OwnAddress_selection:
  "fst (make_OwnAddress inet_addr nameinfo env ifaddrs) =
     (case (env, ifaddrs) of
        (Some interface, Some ifas) \<Rightarrow>
          (case find (usable nameinfo interface) ifas of
             None \<Rightarrow> localhost inet_addr | Some ifa \<Rightarrow> selected nameinfo ifa)
      | _ \<Rightarrow> localhost inet_addr)"
proof -
  have "fst (let (own, address, broadcast, netmask) = r in (own, w address broadcast netmask)) = fst r"
    for r :: "OwnAddress \<times> string \<times> string \<times> string" and w :: "string \<Rightarrow> string \<Rightarrow> string \<Rightarrow> bool"
    by (simp split: prod.splits)
  then show ?thesis
    by (simp add: make_OwnAddress_def select_interface_first split: option.splits)
qed

text \<open>
  An address is on the network of the selected interface exactly when it agrees with the
  interface's own address on every bit of the netmask; in particular the node's own address is,
  if \<open>inet_addr\<close> reads back the address that \<open>getnameinfo\<close> printed.
\<close>

theorem onNetwork_agrees_on_mask:
  assumes "find (usable nameinfo interface) ifas = Some ifa"
    and "own = fst (make_OwnAddress inet_addr nameinfo (Some interface) (Some ifas))"
  shows "(onNetwork inet_addr own address \<longleftrightarrow>
     (\<forall>n. bit (sin_addr (the (ifa_netmask ifa))) n \<longrightarrow>
        bit (inet_addr address) n = bit (sin_addr (the (ifa_addr ifa))) n)) \<and>
    (inet_addr (own_address own) = sin_addr (the (ifa_addr ifa)) \<longrightarrow>
      onNetwork inet_addr own (own_address own))"
proof (intro conjI impI)
  have "own = selected nameinfo ifa"
    unfolding assms(2) make_OwnAddress_def
    using select_interface_first [of nameinfo interface "localhost inet_addr" "([], [], [])" ifas] assms(1)
    by (cases "select_interface nameinfo interface (localhost inet_addr) ([], [], []) ifas") simp
  then show "onNetwork inet_addr own address \<longleftrightarrow>
     (\<forall>n. bit (sin_addr (the (ifa_netmask ifa))) n \<longrightarrow>
        bit (inet_addr address) n = bit (sin_addr (the (ifa_addr ifa))) n)"
    and "inet_addr (own_address own) = sin_addr (the (ifa_addr ifa)) \<Longrightarrow>
      onNetwork inet_addr own (own_address own)"
    by (auto simp: onNetwork_selected)
qed

text \<open>A network card \<open>10.0.0.7\<close> with netmask \<open>255.255.255.0\<close>, in network byte order.\<close>

definition example_card :: ifaddr where
  "example_card =
     \<lparr>ifa_name = ''eth0'', ifa_addr = Some \<lparr>sa_inet = True, sin_addr = 0x0700000A\<rparr>,
      ifa_dstaddr = Some \<lparr>sa_inet = True, sin_addr = 0xFF00000A\<rparr>,
      ifa_netmask = Some \<lparr>sa_inet = True, sin_addr = 0x00FFFFFF\<rparr>\<rparr>"

theorem onNetwork_agrees_on_mask_witness:
  "onNetwork (\<lambda>s. if s = ''a'' then 0x0700000A else 0)
     (fst (make_OwnAddress (\<lambda>s. if s = ''a'' then 0x0700000A else 0) (\<lambda>_. (0, ''a'')) (Some ''eth0'')
       (Some [example_card]))) ''a''"
proof -
  have "find (usable (\<lambda>_. (0, ''a'')) ''eth0'') [example_card] = Some example_card"
    by (simp add: usable_def example_card_def)
  from onNetwork_agrees_on_mask [OF this refl] show ?thesis
    by (simp add: example_card_def)
qed

end
