(* ===== verification/Topic_Store.thy ===== *)
theory Topic_Store
  imports C_Strings
begin

text \<open>
  The topics a node knows of: \<open>DirectoryTopic\<close> (\<open>src/a17/dispatch/directory_topic.{h,cpp}\<close>) and
  \<open>DirectoryTopicStore\<close> (\<open>directory.h\<close>, \<open>directory.cpp\<close>). \<open>std::map\<close> is \<open>omap\<close>, the observers are a
  multimap, a handler is a number, and the calls an operation makes are part of its result, in
  order. \<open>store_ok\<close> is the representation invariant, \<open>registered\<close> the abstract view: which topic a
  node, identified by its guid, offers under a name. \<open>topic_registry\<close> is what the directory relies
  on.
\<close>

section \<open>Topics\<close>

record DirectoryTopic =
  dt_name :: string
  dt_timestamp :: int
  dt_socketType :: int
  dt_address :: string
  dt_inputTypes :: "string list"
  dt_outputTypes :: "string list"
  dt_guid :: string
  dt_info :: string

definition DirectoryTopic_to_string :: "DirectoryTopic \<Rightarrow> string" where
  "DirectoryTopic_to_string t =
     ''{'' @ [CHR 0x0A]
     @ ''  name: '' @ dt_name t @ '','' @ [CHR 0x0A]
     @ ''  timestamp: '' @ int_to_string (dt_timestamp t) @ '','' @ [CHR 0x0A]
     @ ''  socketType: '' @ int_to_string (dt_socketType t) @ '','' @ [CHR 0x0A]
     @ ''  inputTypes: ['' @ [CHR 0x0A]
     @ concat (map (\<lambda>ty. ''    '' @ ty @ '','' @ [CHR 0x0A]) (dt_inputTypes t))
     @ ''  ],'' @ [CHR 0x0A]
     @ ''  outputTypes: ['' @ [CHR 0x0A]
     @ concat (map (\<lambda>ty. ''    '' @ ty @ '','' @ [CHR 0x0A]) (dt_outputTypes t))
     @ ''  ],'' @ [CHR 0x0A]
     @ ''  guid: '' @ dt_guid t @ '','' @ [CHR 0x0A]
     @ ''  info: '' @ dt_info t @ '','' @ [CHR 0x0A]
     @ ''}''"

definition DirectoryTopic_eq :: "DirectoryTopic \<Rightarrow> DirectoryTopic \<Rightarrow> bool" where
  "DirectoryTopic_eq t u \<longleftrightarrow>
     dt_name t = dt_name u \<and> dt_timestamp t = dt_timestamp u \<and>
     dt_socketType t = dt_socketType u \<and> dt_address t = dt_address u \<and>
     dt_inputTypes t = dt_inputTypes u \<and> dt_outputTypes t = dt_outputTypes u \<and>
     dt_guid t = dt_guid u \<and> dt_info t = dt_info u"

type_synonym guid_topic_map = "(string, DirectoryTopic) omap"

section \<open>The store\<close>

record DirectoryObserver =
  ob_handler :: nat
  ob_ref :: string

record topic_store =
  ts_my_guid :: string
  ts_local_topics :: "(string, DirectoryTopic) omap"
  ts_network_topics :: "(string, guid_topic_map) omap"
  ts_observers :: "(string \<times> DirectoryObserver) list"

text \<open>A call \<open>handler(topic_name, guid_topic_map)\<close>.\<close>

type_synonym call = "nat \<times> string \<times> guid_topic_map"

definition DirectoryTopicStore :: "string \<Rightarrow> topic_store" where
  "DirectoryTopicStore my_guid =
     \<lparr>ts_my_guid = my_guid, ts_local_topics = [], ts_network_topics = [], ts_observers = []\<rparr>"

definition callObservers :: "topic_store \<Rightarrow> string \<Rightarrow> guid_topic_map \<Rightarrow> call list" where
  "callObservers s topic_name m =
     (let handlers = map (\<lambda>e. ob_handler (snd e)) (equal_range topic_name (ts_observers s))
                   @ map (\<lambda>e. ob_handler (snd e)) (equal_range [] (ts_observers s))
      in map (\<lambda>h. (h, topic_name, m)) handlers)"

definition ts_add :: "DirectoryTopic \<Rightarrow> topic_store \<Rightarrow> (topic_store \<times> call list \<times> bool) result" where
  "ts_add t s =
     (let added_mine = (dt_guid t = ts_my_guid s) in
      if added_mine \<and> omap_has (ts_local_topics s) (dt_name t)
      then Inl (Runtime_Error (''Duplicate topic: '' @ dt_name t))
      else
       (let s = (if added_mine
                 then s\<lparr>ts_local_topics := omap_put (dt_name t) t (ts_local_topics s)\<rparr> else s) in
        case map_of (ts_network_topics s) (dt_name t) of
          Some m \<Rightarrow>
            (case map_of m (dt_guid t) of
               None \<Rightarrow>
                 (let m = omap_put (dt_guid t) t m in
                  Inr (s\<lparr>ts_network_topics := omap_put (dt_name t) m (ts_network_topics s)\<rparr>,
                       callObservers s (dt_name t) m, added_mine))
             | Some old \<Rightarrow>
                 if dt_address old \<noteq> dt_address t then
                   (let m = omap_put (dt_guid t) t m in
                    Inr (s\<lparr>ts_network_topics := omap_put (dt_name t) m (ts_network_topics s)\<rparr>,
                         callObservers s (dt_name t) m, added_mine))
                 else Inr (s, [], added_mine))
        | None \<Rightarrow>
            (let m = omap_put (dt_guid t) t [] in
             Inr (s\<lparr>ts_network_topics := omap_put (dt_name t) m (ts_network_topics s)\<rparr>,
                  callObservers s (dt_name t) m, added_mine))))"

definition ts_remove :: "string \<Rightarrow> string \<Rightarrow> topic_store \<Rightarrow> topic_store \<times> call list \<times> bool" where
  "ts_remove guid topic_name s =
     (let removed_mine = (guid = ts_my_guid s \<and> omap_has (ts_local_topics s) topic_name);
          s = (if guid = ts_my_guid s
               then s\<lparr>ts_local_topics := omap_del topic_name (ts_local_topics s)\<rparr> else s)
      in case map_of (ts_network_topics s) topic_name of
           None \<Rightarrow> (s, [], removed_mine)
         | Some m \<Rightarrow>
             (let m' = omap_del guid m;
                  calls = (if omap_has m guid then callObservers s topic_name m' else [])
              in (s\<lparr>ts_network_topics :=
                      (if m' = [] then omap_del topic_name (ts_network_topics s)
                       else omap_put topic_name m' (ts_network_topics s))\<rparr>,
                  calls, removed_mine)))"

fun evict_entries :: "topic_store \<Rightarrow> string \<Rightarrow> (string, guid_topic_map) omap \<Rightarrow>
    (string, guid_topic_map) omap \<times> call list" where
  "evict_entries s guid [] = ([], [])"
| "evict_entries s guid ((topic_name, m) # entries) =
     (let m' = omap_del guid m;
          calls = (if omap_has m guid then callObservers s topic_name m' else []);
          (entries', calls') = evict_entries s guid entries
      in (if m' = [] then entries' else (topic_name, m') # entries', calls @ calls'))"

definition ts_evict :: "string \<Rightarrow> topic_store \<Rightarrow> topic_store \<times> call list" where
  "ts_evict guid s =
     (let (net, calls) = evict_entries s guid (ts_network_topics s)
      in (s\<lparr>ts_network_topics := net\<rparr>, calls))"

text \<open>The reference \<open>GenerateUuid()\<close> returns is an argument.\<close>

definition ts_observe :: "string \<Rightarrow> string \<Rightarrow> nat \<Rightarrow> topic_store \<Rightarrow> topic_store \<times> string" where
  "ts_observe uuid topic_name handler s =
     (s\<lparr>ts_observers := mmap_emplace topic_name \<lparr>ob_handler = handler, ob_ref = uuid\<rparr>
          (ts_observers s)\<rparr>, uuid)"

definition ts_callImmediate :: "string \<Rightarrow> nat \<Rightarrow> topic_store \<Rightarrow> call list" where
  "ts_callImmediate topic_name handler s =
     (case map_of (ts_network_topics s) topic_name of
        None \<Rightarrow> [] | Some m \<Rightarrow> [(handler, topic_name, m)])"

definition ts_unobserve :: "string \<Rightarrow> string \<Rightarrow> topic_store \<Rightarrow> topic_store" where
  "ts_unobserve topic_name ref s =
     s\<lparr>ts_observers := filter (\<lambda>e. \<not> (fst e = topic_name \<and> ob_ref (snd e) = ref)) (ts_observers s)\<rparr>"

definition ts_getMissing :: "topic_store \<Rightarrow> string list" where
  "ts_getMissing s =
     fold (\<lambda>e topics. if omap_has (ts_network_topics s) (fst e) then topics
                      else oset_insert (fst e) topics) (ts_observers s) []"

definition ts_findLocal :: "string \<Rightarrow> topic_store \<Rightarrow> DirectoryTopic option" where
  "ts_findLocal topic_name s = map_of (ts_local_topics s) topic_name"

definition ts_hasTopic :: "string \<Rightarrow> topic_store \<Rightarrow> bool" where
  "ts_hasTopic topic_name s \<longleftrightarrow> omap_has (ts_network_topics s) topic_name"

definition ts_size :: "topic_store \<Rightarrow> nat" where
  "ts_size s = length (ts_network_topics s)"

section \<open>Invariant and abstract view\<close>

definition net_get :: "(string, guid_topic_map) omap \<Rightarrow> string \<Rightarrow> guid_topic_map" where
  "net_get net n = (case map_of net n of None \<Rightarrow> [] | Some m \<Rightarrow> m)"

abbreviation gmap :: "topic_store \<Rightarrow> string \<Rightarrow> guid_topic_map" where
  "gmap s \<equiv> net_get (ts_network_topics s)"

definition registered :: "topic_store \<Rightarrow> string \<Rightarrow> string \<Rightarrow> DirectoryTopic option" where
  "registered s n g = map_of (gmap s n) g"

definition entries_of :: "string \<Rightarrow> guid_topic_map \<Rightarrow> bool" where
  "entries_of n m \<longleftrightarrow> omap_ok m \<and> (\<forall>(g, t) \<in> set m. dt_name t = n \<and> dt_guid t = g)"

definition net_ok :: "(string, guid_topic_map) omap \<Rightarrow> bool" where
  "net_ok net \<longleftrightarrow> omap_ok net \<and> (\<forall>(n, m) \<in> set net. m \<noteq> [] \<and> entries_of n m)"

definition store_ok :: "topic_store \<Rightarrow> bool" where
  "store_ok s \<longleftrightarrow> omap_ok (ts_local_topics s) \<and> net_ok (ts_network_topics s) \<and>
     sorted (map fst (ts_observers s)) \<and>
     (\<forall>n. map_of (ts_local_topics s) n = registered s n (ts_my_guid s))"

section \<open>Updates of the two-level map\<close>

definition net_set :: "string \<Rightarrow> guid_topic_map \<Rightarrow> (string, guid_topic_map) omap \<Rightarrow>
    (string, guid_topic_map) omap" where
  "net_set n m net = (if m = [] then omap_del n net else omap_put n m net)"

lemma set_omap_put: "set (omap_put k v m) \<subseteq> insert (k, v) (set m)"
  by (induction m) auto

lemma set_omap_del: "set (omap_del k m) \<subseteq> set m"
  by (auto simp: omap_del_def)

lemma omap_put_not_Nil [simp]: "omap_put k v m \<noteq> []"
  by (cases m) auto

lemma entries_of_put: "entries_of n m \<Longrightarrow> dt_name t = n \<Longrightarrow> entries_of n (omap_put (dt_guid t) t m)"
  using set_omap_put [of "dt_guid t" t m] by (fastforce simp: entries_of_def omap_simps)

lemma entries_of_del: "entries_of n m \<Longrightarrow> entries_of n (omap_del g m)"
  using set_omap_del [of g m] by (fastforce simp: entries_of_def omap_simps)

lemma entries_of_Nil [simp]: "entries_of n []"
  by (simp add: entries_of_def)

lemma net_get_entries: "net_ok net \<Longrightarrow> entries_of n (net_get net n)"
  by (auto simp: net_ok_def net_get_def split: option.splits dest!: map_of_SomeD)

lemma net_get_None: "net_ok net \<Longrightarrow> map_of net n = None \<longleftrightarrow> net_get net n = []"
  by (auto simp: net_ok_def net_get_def split: option.splits dest!: map_of_SomeD)

lemma net_get_Some: "map_of net n = Some m \<Longrightarrow> net_get net n = m"
  by (simp add: net_get_def)

lemma net_ok_set: "net_ok net \<Longrightarrow> entries_of n m \<Longrightarrow> net_ok (net_set n m net)"
  using set_omap_put [of n m net] set_omap_del [of n net]
  by (fastforce simp: net_ok_def net_set_def omap_simps)

lemma net_get_set: "net_ok net \<Longrightarrow> net_get (net_set n m net) = (net_get net)(n := m)"
  by (auto simp: net_ok_def net_set_def net_get_def omap_simps fun_eq_iff)

lemma net_set_same:
  assumes "net_ok net" and "net_get net n = m"
  shows "net_set n m net = net"
proof (cases "map_of net n")
  case None
  with assms show ?thesis
    by (auto simp: net_set_def net_get_def net_ok_def omap.del_absent)
next
  case (Some m')
  moreover from this assms have "m' = m" "m \<noteq> []" "omap_ok net"
    using net_get_None [OF assms(1), of n] by (auto simp: net_get_def net_ok_def)
  ultimately show ?thesis by (simp add: net_set_def omap.put_same)
qed

lemma evict_entries_net:
  "fst (evict_entries s g net) = filter (\<lambda>e. snd e \<noteq> []) (map (\<lambda>(n, m). (n, omap_del g m)) net)"
  by (induction net) (auto simp: Let_def split: prod.splits)

lemma evict_entries_get:
  "omap_ok net \<Longrightarrow> net_get (fst (evict_entries s g net)) n = omap_del g (net_get net n)"
  unfolding evict_entries_net
proof (induction net)
  case (Cons e net)
  obtain k m where e: "e = (k, m)" by fastforce
  let ?f = "\<lambda>net. filter (\<lambda>e. snd e \<noteq> []) (map (\<lambda>(n, m). (n, omap_del g m)) net)"
  have "k \<notin> fst ` set (?f net)" using Cons.prems e by (auto simp: omap_ok_def)
  then have "map_of (?f net) k = None" by (simp add: map_of_eq_None_iff)
  with Cons e show ?case by (auto simp: net_get_def)
qed (simp add: net_get_def omap_del_def)

lemma net_ok_evict:
  assumes "net_ok net"
  shows "net_ok (fst (evict_entries s g net))"
proof -
  have "omap_ok (map (\<lambda>(n, m). (n, omap_del g m)) net)"
    using assms by (simp add: net_ok_def omap_ok_def comp_def case_prod_unfold)
  then have "omap_ok (filter (\<lambda>e. snd e \<noteq> []) (map (\<lambda>(n, m). (n, omap_del g m)) net))"
    by (simp add: omap_ok_def sorted_wrt_map sorted_wrt_filter)
  with assms show ?thesis
    unfolding evict_entries_net by (auto simp: net_ok_def entries_of_del)
qed

lemma evict_entries_calls:
  "snd (evict_entries s g net) = concat (map (\<lambda>(n, m).
     if omap_has m g then callObservers s n (omap_del g m) else []) net)"
  by (induction net) (auto simp: Let_def split: prod.splits)

lemma callObservers_local [simp]:
  "callObservers (s\<lparr>ts_local_topics := l\<rparr>) = callObservers s"
  "callObservers (s\<lparr>ts_network_topics := net\<rparr>) = callObservers s"
  by (simp_all add: callObservers_def fun_eq_iff)

section \<open>The operations on a well-formed store\<close>

definition unchanged :: "DirectoryTopic \<Rightarrow> topic_store \<Rightarrow> bool" where
  "unchanged t s \<longleftrightarrow> (\<exists>old. registered s (dt_name t) (dt_guid t) = Some old \<and>
     dt_address old = dt_address t)"

definition local_add :: "DirectoryTopic \<Rightarrow> topic_store \<Rightarrow> topic_store" where
  "local_add t s = (if dt_guid t = ts_my_guid s
     then s\<lparr>ts_local_topics := omap_put (dt_name t) t (ts_local_topics s)\<rparr> else s)"

lemma ts_add_cases:
  assumes "store_ok s"
  shows "ts_add t s =
    (let m = omap_put (dt_guid t) t (gmap s (dt_name t)) in
     if dt_guid t = ts_my_guid s \<and> omap_has (ts_local_topics s) (dt_name t)
     then Inl (Runtime_Error (''Duplicate topic: '' @ dt_name t))
     else if unchanged t s then Inr (local_add t s, [], dt_guid t = ts_my_guid s)
     else Inr ((local_add t s)\<lparr>ts_network_topics := net_set (dt_name t) m (ts_network_topics s)\<rparr>,
               callObservers s (dt_name t) m, dt_guid t = ts_my_guid s))"
  by (cases "map_of (ts_network_topics s) (dt_name t)")
    (auto simp: ts_add_def local_add_def unchanged_def registered_def net_get_def net_set_def Let_def
      split: option.splits)

definition local_remove :: "string \<Rightarrow> string \<Rightarrow> topic_store \<Rightarrow> topic_store" where
  "local_remove g n s = (if g = ts_my_guid s
     then s\<lparr>ts_local_topics := omap_del n (ts_local_topics s)\<rparr> else s)"

lemma ts_remove_cases:
  assumes "store_ok s"
  shows "ts_remove g n s =
    (let m = omap_del g (gmap s n) in
     ((local_remove g n s)\<lparr>ts_network_topics := net_set n m (ts_network_topics s)\<rparr>,
      if registered s n g = None then [] else callObservers s n m,
      g = ts_my_guid s \<and> omap_has (ts_local_topics s) n))"
proof (cases "map_of (ts_network_topics s) n")
  case None
  then have "net_get (ts_network_topics s) n = []" by (simp add: net_get_def)
  moreover have "net_set n [] (ts_network_topics s) = ts_network_topics s"
    using assms calculation by (intro net_set_same) (auto simp: store_ok_def)
  ultimately show ?thesis
    using None by (simp add: ts_remove_def local_remove_def registered_def Let_def omap_del_def)
next
  case (Some m)
  then show ?thesis
    by (auto simp: ts_remove_def local_remove_def registered_def net_get_def net_set_def Let_def
      dest: map_of_SomeD)
qed

section \<open>What the directory relies on\<close>

text \<open>The three changes a discovery packet can make, by the guid of the node that sent it.\<close>

datatype reg_op = Op_Add DirectoryTopic | Op_Remove string string | Op_Evict string

fun op_guid :: "reg_op \<Rightarrow> string" where
  "op_guid (Op_Add t) = dt_guid t"
| "op_guid (Op_Remove g n) = g"
| "op_guid (Op_Evict g) = g"

fun ts_apply :: "reg_op \<Rightarrow> topic_store \<Rightarrow> (topic_store \<times> call list) result" where
  "ts_apply (Op_Add t) s = and_then (ts_add t s) (\<lambda>(s', calls, _). Inr (s', calls))"
| "ts_apply (Op_Remove g n) s = (let (s', calls, _) = ts_remove g n s in Inr (s', calls))"
| "ts_apply (Op_Evict g) s = Inr (ts_evict g s)"

text \<open>What the operation does to the topics of one node.\<close>

fun view_op :: "reg_op \<Rightarrow> (string \<Rightarrow> DirectoryTopic option) \<Rightarrow> string \<Rightarrow> DirectoryTopic option" where
  "view_op (Op_Add t) v =
     (case v (dt_name t) of
        Some old \<Rightarrow> if dt_address old = dt_address t then v else v(dt_name t \<mapsto> t)
      | None \<Rightarrow> v(dt_name t \<mapsto> t))"
| "view_op (Op_Remove g n) v = v(n := None)"
| "view_op (Op_Evict g) v = (\<lambda>_. None)"

text \<open>The last map a handler was given for a topic.\<close>

definition seen :: "nat \<Rightarrow> string \<Rightarrow> call list \<Rightarrow> guid_topic_map \<Rightarrow> guid_topic_map" where
  "seen h n calls m = fold (\<lambda>(h', n', m') acc. if h' = h \<and> n' = n then m' else acc) calls m"

lemma seen_Nil [simp]: "seen h n [] m = m"
  by (simp add: seen_def)

lemma seen_append: "seen h n (cs @ cs') m = seen h n cs' (seen h n cs m)"
  by (simp add: seen_def)

locale topic_registry =
  fixes apply_op :: "reg_op \<Rightarrow> 's \<Rightarrow> ('s \<times> call list) result"
    and me :: "'s \<Rightarrow> string"
    and view :: "'s \<Rightarrow> string \<Rightarrow> string \<Rightarrow> DirectoryTopic option"
    and topics :: "'s \<Rightarrow> string \<Rightarrow> guid_topic_map"
    and watches :: "'s \<Rightarrow> nat \<Rightarrow> string \<Rightarrow> bool"
    and ok :: "'s \<Rightarrow> bool"
  assumes peer_succeeds: "ok s \<Longrightarrow> op_guid op \<noteq> me s \<Longrightarrow> \<exists>s' cs. apply_op op s = Inr (s', cs)"
    and me_kept: "ok s \<Longrightarrow> apply_op op s = Inr (s', cs) \<Longrightarrow> me s' = me s"
    and ok_kept: "ok s \<Longrightarrow> op_guid op \<noteq> me s \<Longrightarrow> apply_op op s = Inr (s', cs) \<Longrightarrow> ok s'"
    and view_kept: "ok s \<Longrightarrow> apply_op op s = Inr (s', cs) \<Longrightarrow> g \<noteq> op_guid op \<Longrightarrow>
      view s' n g = view s n g"
    and view_changed: "ok s \<Longrightarrow> apply_op op s = Inr (s', cs) \<Longrightarrow>
      (\<lambda>n. view s' n (op_guid op)) = view_op op (\<lambda>n. view s n (op_guid op))"
    and notified: "ok s \<Longrightarrow> apply_op op s = Inr (s', cs) \<Longrightarrow> watches s h n \<Longrightarrow>
      seen h n cs (topics s n) = topics s' n"
    and watches_kept: "ok s \<Longrightarrow> apply_op op s = Inr (s', cs) \<Longrightarrow> watches s' = watches s"
begin

primrec run_ops :: "reg_op list \<Rightarrow> 's \<Rightarrow> ('s \<times> call list) result" where
  "run_ops [] s = Inr (s, [])"
| "run_ops (op # ops) s =
     and_then (apply_op op s) (\<lambda>(s', cs). and_then (run_ops ops s') (\<lambda>(s'', cs'). Inr (s'', cs @ cs')))"

lemma run_ops_peers:
  "ok s \<Longrightarrow> me s \<notin> op_guid ` set ops \<Longrightarrow>
     \<exists>s' cs. run_ops ops s = Inr (s', cs) \<and> ok s' \<and> me s' = me s"
proof (induction ops arbitrary: s)
  case (Cons op ops)
  then obtain s1 cs where s1: "apply_op op s = Inr (s1, cs)"
    using peer_succeeds [of s op] by auto
  with Cons have "ok s1" and "me s1 = me s"
    using ok_kept [of s op] me_kept [of s op] by auto
  moreover from this Cons.prems obtain s2 cs2 where "run_ops ops s1 = Inr (s2, cs2)" "ok s2" "me s2 = me s1"
    using Cons.IH [of s1] by auto
  ultimately show ?case using s1 by simp
qed simp

lemma run_ops_view:
  "ok s \<Longrightarrow> me s \<notin> op_guid ` set ops \<Longrightarrow> run_ops ops s = Inr (s', cs) \<Longrightarrow>
     (\<lambda>n. view s' n g) = fold view_op (filter (\<lambda>op. op_guid op = g) ops) (\<lambda>n. view s n g)"
proof (induction ops arbitrary: s cs)
  case (Cons op ops)
  then obtain s1 cs1 cs2 where s1: "apply_op op s = Inr (s1, cs1)" "run_ops ops s1 = Inr (s', cs2)"
    by auto
  with Cons.prems have "ok s1" and "me s1 = me s"
    using ok_kept [of s op] me_kept [of s op] by auto
  with Cons s1 have ih: "(\<lambda>n. view s' n g)
      = fold view_op (filter (\<lambda>op. op_guid op = g) ops) (\<lambda>n. view s1 n g)" by auto
  show ?case
  proof (cases "op_guid op = g")
    case True
    with ih view_changed [OF Cons.prems(1) s1(1)] show ?thesis by auto
  next
    case False
    then have "(\<lambda>n. view s1 n g) = (\<lambda>n. view s n g)"
      using view_kept [OF Cons.prems(1) s1(1)] by (auto simp: fun_eq_iff)
    with ih False show ?thesis by simp
  qed
qed simp

lemma run_ops_order:
  assumes "ok s" and "me s \<notin> op_guid ` set ops" and "me s \<notin> op_guid ` set ops'"
    and "\<And>g. filter (\<lambda>op. op_guid op = g) ops = filter (\<lambda>op. op_guid op = g) ops'"
    and "run_ops ops s = Inr (s1, cs1)" and "run_ops ops' s = Inr (s2, cs2)"
  shows "view s1 = view s2"
proof -
  have "(\<lambda>n. view s1 n g) = (\<lambda>n. view s2 n g)" for g
    using run_ops_view [OF assms(1,2,5)] run_ops_view [OF assms(1,3,6)] assms(4) by simp
  then show ?thesis by (auto simp: fun_eq_iff)
qed

lemma run_ops_mirror:
  "ok s \<Longrightarrow> me s \<notin> op_guid ` set ops \<Longrightarrow> run_ops ops s = Inr (s', cs) \<Longrightarrow> watches s h n \<Longrightarrow>
     seen h n cs (topics s n) = topics s' n"
proof (induction ops arbitrary: s cs)
  case Nil
  then show ?case by (simp add: seen_def)
next
  case (Cons op ops)
  then obtain s1 cs1 cs2 where s1: "apply_op op s = Inr (s1, cs1)" "run_ops ops s1 = Inr (s', cs2)"
    and cs: "cs = cs1 @ cs2" by auto
  with Cons.prems have "ok s1" and "me s1 = me s" and "watches s1 h n"
    using ok_kept [of s op] me_kept [of s op] watches_kept [of s op] by auto
  with Cons s1 show ?case
    using notified [OF Cons.prems(1) s1(1)] by (auto simp: cs seen_append)
qed

end

section \<open>The store provides it\<close>

definition watched :: "topic_store \<Rightarrow> nat \<Rightarrow> string \<Rightarrow> bool" where
  "watched s h n \<longleftrightarrow> h \<in> (\<lambda>e. ob_handler (snd e)) ` set (equal_range n (ts_observers s))"

lemma seen_other: "\<forall>(h', n', m') \<in> set cs. n' \<noteq> n \<Longrightarrow> seen h n cs m = m"
  by (induction cs arbitrary: m) (auto simp: seen_def)

lemma seen_all:
  "\<forall>(h', n', m') \<in> set cs. n' = n \<and> m' = m \<Longrightarrow> h \<in> fst ` set cs \<Longrightarrow> seen h n cs m0 = m"
proof (induction cs rule: rev_induct)
  case (snoc c cs)
  then show ?case by (cases c; cases "h = fst c") (auto simp: seen_def)
qed simp

lemma callObservers_entries: "\<forall>(h, n', m') \<in> set (callObservers s n m). n' = n \<and> m' = m"
  by (auto simp: callObservers_def)

lemma seen_callObservers_same:
  assumes "watched s h n"
  shows "seen h n (callObservers s n m) m0 = m"
proof (rule seen_all [OF callObservers_entries])
  show "h \<in> fst ` set (callObservers s n m)"
    using assms by (force simp: callObservers_def watched_def Let_def)
qed

lemma seen_callObservers_other: "n' \<noteq> n \<Longrightarrow> seen h n (callObservers s n' m) m0 = m0"
  using callObservers_entries [of s n' m] by (intro seen_other) auto

lemmas seen_callObservers = seen_callObservers_same seen_callObservers_other

lemma store_okD:
  assumes "store_ok s"
  shows "net_ok (ts_network_topics s)" "omap_ok (ts_local_topics s)" "omap_ok (gmap s n)"
    "entries_of n (gmap s n)" "map_of (ts_local_topics s) n = registered s n (ts_my_guid s)"
    "sorted (map fst (ts_observers s))"
proof -
  show net: "net_ok (ts_network_topics s)" using assms by (simp add: store_ok_def)
  show "entries_of n (gmap s n)" by (rule net_get_entries [OF net])
  then show "omap_ok (gmap s n)" by (simp add: entries_of_def)
qed (use assms in \<open>auto simp: store_ok_def\<close>)

lemma ts_add_result:
  assumes "store_ok s" and "ts_add t s = Inr (s', cs, mine)"
  shows "gmap s' = (if unchanged t s then gmap s
      else (gmap s)(dt_name t := omap_put (dt_guid t) t (gmap s (dt_name t))))"
    and "cs = (if unchanged t s then [] else callObservers s (dt_name t) (gmap s' (dt_name t)))"
    and "ts_my_guid s' = ts_my_guid s" and "ts_observers s' = ts_observers s"
    and "mine \<longleftrightarrow> dt_guid t = ts_my_guid s"
    and "ts_local_topics s' = (if mine then omap_put (dt_name t) t (ts_local_topics s)
      else ts_local_topics s)"
  using assms(2) unfolding ts_add_cases [OF assms(1)]
  by (auto simp: local_add_def Let_def net_get_set store_okD(1) [OF assms(1)] split: if_splits)

lemma ts_add_ok:
  assumes "store_ok s" and "ts_add t s = Inr (s', cs, mine)"
  shows "store_ok s'"
proof -
  note r = ts_add_result [OF assms]
  have "entries_of (dt_name t) (omap_put (dt_guid t) t (gmap s (dt_name t)))"
    by (simp add: entries_of_put store_okD [OF assms(1)])
  note net_set_ok = net_ok_set [OF store_okD(1) [OF assms(1)] this]
  have "ts_network_topics s' \<in> {ts_network_topics s, net_set (dt_name t)
      (omap_put (dt_guid t) t (gmap s (dt_name t))) (ts_network_topics s)}"
    using assms(2) unfolding ts_add_cases [OF assms(1)]
    by (auto simp: local_add_def Let_def split: if_splits)
  then have net: "net_ok (ts_network_topics s')"
    using net_set_ok store_okD(1) [OF assms(1)] by auto
  have "\<not> (mine \<and> unchanged t s)"
    using assms(2) r(5) unfolding ts_add_cases [OF assms(1)]
    by (auto simp: store_okD(5) [OF assms(1)] unchanged_def Let_def split: if_splits)
  then have "map_of (ts_local_topics s') n = registered s' n (ts_my_guid s')" for n
    using r by (auto simp: registered_def omap_simps store_okD [OF assms(1)]
      store_okD(5) [OF assms(1), unfolded registered_def])
  with net r show ?thesis
    by (auto simp: store_ok_def omap_simps store_okD [OF assms(1)])
qed

lemma ts_remove_result:
  assumes "store_ok s" and "ts_remove g n s = (s', cs, mine)"
  shows "gmap s' = (gmap s)(n := omap_del g (gmap s n))"
    and "cs = (if registered s n g = None then [] else callObservers s n (gmap s' n))"
    and "ts_my_guid s' = ts_my_guid s" and "ts_observers s' = ts_observers s"
    and "mine \<longleftrightarrow> g = ts_my_guid s \<and> omap_has (ts_local_topics s) n"
    and "ts_local_topics s' = (if g = ts_my_guid s then omap_del n (ts_local_topics s)
      else ts_local_topics s)"
  using assms(2) unfolding ts_remove_cases [OF assms(1)]
  by (auto simp: local_remove_def Let_def net_get_set store_okD(1) [OF assms(1)] split: if_splits)

lemma ts_remove_ok:
  assumes "store_ok s" and "ts_remove g n s = (s', cs, mine)"
  shows "store_ok s'"
proof -
  note r = ts_remove_result [OF assms]
  have "ts_network_topics s' = net_set n (omap_del g (gmap s n)) (ts_network_topics s)"
    using assms(2) unfolding ts_remove_cases [OF assms(1)] by (auto simp: local_remove_def Let_def)
  then have net: "net_ok (ts_network_topics s')"
    by (simp add: store_okD [OF assms(1)] net_ok_set entries_of_del)
  moreover have "map_of (ts_local_topics s') k = registered s' k (ts_my_guid s')" for k
    using r by (auto simp: registered_def omap_simps store_okD [OF assms(1)]
      store_okD(5) [OF assms(1), unfolded registered_def])
  ultimately show ?thesis
    using r by (auto simp: store_ok_def omap_simps store_okD [OF assms(1)])
qed

lemma ts_evict_result:
  assumes "store_ok s" and "ts_evict g s = (s', cs)"
  shows "gmap s' = (\<lambda>n. omap_del g (gmap s n))"
    and "cs = concat (map (\<lambda>(n, m). if omap_has m g then callObservers s n (omap_del g m) else [])
      (ts_network_topics s))"
    and "ts_my_guid s' = ts_my_guid s" and "ts_observers s' = ts_observers s"
    and "ts_local_topics s' = ts_local_topics s" and "net_ok (ts_network_topics s')"
proof -
  have s': "s' = s\<lparr>ts_network_topics := fst (evict_entries s g (ts_network_topics s))\<rparr>"
    and cs: "cs = snd (evict_entries s g (ts_network_topics s))"
    using assms(2) by (auto simp: ts_evict_def split: prod.splits)
  have net: "net_ok (ts_network_topics s)" by (rule store_okD [OF assms(1)])
  then show "net_ok (ts_network_topics s')" by (simp add: s' net_ok_evict)
  from net show "gmap s' = (\<lambda>n. omap_del g (gmap s n))"
    by (auto simp: s' evict_entries_get net_ok_def)
  show "cs = concat (map (\<lambda>(n, m). if omap_has m g then callObservers s n (omap_del g m) else [])
      (ts_network_topics s))" unfolding cs by (rule evict_entries_calls)
  show "ts_my_guid s' = ts_my_guid s" "ts_observers s' = ts_observers s"
    "ts_local_topics s' = ts_local_topics s" by (simp_all add: s')
qed

lemma ts_evict_ok:
  assumes "store_ok s" and "ts_evict g s = (s', cs)" and "g \<noteq> ts_my_guid s"
  shows "store_ok s'"
  using ts_evict_result [OF assms(1,2)] store_okD [OF assms(1)] assms(3)
  by (auto simp: store_ok_def registered_def omap_simps)

lemma seen_concat:
  assumes "omap_ok net" and "watched s h n"
  shows "seen h n (concat (map (\<lambda>(n, m). if omap_has m g then callObservers s n (omap_del g m)
      else []) net)) (net_get net n) = omap_del g (net_get net n)"
  using assms(1)
proof (induction net)
  case Nil
  then show ?case by (simp add: seen_def net_get_def omap_del_def)
next
  case (Cons e net)
  let ?c = "\<lambda>net. concat (map (\<lambda>(n, m). if omap_has m g then callObservers s n (omap_del g m)
      else []) net)"
  obtain k m where e: "e = (k, m)" by fastforce
  show ?case
  proof (cases "k = n")
    case True
    then have "n \<notin> fst ` set net" using Cons.prems e by auto
    then have rest: "seen h n (?c net) x = x" for x
      by (intro seen_other) (force dest: bspec [OF callObservers_entries] split: if_splits)
    have "omap_del g m = m" if "map_of m g = None"
      using that by (force simp: omap_del_def map_of_eq_None_iff filter_id_conv)
    with True rest show ?thesis
      using assms(2) by (auto simp: e seen_append net_get_def seen_callObservers)
  next
    case False
    then have "net_get (e # net) n = net_get net n" by (simp add: net_get_def e)
    with False Cons show ?thesis by (simp add: e seen_append seen_callObservers)
  qed
qed

lemma ts_apply_ok:
  assumes "store_ok s" and "op_guid op \<noteq> ts_my_guid s" and "ts_apply op s = Inr (s', cs)"
  shows "store_ok s'"
  using assms
  by (cases op) (auto simp: ts_evict_ok split: prod.splits intro: ts_add_ok ts_remove_ok)

lemma ts_apply_fixed:
  assumes "store_ok s" and "ts_apply op s = Inr (s', cs)"
  shows "ts_my_guid s' = ts_my_guid s" and "ts_observers s' = ts_observers s"
proof -
  have "ts_my_guid s' = ts_my_guid s \<and> ts_observers s' = ts_observers s"
    using assms by (cases op) (auto dest: ts_add_result ts_remove_result ts_evict_result
      split: prod.splits)
  then show "ts_my_guid s' = ts_my_guid s" and "ts_observers s' = ts_observers s" by auto
qed

lemma ts_apply_view:
  assumes "store_ok s" and "ts_apply op s = Inr (s', cs)"
  shows "registered s' n g = (if g = op_guid op then view_op op (\<lambda>n. registered s n g) n
    else registered s n g)"
proof (cases op)
  case (Op_Add t)
  with assms(2) obtain mine where "ts_add t s = Inr (s', cs, mine)" by (auto split: prod.splits)
  from ts_add_result(1) [OF assms(1) this] show ?thesis
    by (auto simp: Op_Add registered_def unchanged_def omap_simps store_okD(3) [OF assms(1)]
      split: option.splits if_splits)
next
  case (Op_Remove g' n')
  with assms(2) obtain mine where "ts_remove g' n' s = (s', cs, mine)" by (auto split: prod.splits)
  from ts_remove_result(1) [OF assms(1) this] show ?thesis
    by (auto simp: Op_Remove registered_def omap_simps)
next
  case (Op_Evict g')
  with assms(2) have "ts_evict g' s = (s', cs)" by simp
  from ts_evict_result(1) [OF assms(1) this] show ?thesis
    by (auto simp: Op_Evict registered_def omap_simps)
qed

lemma ts_apply_notifies:
  assumes "store_ok s" and "ts_apply op s = Inr (s', cs)" and "watched s h n"
  shows "seen h n cs (gmap s n) = gmap s' n"
proof (cases op)
  case (Op_Add t)
  with assms(2) obtain mine where "ts_add t s = Inr (s', cs, mine)" by (auto split: prod.splits)
  from ts_add_result(1,2) [OF assms(1) this] assms(3) show ?thesis
    by (cases "dt_name t = n") (auto simp: seen_callObservers)
next
  case (Op_Remove g' n')
  with assms(2) obtain mine where r: "ts_remove g' n' s = (s', cs, mine)" by (auto split: prod.splits)
  have "omap_del g' (gmap s n') = gmap s n'" if "registered s n' g' = None"
    using that omap.del_absent [OF store_okD(3) [OF assms(1)]] by (simp add: registered_def)
  with ts_remove_result(1,2) [OF assms(1) r] assms(3) show ?thesis
    by (cases "n' = n") (auto simp: seen_callObservers)
next
  case (Op_Evict g')
  with assms(2) have "ts_evict g' s = (s', cs)" by simp
  from ts_evict_result(1,2) [OF assms(1) this] show ?thesis
    using seen_concat [OF _ assms(3)] store_okD(1) [OF assms(1)] by (simp add: net_ok_def)
qed

interpretation store: topic_registry ts_apply ts_my_guid registered gmap watched store_ok
proof unfold_locales
  show "\<exists>s' cs. ts_apply op s = Inr (s', cs)" if "store_ok s" "op_guid op \<noteq> ts_my_guid s" for s op
    using that by (cases op) (auto simp: ts_add_cases Let_def split: prod.splits)
  show "(\<lambda>n. registered s' n (op_guid op)) = view_op op (\<lambda>n. registered s n (op_guid op))"
    if "store_ok s" "ts_apply op s = Inr (s', cs)" for s op s' cs
    using ts_apply_view [OF that] by (auto simp: fun_eq_iff)
qed (auto simp: ts_apply_view ts_apply_notifies ts_apply_fixed watched_def fun_eq_iff
  intro: ts_apply_ok)

section \<open>Further facts\<close>

lemma store_ok_empty [simp]: "store_ok (DirectoryTopicStore g)"
  by (simp add: store_ok_def DirectoryTopicStore_def net_ok_def registered_def net_get_def)

lemma ts_observe_ok: "store_ok s \<Longrightarrow> store_ok (fst (ts_observe uuid n h s))"
  by (simp add: store_ok_def ts_observe_def sorted_mmap_emplace registered_def)

lemma ts_unobserve_ok: "store_ok s \<Longrightarrow> store_ok (ts_unobserve n ref s)"
  by (simp add: store_ok_def ts_unobserve_def registered_def sorted_map sorted_wrt_filter)

lemma hasTopic_iff:
  assumes "store_ok s"
  shows "ts_hasTopic n s \<longleftrightarrow> (\<exists>g. registered s n g \<noteq> None)"
proof -
  have "ts_hasTopic n s \<longleftrightarrow> gmap s n \<noteq> []"
    using net_get_None [OF store_okD(1) [OF assms], of n] by (simp add: ts_hasTopic_def)
  also have "\<dots> \<longleftrightarrow> (\<exists>g. registered s n g \<noteq> None)"
    using omap.empty_iff [OF store_okD(3) [OF assms], of n] by (auto simp: registered_def)
  finally show ?thesis .
qed

lemma fold_oset_insert:
  "set (fold (\<lambda>e topics. if P e then topics else oset_insert (f e) topics) es acc)
     = set acc \<union> f ` {e \<in> set es. \<not> P e}"
  "sorted acc \<Longrightarrow> distinct acc \<Longrightarrow>
     sorted (fold (\<lambda>e topics. if P e then topics else oset_insert (f e) topics) es acc) \<and>
     distinct (fold (\<lambda>e topics. if P e then topics else oset_insert (f e) topics) es acc)"
  by (induction es arbitrary: acc)
    (auto simp: set_insort_insert sorted_insort_insert distinct_insort_insert)

lemma getMissing_set:
  "set (ts_getMissing s) = {n. n \<in> fst ` set (ts_observers s) \<and> \<not> ts_hasTopic n s}"
  by (auto simp: ts_getMissing_def fold_oset_insert ts_hasTopic_def)

lemma getMissing_sorted: "sorted (ts_getMissing s)" "distinct (ts_getMissing s)"
  unfolding ts_getMissing_def by (simp_all add: fold_oset_insert(2))

section \<open>Properties\<close>



text \<open>
  An observer of a topic that starts from the current map of that topic and remembers the last
  map it was called with knows, after any sequence of changes by other nodes, exactly the nodes
  that offer the topic now.
\<close>

theorem observer_sees_current_topics:
  assumes "store_ok s" and "ts_my_guid s \<notin> op_guid ` set ops" and "watched s h n"
    and "store.run_ops ops s = Inr (s', calls)"
  shows "seen h n calls (gmap s n) = gmap s' n"
  by (rule store.run_ops_mirror [OF assms(1,2,4,3)])

theorem observer_sees_current_topics_witness:
  "\<exists>s' calls. store.run_ops [Op_Evict ''a''] (fst (ts_observe ''u'' ''t'' 7 (DirectoryTopicStore ''me'')))
       = Inr (s', calls) \<and>
     seen 7 ''t'' calls [] = gmap s' ''t''"
proof -
  let ?s = "fst (ts_observe ''u'' ''t'' 7 (DirectoryTopicStore ''me''))"
  have ok: "store_ok ?s" by (rule ts_observe_ok [OF store_ok_empty])
  have g: "ts_my_guid ?s \<notin> op_guid ` set [Op_Evict ''a'']" and e: "gmap ?s ''t'' = []"
    and w: "watched ?s 7 ''t''"
    by (auto simp: ts_observe_def DirectoryTopicStore_def net_get_def watched_def mmap_emplace_def
      equal_range_def)
  obtain s' calls where r: "store.run_ops [Op_Evict ''a''] ?s = Inr (s', calls)"
    using store.run_ops_peers [OF ok g] by blast
  with observer_sees_current_topics [OF ok g w r] e show ?thesis by auto
qed

lemma ts_add_own:
  assumes "store_ok s" and "dt_guid t = ts_my_guid s" and add: "ts_add t s = Inr (s', cs, mine)"
  shows "mine \<and> store_ok s' \<and> ts_findLocal (dt_name t) s' = Some t \<and>
    registered s' = (\<lambda>n g. if n = dt_name t \<and> g = dt_guid t then Some t else registered s n g) \<and>
    fst (ts_remove (dt_guid t) (dt_name t) s') = s"
proof -
  note r = ts_add_result [OF assms(1) add] and ok' = ts_add_ok [OF assms(1) add]
  have fresh: "map_of (ts_local_topics s) (dt_name t) = None"
    using add assms(2) unfolding ts_add_cases [OF assms(1)] by (auto simp: Let_def split: if_splits)
  then have new: "map_of (gmap s (dt_name t)) (dt_guid t) = None" and "\<not> unchanged t s"
    using store_okD(5) [OF assms(1)] assms(2) by (auto simp: registered_def unchanged_def)
  note r = r [unfolded if_not_P [OF this(2)]]
  obtain s'' cs'' m'' where rem: "ts_remove (dt_guid t) (dt_name t) s' = (s'', cs'', m'')"
    using prod_cases3 by blast
  note r' = ts_remove_result [OF ok' rem] and ok'' = ts_remove_ok [OF ok' rem]
  have "gmap s'' = gmap s"
    using r(1) r'(1) omap.del_put_fresh [OF store_okD(3) [OF assms(1)] new] by auto
  then have "map_of (ts_network_topics s'') = map_of (ts_network_topics s)"
    using net_get_None [OF store_okD(1) [OF ok'']] net_get_None [OF store_okD(1) [OF assms(1)]]
    by (metis net_get_Some not_Some_eq ext)
  then have "ts_network_topics s'' = ts_network_topics s"
    using store_okD(1) [OF ok''] store_okD(1) [OF assms(1)] by (intro omap_ext) (auto simp: net_ok_def)
  moreover have "ts_local_topics s'' = ts_local_topics s"
    using r r' assms omap.del_put_fresh [OF store_okD(2) [OF assms(1)] fresh] by simp
  ultimately have "s'' = s" using r r' by simp
  then show ?thesis
    using r ok' rem assms store_okD [OF assms(1)]
    by (auto simp: ts_findLocal_def registered_def omap_simps fun_eq_iff)
qed

text \<open>
  Registering a topic of one's own fails exactly when the node already offers that name;
  otherwise the topic can be found locally and on the network, every other registration stays
  as it was, and removing the topic again restores the store.
\<close>

theorem own_topic_add_remove:
  assumes "store_ok s" and "dt_guid t = ts_my_guid s"
  shows "(isl (ts_add t s) \<longleftrightarrow> ts_findLocal (dt_name t) s \<noteq> None) \<and>
    (ts_add t s = Inr (s', cs, mine) \<longrightarrow>
      mine \<and> store_ok s' \<and> ts_findLocal (dt_name t) s' = Some t \<and>
      registered s' = (\<lambda>n g. if n = dt_name t \<and> g = dt_guid t then Some t else registered s n g) \<and>
      fst (ts_remove (dt_guid t) (dt_name t) s') = s)"
proof (intro conjI impI)
  show "isl (ts_add t s) \<longleftrightarrow> ts_findLocal (dt_name t) s \<noteq> None"
    using assms by (simp add: ts_add_cases ts_findLocal_def Let_def)
qed (use ts_add_own [OF assms] in blast)+

definition example_topic :: DirectoryTopic where
  "example_topic =
     \<lparr>dt_name = ''node/pose'', dt_timestamp = 10, dt_socketType = 1, dt_address = ''tcp://10.0.0.7:40404'',
      dt_inputTypes = [], dt_outputTypes = [''42''], dt_guid = ''me'',
      dt_info = ''node/pose PUB tcp://10.0.0.7:40404 . 42''\<rparr>"

theorem own_topic_add_remove_witness:
  "\<exists>s' cs. ts_add example_topic (DirectoryTopicStore ''me'') = Inr (s', cs, True) \<and>
     fst (ts_remove ''me'' ''node/pose'' s') = DirectoryTopicStore ''me''"
proof -
  have "dt_guid example_topic = ts_my_guid (DirectoryTopicStore ''me'')"
    by (simp add: example_topic_def DirectoryTopicStore_def)
  note own = own_topic_add_remove [OF store_ok_empty this]
  have "ts_findLocal (dt_name example_topic) (DirectoryTopicStore ''me'') = None"
    by (simp add: ts_findLocal_def DirectoryTopicStore_def)
  with own [THEN conjunct1] obtain r where "ts_add example_topic (DirectoryTopicStore ''me'') = Inr r"
    by (cases "ts_add example_topic (DirectoryTopicStore ''me'')") auto
  with own [THEN conjunct2] show ?thesis by (cases r) (auto simp: example_topic_def)
qed

text \<open>
  \<open>getMissing\<close> lists, in order and without repetition, exactly the observed names that no node
  offers; evicting a node removes all its topics and only those, and a name disappears from the
  store exactly when its last provider does.
\<close>

theorem missing_and_evicted:
  assumes "store_ok s" and "ts_evict g s = (s', cs)"
  shows "set (ts_getMissing s) =
      {n. n \<in> fst ` set (ts_observers s) \<and> (\<forall>g. registered s n g = None)} \<and>
    sorted (ts_getMissing s) \<and> distinct (ts_getMissing s) \<and>
    registered s' n g' = (if g' = g then None else registered s n g') \<and>
    (ts_hasTopic n s' \<longleftrightarrow> (\<exists>g'. g' \<noteq> g \<and> registered s n g' \<noteq> None))"
proof (intro conjI)
  show "set (ts_getMissing s) =
      {n. n \<in> fst ` set (ts_observers s) \<and> (\<forall>g. registered s n g = None)}"
    using hasTopic_iff [OF assms(1)] by (auto simp: getMissing_set)
  show "sorted (ts_getMissing s)" "distinct (ts_getMissing s)" by (rule getMissing_sorted)+
  have reg: "registered s' k h = (if h = g then None else registered s k h)" for k h
    using ts_evict_result(1) [OF assms] by (auto simp: registered_def omap_simps)
  then show "registered s' n g' = (if g' = g then None else registered s n g')" .
  have "gmap s' n \<noteq> [] \<longleftrightarrow> (\<exists>h. registered s' n h \<noteq> None)"
    using omap.empty_iff [of "gmap s' n"] ts_evict_result(1) [OF assms] store_okD(3) [OF assms(1)]
    by (auto simp: registered_def omap_ok_del)
  moreover have "ts_hasTopic n s' \<longleftrightarrow> gmap s' n \<noteq> []"
    using net_get_None [OF ts_evict_result(6) [OF assms], of n] by (simp add: ts_hasTopic_def)
  ultimately show "ts_hasTopic n s' \<longleftrightarrow> (\<exists>g'. g' \<noteq> g \<and> registered s n g' \<noteq> None)"
    by (auto simp: reg)
qed

theorem missing_and_evicted_witness:
  "registered (fst (ts_evict ''a'' (DirectoryTopicStore ''me''))) ''t'' ''a'' = None"
proof -
  obtain s' cs where e: "ts_evict ''a'' (DirectoryTopicStore ''me'') = (s', cs)" by fastforce
  from missing_and_evicted [OF store_ok_empty e, of "''t''" "''a''"] e show ?thesis by simp
qed

section \<open>Well-formedness\<close>

lemma omap_ok_keys: "omap_ok m \<Longrightarrow> sorted (map fst m) \<and> distinct (map fst m)"
  by (simp add: omap_ok_def strict_sorted_iff)

text \<open>All calls that change a store; a call that throws leaves it as it was.\<close>

datatype store_call =
    Call_Add DirectoryTopic
  | Call_Remove string string
  | Call_Evict string
  | Call_Observe string string nat
  | Call_Unobserve string string

fun ts_call :: "store_call \<Rightarrow> topic_store \<Rightarrow> topic_store" where
  "ts_call (Call_Add t) s = (case ts_add t s of Inl e \<Rightarrow> s | Inr (s', cs, mine) \<Rightarrow> s')"
| "ts_call (Call_Remove g n) s = fst (ts_remove g n s)"
| "ts_call (Call_Evict g) s = fst (ts_evict g s)"
| "ts_call (Call_Observe uuid n h) s = fst (ts_observe uuid n h s)"
| "ts_call (Call_Unobserve n ref) s = ts_unobserve n ref s"

lemma ts_call_ok:
  assumes "store_ok s" and "\<And>g. c = Call_Evict g \<Longrightarrow> g \<noteq> ts_my_guid s"
  shows "store_ok (ts_call c s) \<and> ts_my_guid (ts_call c s) = ts_my_guid s"
proof (cases c)
  case (Call_Add t)
  then show ?thesis
    using assms(1) ts_add_ok [OF assms(1)] ts_add_result(3) [OF assms(1)]
    by (auto split: sum.splits)
next
  case (Call_Remove g n)
  obtain s' cs m where "ts_remove g n s = (s', cs, m)" by (metis prod_cases3)
  then show ?thesis using Call_Remove ts_remove_ok [OF assms(1)] ts_remove_result(3) [OF assms(1)] by simp
next
  case (Call_Evict g)
  obtain s' cs where "ts_evict g s = (s', cs)" by fastforce
  then show ?thesis
    using Call_Evict assms(2) ts_evict_ok [OF assms(1)] ts_evict_result(3) [OF assms(1)] by simp
next
  case (Call_Observe uuid n h)
  then show ?thesis using ts_observe_ok [OF assms(1)] by (simp add: ts_observe_def)
next
  case (Call_Unobserve n ref)
  then show ?thesis using ts_unobserve_ok [OF assms(1)] by (simp add: ts_unobserve_def)
qed



end
