(* ===== verification/Socket_Types.thy ===== *)
theory Socket_Types
  imports C_Strings
begin

text \<open>
  The table of ZeroMQ socket types, \<open>src/a17/dispatch/socket_types.{h,cpp}\<close>: names by type number,
  type numbers by name, and which type may connect to which. Type numbers are C \<open>int\<close>s. Reading
  the vector \<open>types\<close> outside its bounds is undefined, \<open>connectable.at\<close> throws.
\<close>

section \<open>Definitions\<close>

definition socket_types :: "string list" where
  "socket_types = [''PAIR'', ''PUB'', ''SUB'', ''REQ'', ''REP'', ''DEALER'',
     ''ROUTER'', ''PULL'', ''PUSH'', ''XPUB'', ''XSUB'', ''STREAM'']"

abbreviation ZMQ_PUB :: int where "ZMQ_PUB \<equiv> 1"
abbreviation ZMQ_SUB :: int where "ZMQ_SUB \<equiv> 2"
abbreviation ZMQ_REQ :: int where "ZMQ_REQ \<equiv> 3"
abbreviation ZMQ_REP :: int where "ZMQ_REP \<equiv> 4"

definition byName :: "(string, int) omap" where
  "byName = fold (\<lambda>i m. omap_put (socket_types ! i) (int i) m) [0..<length socket_types] []"

definition connectable :: "(int, int list) omap" where
  "connectable = fold (\<lambda>(type, peers) m. omap_put type peers m)
     [(0, [0]), (1, [2]), (2, [1]), (3, [4]), (4, [3]), (5, [6]), (6, [5]), (7, [8]), (8, [7]),
      (9, [10]), (10, [9]), (11, [11])] []"

definition fromName :: "string \<Rightarrow> int" where
  "fromName name = (case map_of byName name of Some type \<Rightarrow> type | None \<Rightarrow> - 1)"

definition fromType :: "int \<Rightarrow> string result" where
  "fromType type =
     (if 0 \<le> type \<and> type < int (length socket_types) then Inr (socket_types ! nat type)
      else Inl Out_Of_Bounds)"

definition canConnect :: "int \<Rightarrow> int \<Rightarrow> bool result" where
  "canConnect from to =
     (case map_of connectable from of None \<Rightarrow> Inl Out_Of_Range | Some peers \<Rightarrow> Inr (to \<in> set peers))"

section \<open>Lemmas\<close>

text \<open>The two tables are finite: facts about all their entries are evaluated.\<close>

lemma byName_complete:
  "\<forall>i \<in> set [0..<length socket_types]. map_of byName (socket_types ! i) = Some (int i)"
  by code_simp

lemma byName_sound:
  "\<forall>(name, type) \<in> set byName. 0 \<le> type \<and> type < int (length socket_types) \<and>
     socket_types ! nat type = name"
  by code_simp

lemma socket_types_chars:
  "\<forall>name \<in> set socket_types. name \<noteq> [] \<and> (\<forall>c \<in> set name. 65 \<le> code_of c \<and> code_of c \<le> 90)"
  by (simp add: socket_types_def)

lemma connectable_table:
  "\<forall>a \<in> set [0..<length socket_types].
     (case map_of connectable (int a) of None \<Rightarrow> False
      | Some peers \<Rightarrow> length peers = 1 \<and> map_of connectable (hd peers) = Some [int a])"
  by code_simp

lemma connectable_keys:
  "\<forall>(a, peers) \<in> set connectable. 0 \<le> a \<and> a < int (length socket_types)"
  by code_simp

lemma fromType_fromName:
  assumes "fromType type = Inr name"
  shows "fromName name = type"
proof -
  have "0 \<le> type" and "nat type \<in> set [0..<length socket_types]" and "name = socket_types ! nat type"
    using assms by (auto simp: fromType_def split: if_splits)
  with bspec [OF byName_complete, of "nat type"] show ?thesis by (simp add: fromName_def)
qed

lemma fromName_fromType:
  assumes "0 \<le> fromName name"
  shows "fromType (fromName name) = Inr name"
proof -
  obtain type where "map_of byName name = Some type" and eq: "fromName name = type"
    using assms by (auto simp: fromName_def split: option.splits)
  then have "(name, type) \<in> set byName" by (auto dest: map_of_SomeD)
  with bspec [OF byName_sound this] eq show ?thesis by (simp add: fromType_def)
qed

lemma fromType_member: "fromType type = Inr name \<Longrightarrow> name \<in> set socket_types"
  by (auto simp: fromType_def split: if_splits intro!: nth_mem)

lemma fromType_chars:
  "fromType type = Inr name \<Longrightarrow> c \<in> set name \<Longrightarrow> 65 \<le> code_of c \<and> code_of c \<le> 90"
  using socket_types_chars fromType_member by blast

lemma fromType_not_Nil: "fromType type = Inr name \<Longrightarrow> name \<noteq> []"
  using socket_types_chars fromType_member by blast

lemma connectable_some:
  assumes "map_of connectable a = Some peers"
  shows "\<exists>b. peers = [b] \<and> map_of connectable b = Some [a]"
proof -
  have "0 \<le> a" and "nat a \<in> set [0..<length socket_types]"
    using bspec [OF connectable_keys map_of_SomeD [OF assms]] by auto
  with bspec [OF connectable_table, of "nat a"] assms show ?thesis
    by (cases peers) auto
qed

lemma connectable_none: "map_of connectable a = None \<longleftrightarrow> \<not> (0 \<le> a \<and> a < int (length socket_types))"
proof
  assume "map_of connectable a = None"
  then show "\<not> (0 \<le> a \<and> a < int (length socket_types))"
    using bspec [OF connectable_table, of "nat a"] by (auto simp: nat_less_iff)
next
  assume "\<not> (0 \<le> a \<and> a < int (length socket_types))"
  then show "map_of connectable a = None"
    using connectable_keys by (cases "map_of connectable a") (auto dest!: map_of_SomeD)
qed

section \<open>Properties\<close>

text \<open>
  Names and numbers of socket types translate into each other without loss, in both
  directions: \<open>fromName\<close> gives a non-negative number exactly for the name of that type, and the
  guard \<open>socketType < 0\<close> of the discovery code makes the unchecked lookup \<open>types[type]\<close> safe.
\<close>

theorem socket_type_round_trip:
  "fromType type = Inr name \<longleftrightarrow> 0 \<le> type \<and> fromName name = type"
proof
  assume "fromType type = Inr name"
  then show "0 \<le> type \<and> fromName name = type"
    using fromType_fromName by (auto simp: fromType_def split: if_splits)
qed (use fromName_fromType in blast)

text \<open>
  Connectability is symmetric and every socket type has exactly one peer type; the lookup
  throws exactly for numbers that are not socket types.
\<close>

theorem canConnect_symmetric:
  "(canConnect a b = Inr True \<longleftrightarrow> canConnect b a = Inr True) \<and>
   (isl (canConnect a b) \<longleftrightarrow> \<not> (0 \<le> a \<and> a < int (length socket_types))) \<and>
   (\<not> isl (canConnect a b) \<longleftrightarrow> (\<exists>!c. canConnect a c = Inr True))"
proof (intro conjI)
  have sym: "canConnect b a = Inr True" if "canConnect a b = Inr True" for a b
    using that connectable_some [of a]
    by (auto simp: canConnect_def split: option.splits)
  then show "canConnect a b = Inr True \<longleftrightarrow> canConnect b a = Inr True" by blast
  show "isl (canConnect a b) \<longleftrightarrow> \<not> (0 \<le> a \<and> a < int (length socket_types))"
    unfolding connectable_none [symmetric] by (simp add: canConnect_def split: option.splits)
  show "\<not> isl (canConnect a b) \<longleftrightarrow> (\<exists>!c. canConnect a c = Inr True)"
    using connectable_some [of a] by (auto simp: canConnect_def split: option.splits)
qed

end
