(* ===== verification/Wire_Format.thy ===== *)
theory Wire_Format
  imports Socket_Types
begin

text \<open>
  The text format of discovery packets (\<open>src/a17/dispatch/directory.cpp\<close>): \<open>buildTopicInfo\<close>,
  \<open>writeTypes\<close>, \<open>parseTypes\<close> and the tokenizer \<open>nextToken\<close>, which cuts words out of the receive
  buffer by writing terminators into it. The buffer is a list of characters; an access outside it
  is the fault \<open>Out_Of_Bounds\<close>. A \<open>char *\<close> into the buffer is the buffer with a base index. Strings that
  the code passes through \<open>c_str()\<close> are taken to contain no NUL.
\<close>

section \<open>Definitions\<close>

abbreviation EVENT_BUFFER_SIZE :: nat where
  "EVENT_BUFFER_SIZE \<equiv> 1500"

definition DISPATCH :: string where
  "DISPATCH = ''DISPATCH ''"

abbreviation SEP :: char where
  "SEP \<equiv> CHR ''|''"

definition NO_TYPES :: string where
  "NO_TYPES = ''.''"

text \<open>
  The loop of \<open>writeTypes\<close>; \<open>b\<close> is the first character of the scratch buffer, NUL until a
  character has been printed.
\<close>

fun write_types_loop :: "char \<Rightarrow> string list \<Rightarrow> string" where
  "write_types_loop b [] = []"
| "write_types_loop b (type # types) =
     (if b \<noteq> NUL then [SEP] else []) @ filter (\<lambda>id. id \<noteq> NUL) type
     @ write_types_loop (if type = [] then b else last type) types"

definition writeTypes :: "string list \<Rightarrow> string" where
  "writeTypes types = (if types = [] then NO_TYPES else write_types_loop NUL types)"

definition parseTypes :: "string list \<Rightarrow> string \<Rightarrow> string list" where
  "parseTypes types str =
     (if str = [] \<or> str = NO_TYPES then types else fold oset_insert (split_on SEP str) types)"

definition buildTopicInfo ::
  "string \<Rightarrow> int \<Rightarrow> string \<Rightarrow> string list \<Rightarrow> string list \<Rightarrow> string result" where
  "buildTopicInfo name socketType address inputTypes outputTypes =
     and_then (fromType socketType) (\<lambda>type.
       Inr (name @ '' '' @ type @ '' '' @ address @ '' '' @ writeTypes inputTypes @ '' ''
            @ writeTypes outputTypes))"

text \<open>\<open>while (end < EVENT_BUFFER_SIZE && event[end] != ' ' && event[end] != 0) ++end;\<close>\<close>

function scan :: "string \<Rightarrow> nat \<Rightarrow> nat \<Rightarrow> nat result" where
  "scan buf base end =
     (if end < EVENT_BUFFER_SIZE then
        (case char_at buf (base + end) of
           Inl e \<Rightarrow> Inl e
         | Inr c \<Rightarrow> if c \<noteq> CHR '' '' \<and> c \<noteq> NUL then scan buf base (Suc end) else Inr end)
      else Inr end)"
  by pat_completeness auto

termination
  by (relation "measure (\<lambda>(buf, base, end). EVENT_BUFFER_SIZE - end)") auto

declare scan.simps [simp del]

definition nextToken :: "string \<Rightarrow> nat \<Rightarrow> nat \<Rightarrow> (string \<times> nat) result" where
  "nextToken buf base start =
     (if start \<ge> EVENT_BUFFER_SIZE then Inr (buf, start)
      else and_then (scan buf base start) (\<lambda>end.
        if end = EVENT_BUFFER_SIZE then Inr (buf, end)
        else and_then (char_at buf (base + end)) (\<lambda>c.
          if c = NUL then Inr (buf, end)
          else Inr (buf[base + end := NUL], end + 1))))"

section \<open>Type lists\<close>

text \<open>What a set of message types must look like to survive the format.\<close>

definition types_ok :: "string list \<Rightarrow> bool" where
  "types_ok types \<longleftrightarrow> sorted types \<and> distinct types \<and> types \<noteq> [NO_TYPES] \<and>
     (\<forall>type \<in> set types. type \<noteq> [] \<and> SEP \<notin> set type \<and> CHR '' '' \<notin> set type \<and> NUL \<notin> set type)"

lemma write_types_joined:
  assumes "\<forall>type \<in> set types. type \<noteq> [] \<and> NUL \<notin> set type" and "types \<noteq> []"
  shows "write_types_loop b types = (if b \<noteq> NUL then [SEP] else []) @ joined SEP types"
  using assms
proof (induction b types rule: write_types_loop.induct)
  case (2 b type types)
  then have t: "filter (\<lambda>id. id \<noteq> NUL) type = type" "last type \<noteq> NUL"
    by (auto simp: filter_id_conv) (metis last_in_set)
  with 2 show ?case by (cases types) auto
qed simp

lemma fold_oset_insert_id:
  assumes "sorted xs" and "distinct xs"
  shows "fold oset_insert xs [] = xs"
proof -
  have "set (fold oset_insert xs acc) = set xs \<union> set acc" for acc :: "'a list"
    by (induction xs arbitrary: acc) (auto simp: set_insort_insert)
  moreover have "sorted acc \<Longrightarrow> distinct acc \<Longrightarrow>
      sorted (fold oset_insert xs acc) \<and> distinct (fold oset_insert xs acc)" for acc :: "'a list"
    by (induction xs arbitrary: acc) (auto simp: sorted_insort_insert distinct_insort_insert)
  ultimately show ?thesis
    using assms by (intro sorted_distinct_set_unique) auto
qed

lemma types_ok_written:
  assumes "types_ok types"
  shows "writeTypes types \<noteq> []" and "CHR '' '' \<notin> set (writeTypes types)"
    and "NUL \<notin> set (writeTypes types)"
proof -
  have w: "writeTypes types = (if types = [] then ''.'' else joined SEP types)"
    using assms by (auto simp: writeTypes_def types_ok_def NO_TYPES_def write_types_joined)
  have "joined SEP types \<noteq> []" if "types \<noteq> []"
    using assms that by (cases types rule: remdups_adj.cases) (auto simp: types_ok_def)
  then show "writeTypes types \<noteq> []" by (simp add: w)
  show "CHR '' '' \<notin> set (writeTypes types)" "NUL \<notin> set (writeTypes types)"
    using assms by (auto simp: w types_ok_def dest!: set_joined)
qed

lemma parse_write_types:
  assumes "types_ok types"
  shows "parseTypes [] (writeTypes types) = types"
proof (cases "types = []")
  case True
  then show ?thesis by (simp add: writeTypes_def parseTypes_def)
next
  case False
  then have w: "writeTypes types = joined SEP types"
    using assms by (simp add: writeTypes_def types_ok_def write_types_joined)
  have split: "split_on SEP (joined SEP types) = types"
    using assms False by (intro split_on_joined) (auto simp: types_ok_def)
  have "joined SEP types \<noteq> NO_TYPES"
  proof
    assume "joined SEP types = NO_TYPES"
    then have "types = [NO_TYPES]" using split by (simp add: NO_TYPES_def split_on_last)
    with assms show False by (simp add: types_ok_def)
  qed
  then show ?thesis
    using split types_ok_written(1) [OF assms] assms
    by (simp add: w parseTypes_def types_ok_def fold_oset_insert_id)
qed

section \<open>Words in the buffer\<close>

definition wire_word :: "string \<Rightarrow> bool" where
  "wire_word w \<longleftrightarrow> CHR '' '' \<notin> set w \<and> NUL \<notin> set w"

lemma scan_word:
  assumes "wire_word w" and "c = CHR '' '' \<or> c = NUL" and "base + start = length pre"
    and "start + length w < EVENT_BUFFER_SIZE"
  shows "scan (pre @ w @ c # rest) base start = Inr (start + length w)"
  using assms
proof (induction w arbitrary: pre start)
  case Nil
  then show ?case
    using char_at_index(1) [of pre c rest] by (subst scan.simps) auto
next
  case (Cons x w)
  have "scan ((pre @ [x]) @ w @ c # rest) base (Suc start) = Inr (Suc start + length w)"
    using Cons.prems by (intro Cons.IH) (auto simp: wire_word_def)
  with Cons.prems show ?case
    using char_at_index(1) [of pre x "w @ c # rest"]
    by (subst scan.simps) (auto simp: wire_word_def)
qed

lemma nextToken_word:
  assumes "wire_word w" and "base + start = length pre" and "start + length w < EVENT_BUFFER_SIZE"
  shows "nextToken (pre @ w @ CHR '' '' # rest) base start
    = Inr (pre @ w @ NUL # rest, start + length w + 1)"
proof -
  have at: "base + (start + length w) = length (pre @ w)" using assms(2) by simp
  have "char_at (pre @ w @ CHR '' '' # rest) (base + (start + length w)) = Inr (CHR '' '')"
    and "(pre @ w @ CHR '' '' # rest)[base + (start + length w) := NUL] = pre @ w @ NUL # rest"
    unfolding at
    using char_at_index(1) [of "pre @ w" "CHR '' ''" rest] list_update_length [of "pre @ w" "CHR '' ''" rest NUL]
    by simp_all
  moreover have "scan (pre @ w @ CHR '' '' # rest) base start = Inr (start + length w)"
    using assms by (intro scan_word) auto
  ultimately show ?thesis using assms(3) by (simp add: nextToken_def)
qed

lemma nextToken_last:
  assumes "wire_word w" and "base + start = length pre" and "start + length w < EVENT_BUFFER_SIZE"
  shows "nextToken (pre @ w @ NUL # rest) base start = Inr (pre @ w @ NUL # rest, start + length w)"
proof -
  have at: "base + (start + length w) = length (pre @ w)" using assms(2) by simp
  have "char_at (pre @ w @ NUL # rest) (base + (start + length w)) = Inr NUL"
    unfolding at using char_at_index(1) [of "pre @ w" NUL rest] by simp
  moreover have "scan (pre @ w @ NUL # rest) base start = Inr (start + length w)"
    using assms by (intro scan_word) auto
  ultimately show ?thesis using assms(3) by (simp add: nextToken_def)
qed

section \<open>Every access is in bounds\<close>

text \<open>A buffer that has a terminator at index \<open>e\<close>.\<close>

definition sealed :: "nat \<Rightarrow> string \<Rightarrow> bool" where
  "sealed e buf \<longleftrightarrow> e < length buf \<and> buf ! e = NUL"

lemma scan_sealed:
  assumes "sealed e buf" and "base + start \<le> e" and "start \<le> EVENT_BUFFER_SIZE"
  shows "\<exists>end. scan buf base start = Inr end \<and> start \<le> end \<and> base + end \<le> e \<and>
    (end < EVENT_BUFFER_SIZE \<longrightarrow> buf ! (base + end) = CHR '' '' \<or> buf ! (base + end) = NUL) \<and>
    end \<le> EVENT_BUFFER_SIZE \<and>
    (start < EVENT_BUFFER_SIZE \<and> buf ! (base + start) \<noteq> CHR '' '' \<and> buf ! (base + start) \<noteq> NUL
      \<longrightarrow> start < end)"
  using assms
proof (induction buf base start rule: scan.induct)
  case (1 buf base start)
  show ?case
  proof (cases "start < EVENT_BUFFER_SIZE \<and> buf ! (base + start) \<noteq> CHR '' '' \<and> buf ! (base + start) \<noteq> NUL")
    case True
    then have "base + start \<noteq> e" using 1(2) by (auto simp: sealed_def)
    with True 1 have "char_at buf (base + start) = Inr (buf ! (base + start))" "base + Suc start \<le> e"
      by (auto simp: char_at_def sealed_def)
    with 1(1) [OF _ this(1)] True 1(2) obtain "end" where
      "scan buf base (Suc start) = Inr end" "Suc start \<le> end" "base + end \<le> e" "end \<le> EVENT_BUFFER_SIZE"
      "end < EVENT_BUFFER_SIZE \<longrightarrow> buf ! (base + end) = CHR '' '' \<or> buf ! (base + end) = NUL"
      by (auto simp: Suc_le_eq)
    with True \<open>char_at buf (base + start) = Inr (buf ! (base + start))\<close> show ?thesis
      by (subst scan.simps) simp
  next
    case False
    have "char_at buf (base + start) = Inr (buf ! (base + start))"
      using 1 by (auto simp: char_at_def sealed_def)
    with False 1(3,4) show ?thesis by (subst scan.simps) auto
  qed
qed

lemma nextToken_sealed:
  assumes "sealed e buf" and "base + start \<le> e"
  shows "\<exists>buf' next. nextToken buf base start = Inr (buf', next) \<and> sealed e buf' \<and>
    length buf' = length buf \<and> start \<le> next \<and> base + next \<le> e \<and>
    (start < EVENT_BUFFER_SIZE \<and> buf ! (base + start) \<noteq> NUL \<longrightarrow> start < next)"
proof (cases "start < EVENT_BUFFER_SIZE")
  case True
  then obtain "end" where "end": "scan buf base start = Inr end" "start \<le> end" "base + end \<le> e"
    "end < EVENT_BUFFER_SIZE \<longrightarrow> buf ! (base + end) = CHR '' '' \<or> buf ! (base + end) = NUL"
    "end \<le> EVENT_BUFFER_SIZE"
    "buf ! (base + start) \<noteq> CHR '' '' \<and> buf ! (base + start) \<noteq> NUL \<longrightarrow> start < end"
    using scan_sealed [OF assms] by auto
  have at: "char_at buf (base + end) = Inr (buf ! (base + end))"
    using assms(1) "end"(3) by (auto simp: char_at_def sealed_def)
  have "base + end \<noteq> e" if "buf ! (base + end) \<noteq> NUL"
    using that assms(1) by (auto simp: sealed_def)
  with True "end" at show ?thesis
    using assms by (auto simp: nextToken_def sealed_def nth_list_update Suc_le_eq le_less)
next
  case False
  with assms show ?thesis by (simp add: nextToken_def)
qed

lemma cstr_sealed:
  assumes "sealed e buf" and "i \<le> e"
  shows "\<exists>s. cstr buf i = Inr s \<and> NUL \<notin> set s \<and> (s = [] \<longleftrightarrow> buf ! i = NUL)"
proof -
  have "drop i buf = buf ! i # drop (Suc i) buf"
    using assms by (intro Cons_nth_drop_Suc [symmetric]) (auto simp: sealed_def)
  moreover have "NUL \<in> set (drop i buf)"
    using assms nth_mem [of "e - i" "drop i buf"] by (auto simp: sealed_def)
  ultimately show ?thesis
    by (auto simp: cstr_def dest: set_takeWhileD)
qed

section \<open>Properties\<close>

text \<open>
  A set of message types that avoids the separator, blanks and the empty name is restored by
  writing and parsing it; the result is one word of the packet.
\<close>

theorem types_round_trip:
  assumes "types_ok types"
  shows "parseTypes [] (writeTypes types) = types \<and> wire_word (writeTypes types) \<and>
    writeTypes types \<noteq> []"
  using parse_write_types [OF assms] types_ok_written [OF assms] by (simp add: wire_word_def)

theorem types_round_trip_witness:
  "parseTypes [] (writeTypes [''17'', ''42'']) = [''17'', ''42'']"
  using types_round_trip [of "[''17'', ''42'']"] by (simp add: types_ok_def NO_TYPES_def)

end
