(* ===== verification/Directory.thy ===== *)
theory Directory
  imports Buffer_Pool Net_Address Topic_Store Wire_Format
begin

text \<open>
  The discovery service, \<open>class Directory\<close> of \<open>src/a17/dispatch/directory.{h,cpp}\<close>. A directory keeps
  the topic store, the pool of send buffers, the packets whose asynchronous send has not
  completed, the receive buffer and the query timer. Every operation returns the new directory
  and what it does to the outside, in order: packets handed to the socket, calls of observers,
  timer requests, posted work. What the environment decides is collected in \<open>env\<close>: the result of
  the k-th call of \<open>::malloc\<close>, \<open>inet_addr\<close>, the node's own address, the clock. Names, guids and
  addresses are strings without NUL.
\<close>

section \<open>State\<close>

record env =
  en_os :: "nat \<Rightarrow> nat"
  en_inet_addr :: "string \<Rightarrow> u32"
  en_own :: OwnAddress
  en_now :: int

record directory =
  d_name :: string
  d_guid :: string
  d_topics :: topic_store
  d_pool :: buffer_pool
  d_mallocs :: nat
  d_sends :: "(nat \<times> string) list"
  d_buffer :: string
  d_timer_active :: bool
  d_interval :: nat
  d_next_port :: u16

datatype dir_out =
    Send_To nat string       \<comment> \<open>\<open>async_send_to\<close> of the bytes in a buffer\<close>
  | Send_Now string          \<comment> \<open>the synchronous \<open>send_to\<close> of the destructor\<close>
  | Called call
  | Posted string nat        \<comment> \<open>\<open>ios_.post\<close> of \<open>callImmediate(topic_name, handler)\<close>\<close>
  | Timer_Cancel
  | Timer_Wait nat           \<comment> \<open>milliseconds\<close>
  | Receive

abbreviation QUERY_ZERO :: nat where "QUERY_ZERO \<equiv> 50"
abbreviation QUERY_INTERVAL :: nat where "QUERY_INTERVAL \<equiv> 1000"
abbreviation QUERY_INTERVAL_MAX :: nat where "QUERY_INTERVAL_MAX \<equiv> 16000"
abbreviation QUERY_INTERVAL_MULT :: nat where "QUERY_INTERVAL_MULT \<equiv> 2"

abbreviation DISCOVERY_EXIT :: char where "DISCOVERY_EXIT \<equiv> CHR ''X''"
abbreviation DISCOVERY_AVAILABLE :: char where "DISCOVERY_AVAILABLE \<equiv> CHR ''A''"
abbreviation DISCOVERY_REMOVE :: char where "DISCOVERY_REMOVE \<equiv> CHR ''R''"
abbreviation DISCOVERY_SEARCH :: char where "DISCOVERY_SEARCH \<equiv> CHR ''S''"

type_synonym dir_step = "(directory \<times> dir_out list) result"

text \<open>
  The constructor; \<open>opened\<close> and \<open>joined\<close> say whether the multicast socket could be set up,
  \<open>next_port\<close> is the static \<open>next_directory_port\<close>, null unless somebody sets it.
\<close>

definition make_directory :: "env \<Rightarrow> string \<Rightarrow> string \<Rightarrow> nat \<Rightarrow> string \<Rightarrow> bool \<Rightarrow> bool \<Rightarrow> u16 option \<Rightarrow>
    (directory \<times> u16 option \<times> dir_out list) result" where
  "make_directory env name uuid mem buffer opened joined_group next_port =
     (let guid = name @ ''_'' @ own_address (en_own env) @ ''_'' @ uuid in
      if \<not> opened then Inl (Runtime_Error ''Could not open multicast socket'')
      else if \<not> joined_group then Inl (Runtime_Error ''Error joining multicast group'')
      else Inr (\<lparr>d_name = name, d_guid = guid, d_topics = DirectoryTopicStore guid,
                 d_pool = BufferPool mem EVENT_BUFFER_SIZE 64 True, d_mallocs = 0, d_sends = [],
                 d_buffer = buffer, d_timer_active = False, d_interval = 0,
                 d_next_port = (case next_port of None \<Rightarrow> 0 | Some p \<Rightarrow> p)\<rparr>,
                map_option (\<lambda>p. p + 50) next_port, [Receive]))"

definition dir_destroy :: "directory \<Rightarrow> dir_out list" where
  "dir_destroy d = [Send_Now (DISPATCH @ d_guid d @ '' '' @ [DISCOVERY_EXIT])]"

definition nextServerPort :: "directory \<Rightarrow> directory \<times> u16" where
  "nextServerPort d =
     (if d_next_port d \<noteq> 0 then (d\<lparr>d_next_port := d_next_port d + 1\<rparr>, d_next_port d) else (d, 0))"

section \<open>Sending\<close>

definition dir_malloc :: "env \<Rightarrow> directory \<Rightarrow> directory \<times> nat" where
  "dir_malloc env d =
     (let (p, buf) = bp_malloc (en_os env (d_mallocs d)) (d_pool d)
      in (d\<lparr>d_pool := p, d_mallocs := (if bp_empty (d_pool d) then Suc (d_mallocs d) else d_mallocs d)\<rparr>,
          buf))"

definition dir_async_send :: "nat \<Rightarrow> string \<Rightarrow> directory \<Rightarrow> directory \<times> dir_out list" where
  "dir_async_send buf data d = (d\<lparr>d_sends := d_sends d @ [(buf, data)]\<rparr>, [Send_To buf data])"

text \<open>The completion handler of \<open>_send\<close>; the bytes of the pending send are looked up by buffer.\<close>

definition dir_sent :: "nat \<Rightarrow> bool \<Rightarrow> nat \<Rightarrow> directory \<Rightarrow> directory \<times> dir_out list" where
  "dir_sent buf ec bytes d =
     (case map_of (d_sends d) buf of
        None \<Rightarrow> (d, [])
      | Some data \<Rightarrow>
         (let d = d\<lparr>d_sends := filter (\<lambda>e. fst e \<noteq> buf) (d_sends d)\<rparr> in
          if ec then (d, [])
          else if bytes < length data then dir_async_send buf (drop bytes data) d
          else (d\<lparr>d_pool := fst (bp_free buf (d_pool d))\<rparr>, [])))"

definition packet_text :: "string \<Rightarrow> char \<Rightarrow> string \<Rightarrow> string" where
  "packet_text guid command args =
     (if args \<noteq> [] then DISPATCH @ guid @ '' '' @ [command] @ '' '' @ args
      else DISPATCH @ guid @ '' '' @ [command])"

text \<open>\<open>sprintf\<close> also writes the terminator; nothing checks that the text fits the buffer.\<close>

definition dir_send :: "env \<Rightarrow> char \<Rightarrow> string \<Rightarrow> directory \<Rightarrow> dir_step" where
  "dir_send env command args d =
     (let (d, buf) = dir_malloc env d; text = packet_text (d_guid d) command args in
      if buf = 0 then Inl Null_Pointer
      else if length text + 1 > EVENT_BUFFER_SIZE then Inl Buffer_Overflow
      else Inr (dir_async_send buf text d))"

fun send_each :: "env \<Rightarrow> char \<Rightarrow> string list \<Rightarrow> directory \<Rightarrow> dir_step" where
  "send_each env command [] d = Inr (d, [])"
| "send_each env command (args # rest) d =
     and_then (dir_send env command args d) (\<lambda>(d, out).
     and_then (send_each env command rest d) (\<lambda>(d, out'). Inr (d, out @ out')))"

section \<open>Timer and queries\<close>

definition startQueryTimer :: "directory \<Rightarrow> directory \<times> dir_out list" where
  "startQueryTimer d =
     (d\<lparr>d_timer_active := True, d_interval := QUERY_INTERVAL\<rparr>,
      (if d_timer_active d then [Timer_Cancel] else []) @ [Timer_Wait QUERY_ZERO])"

text \<open>
  The loop of \<open>queryMissingTopics\<close>. The packet under construction is its buffer and the text in it,
  \<open>pos\<close> is the length of the text; the final send is the last equation.
\<close>

fun query_loop :: "env \<Rightarrow> (nat \<times> string) option \<Rightarrow> nat \<Rightarrow> string list \<Rightarrow> directory \<Rightarrow> dir_step" where
  "query_loop env None count [] d = Inr (d, [])"
| "query_loop env (Some (buf, text)) count [] d =
     (if length text > length DISPATCH + length (d_guid d) + 2
      then Inr (dir_async_send buf text d) else Inr (d, []))"
| "query_loop env cur count (topic_name # names) d =
     (let flush = (case cur of None \<Rightarrow> True
            | Some (buf, text) \<Rightarrow>
                length text + 1 + length topic_name \<ge> EVENT_BUFFER_SIZE \<or> count \<ge> 4);
          (d1, out) = (case cur of Some (buf, text) \<Rightarrow> if flush then dir_async_send buf text d else (d, [])
                       | None \<Rightarrow> (d, []));
          (d2, new) = (if flush then dir_malloc env d1 else (d1, 0));
          (buf, text) = (if flush then (new, packet_text (d_guid d2) DISCOVERY_SEARCH [])
                         else the cur);
          text' = text @ '' '' @ topic_name
      in if flush \<and> new = 0 then Inl Null_Pointer
         else if length text + 1 > EVENT_BUFFER_SIZE \<or> length text' + 1 > EVENT_BUFFER_SIZE
         then Inl Buffer_Overflow
         else and_then (query_loop env (Some (buf, text')) (if flush then 1 else count + 1) names d2)
                (\<lambda>(d3, out'). Inr (d3, out @ out')))"

definition queryMissingTopics :: "env \<Rightarrow> bool \<Rightarrow> directory \<Rightarrow> dir_step" where
  "queryMissingTopics env ec d =
     (if ec then Inr (d, []) else
      let requests = ts_getMissing (d_topics d) in
      if requests \<noteq> [] then
        (let wait = Timer_Wait (d_interval d);
             i = (if d_interval d < QUERY_INTERVAL_MAX then d_interval d * QUERY_INTERVAL_MULT
                  else d_interval d);
             i = (if i > QUERY_INTERVAL_MAX then QUERY_INTERVAL_MAX else i)
         in and_then (query_loop env None 0 requests (d\<lparr>d_interval := i\<rparr>))
              (\<lambda>(d, out). Inr (d, wait # out)))
      else Inr (d\<lparr>d_timer_active := False\<rparr>, []))"

section \<open>Local operations\<close>

definition dir_add :: "env \<Rightarrow> string \<Rightarrow> int \<Rightarrow> string \<Rightarrow> string list \<Rightarrow> string list \<Rightarrow> string \<Rightarrow> directory \<Rightarrow>
    (directory \<times> dir_out list \<times> bool) result" where
  "dir_add env topic_name socketType address inputTypes outputTypes guid d =
     and_then (buildTopicInfo topic_name socketType address inputTypes outputTypes) (\<lambda>info.
     let topic = \<lparr>dt_name = topic_name, dt_timestamp = en_now env, dt_socketType = socketType,
                  dt_address = address, dt_inputTypes = inputTypes, dt_outputTypes = outputTypes,
                  dt_guid = guid, dt_info = info\<rparr> in
     and_then (ts_add topic (d_topics d)) (\<lambda>(topics, calls, mine).
       let d = d\<lparr>d_topics := topics\<rparr> in
       if mine then
         and_then (dir_send env DISCOVERY_AVAILABLE info d) (\<lambda>(d, out).
           Inr (d, map Called calls @ out, True))
       else Inr (d, map Called calls, False)))"

definition dir_remove :: "env \<Rightarrow> string \<Rightarrow> directory \<Rightarrow> dir_step" where
  "dir_remove env topic_name d =
     (let (topics, calls, mine) = ts_remove (d_guid d) topic_name (d_topics d);
          d = d\<lparr>d_topics := topics\<rparr>
      in if mine then
           and_then (dir_send env DISCOVERY_REMOVE topic_name d) (\<lambda>(d, out).
             Inr (d, map Called calls @ out))
         else Inr (d, map Called calls))"

definition dir_observe :: "string \<Rightarrow> string \<Rightarrow> nat \<Rightarrow> directory \<Rightarrow> directory \<times> dir_out list \<times> string" where
  "dir_observe uuid topic_name handler d =
     (let (topics, ref) = ts_observe uuid topic_name handler (d_topics d);
          (d, out) = startQueryTimer (d\<lparr>d_topics := topics\<rparr>)
      in (d, Posted topic_name handler # out, ref))"

definition dir_posted :: "string \<Rightarrow> nat \<Rightarrow> directory \<Rightarrow> dir_out list" where
  "dir_posted topic_name handler d = map Called (ts_callImmediate topic_name handler (d_topics d))"

definition dir_unobserve :: "string \<Rightarrow> string \<Rightarrow> directory \<Rightarrow> directory \<times> dir_out list" where
  "dir_unobserve topic_name ref d =
     startQueryTimer (d\<lparr>d_topics := ts_unobserve topic_name ref (d_topics d)\<rparr>)"

section \<open>Incoming packets\<close>

text \<open>
  The handlers work on the receive buffer, which \<open>nextToken\<close> modifies; \<open>base\<close> is the index that
  \<open>data\<close> points to. They return the buffer as well.
\<close>

type_synonym event_step = "(string \<times> directory \<times> dir_out list) result"

definition discoveryAvailable :: "env \<Rightarrow> string \<Rightarrow> string \<Rightarrow> nat \<Rightarrow> directory \<Rightarrow> event_step" where
  "discoveryAvailable env guid buf base d =
     and_then (nextToken buf base 0) (\<lambda>(buf, next).
     if next = 0 then Inr (buf, d, []) else
     and_then (cstr buf base) (\<lambda>name.
     if name = [] then Inr (buf, d, []) else
     let pos = next in
     and_then (nextToken buf base pos) (\<lambda>(buf, next).
     if next = pos then Inr (buf, d, []) else
     and_then (cstr buf (base + pos)) (\<lambda>type.
     if type = [] then Inr (buf, d, []) else
     let pos = next in
     and_then (nextToken buf base pos) (\<lambda>(buf, next).
     if next = pos then Inr (buf, d, []) else
     and_then (cstr buf (base + pos)) (\<lambda>address.
     if address = [] then Inr (buf, d, []) else
     let pos = next in
     and_then (nextToken buf base pos) (\<lambda>(buf, next).
     if next = pos then Inr (buf, d, []) else
     and_then (cstr buf (base + pos)) (\<lambda>ins.
     let pos = next in
     and_then (nextToken buf base pos) (\<lambda>(buf, next).
     if next = pos then Inr (buf, d, []) else
     and_then (cstr buf (base + pos)) (\<lambda>outs.
     let addressParts = Address_parse address in
     if \<not> onNetwork (en_inet_addr env) (en_own env) (ad_ip addressParts) then Inr (buf, d, []) else
     let socketType = fromName type in
     if socketType < 0 then Inr (buf, d, []) else
     and_then (dir_add env name socketType address (parseTypes [] ins) (parseTypes [] outs) guid d)
       (\<lambda>(d, out, _). Inr (buf, d, out))))))))))))"

definition discoveryRemove :: "string \<Rightarrow> string \<Rightarrow> nat \<Rightarrow> directory \<Rightarrow> event_step" where
  "discoveryRemove guid buf base d =
     and_then (nextToken buf base 0) (\<lambda>(buf, _).
     and_then (cstr buf base) (\<lambda>name.
     let (topics, calls, _) = ts_remove guid name (d_topics d);
         (d, out) = startQueryTimer (d\<lparr>d_topics := topics\<rparr>)
     in Inr (buf, d, map Called calls @ out)))"

definition discoveryExit :: "string \<Rightarrow> string \<Rightarrow> directory \<Rightarrow> event_step" where
  "discoveryExit guid buf d =
     (let (topics, calls) = ts_evict guid (d_topics d);
          (d, out) = startQueryTimer (d\<lparr>d_topics := topics\<rparr>)
      in Inr (buf, d, map Called calls @ out))"

text \<open>The body of the search loop: what is answered to one requested name.\<close>

definition answer_search :: "env \<Rightarrow> string \<Rightarrow> directory \<Rightarrow> dir_step" where
  "answer_search env name d =
     (if name \<noteq> [] then
        if name = ''*'' then
          send_each env DISCOVERY_AVAILABLE (map (\<lambda>e. dt_info (snd e)) (ts_local_topics (d_topics d))) d
        else (case ts_findLocal name (d_topics d) of
                None \<Rightarrow> Inr (d, [])
              | Some t \<Rightarrow> dir_send env DISCOVERY_AVAILABLE (dt_info t) d)
      else Inr (d, []))"

text \<open>The loop need not end on every buffer: \<open>None\<close> is a run that never returns.\<close>

partial_function (option) search_loop ::
  "env \<Rightarrow> string \<Rightarrow> nat \<Rightarrow> nat \<Rightarrow> directory \<Rightarrow> dir_out list \<Rightarrow> event_step option" where
  "search_loop env buf base pos d out =
     (case char_at buf (base + pos) of
        Inl e \<Rightarrow> Some (Inl e)
      | Inr c \<Rightarrow>
         if c = NUL then Some (Inr (buf, d, out))
         else (case nextToken buf base pos of
                 Inl e \<Rightarrow> Some (Inl e)
               | Inr bn \<Rightarrow>
                  (case and_then (cstr (fst bn) (base + pos)) (\<lambda>name. answer_search env name d) of
                     Inl e \<Rightarrow> Some (Inl e)
                   | Inr res \<Rightarrow> search_loop env (fst bn) base (snd bn) (fst res) (out @ snd res))))"

definition discoverySearch :: "env \<Rightarrow> string \<Rightarrow> nat \<Rightarrow> directory \<Rightarrow> event_step option" where
  "discoverySearch env buf base d = search_loop env buf base 0 d []"

definition handle_command :: "env \<Rightarrow> char \<Rightarrow> string \<Rightarrow> string \<Rightarrow> nat \<Rightarrow> directory \<Rightarrow> event_step option" where
  "handle_command env command guid buf base d =
     (if command = DISCOVERY_AVAILABLE then Some (discoveryAvailable env guid buf base d)
      else if command = DISCOVERY_SEARCH then discoverySearch env buf base d
      else if command = DISCOVERY_EXIT then Some (discoveryExit guid buf d)
      else if command = DISCOVERY_REMOVE then Some (discoveryRemove guid buf base d)
      else Some (Inr (buf, d, [])))"

definition handleEvent :: "env \<Rightarrow> string \<Rightarrow> directory \<Rightarrow> event_step option" where
  "handleEvent env buf d =
     (if take (length DISPATCH) buf \<noteq> DISPATCH then Some (Inr (buf, d, []))
      else
       (let pos = length DISPATCH in
        case nextToken buf 0 pos of
          Inl e \<Rightarrow> Some (Inl e)
        | Inr (buf, next) \<Rightarrow>
           (case cstr buf pos of
              Inl e \<Rightarrow> Some (Inl e)
            | Inr guid \<Rightarrow>
               if guid \<noteq> d_guid d then
                 (let pos = next in
                  case nextToken buf 0 pos of
                    Inl e \<Rightarrow> Some (Inl e)
                  | Inr (buf, next) \<Rightarrow>
                     (case char_at buf pos of
                        Inl e \<Rightarrow> Some (Inl e)
                      | Inr command \<Rightarrow> handle_command env command guid buf next d))
               else Some (Inr (buf, d, [])))))"

text \<open>
  \<open>event\<close>: the socket has put \<open>packet\<close> at the front of the receive buffer.
\<close>

definition dir_event :: "env \<Rightarrow> bool \<Rightarrow> string \<Rightarrow> directory \<Rightarrow> dir_step option" where
  "dir_event env ec packet d =
     (if ec then Some (Inr (d, [Receive]))
      else
       (let buf = packet @ drop (length packet) (d_buffer d) in
        if \<not> list_all isprint packet then Some (Inr (d\<lparr>d_buffer := buf\<rparr>, [Receive]))
        else if length packet < length buf then
          (case handleEvent env (buf[length packet := NUL]) d of
             None \<Rightarrow> None
           | Some (Inl e) \<Rightarrow> Some (Inl e)
           | Some (Inr (buf, d, out)) \<Rightarrow> Some (Inr (d\<lparr>d_buffer := buf\<rparr>, out @ [Receive])))
        else Some (Inl Out_Of_Bounds)))"

section \<open>Send buffers\<close>

text \<open>
  An allocation of the operating system gets an address of its own, outside the pool, and does
  not fail.
\<close>

definition env_ok :: "env \<Rightarrow> directory \<Rightarrow> bool" where
  "env_ok env d \<longleftrightarrow> inj (en_os env) \<and> range (en_os env) \<inter> pool_region (d_pool d) = {} \<and>
     0 \<notin> range (en_os env) \<and> 0 < bp_pool (d_pool d)"

text \<open>Pending sends have buffers of their own, which are in use as far as the pool is concerned.\<close>

definition send_inv :: "env \<Rightarrow> directory \<Rightarrow> bool" where
  "send_inv env d \<longleftrightarrow> (\<exists>used. pool_inv (d_pool d) used \<and>
     (\<forall>p \<in> fst ` set (d_sends d). p \<in> used \<or> p \<in> en_os env ` {..<d_mallocs d})) \<and>
     distinct (map fst (d_sends d))"

text \<open>What a step changes that only sends the packets \<open>texts\<close>.\<close>

definition sent :: "env \<Rightarrow> directory \<Rightarrow> directory \<Rightarrow> dir_out list \<Rightarrow> string list \<Rightarrow> bool" where
  "sent env d d' out texts \<longleftrightarrow>
     d_name d' = d_name d \<and> d_guid d' = d_guid d \<and> d_topics d' = d_topics d \<and>
     d_buffer d' = d_buffer d \<and> d_timer_active d' = d_timer_active d \<and>
     d_interval d' = d_interval d \<and> d_next_port d' = d_next_port d \<and>
     (\<exists>es. d_sends d' = d_sends d @ es \<and> out = map (\<lambda>(b, t). Send_To b t) es \<and> map snd es = texts) \<and>
     send_inv env d' \<and> env_ok env d'"

lemma sent_refl: "send_inv env d \<Longrightarrow> env_ok env d \<Longrightarrow> sent env d d [] []"
  by (simp add: sent_def)

lemma sent_trans:
  assumes "sent env d d1 o1 t1" and "sent env d1 d2 o2 t2"
  shows "sent env d d2 (o1 @ o2) (t1 @ t2)"
proof -
  obtain es es' where "d_sends d1 = d_sends d @ es" "o1 = map (\<lambda>(b, t). Send_To b t) es"
    "map snd es = t1" "d_sends d2 = d_sends d1 @ es'" "o2 = map (\<lambda>(b, t). Send_To b t) es'"
    "map snd es' = t2" using assms by (auto simp: sent_def)
  then have "\<exists>es. d_sends d2 = d_sends d @ es \<and> o1 @ o2 = map (\<lambda>(b, t). Send_To b t) es \<and>
      map snd es = t1 @ t2" by (intro exI [of _ "es @ es'"]) simp
  with assms show ?thesis unfolding sent_def by simp
qed

lemma sent_same:
  assumes "sent env d d' out texts"
  shows "d_guid d' = d_guid d" "d_topics d' = d_topics d" "d_buffer d' = d_buffer d"
    "d_timer_active d' = d_timer_active d" "d_interval d' = d_interval d"
    "send_inv env d'" "env_ok env d'"
  using assms by (auto simp: sent_def)

lemma dir_malloc_fresh:
  assumes "send_inv env d" and "env_ok env d" and "dir_malloc env d = (d1, buf)"
  shows "buf \<noteq> 0" and "buf \<notin> fst ` set (d_sends d)"
    and "d1 = d\<lparr>d_pool := d_pool d1, d_mallocs := d_mallocs d1\<rparr>" and "env_ok env d1"
    and "\<exists>used. pool_inv (d_pool d1) used \<and>
      (\<forall>p \<in> insert buf (fst ` set (d_sends d)). p \<in> used \<or> p \<in> en_os env ` {..<d_mallocs d1})"
proof -
  obtain used where used: "pool_inv (d_pool d) used"
    "\<forall>p \<in> fst ` set (d_sends d). p \<in> used \<or> p \<in> en_os env ` {..<d_mallocs d}"
    using assms(1) by (auto simp: send_inv_def)
  let ?os = "en_os env (d_mallocs d)"
  obtain p where m: "bp_malloc ?os (d_pool d) = (p, buf)"
    and d1: "d1 = d\<lparr>d_pool := p, d_mallocs := (if bp_empty (d_pool d) then Suc (d_mallocs d) else d_mallocs d)\<rparr>"
    using assms(3) by (auto simp: dir_malloc_def split: prod.splits)
  have os: "?os \<notin> pool_region (d_pool d)" using assms(2) by (auto simp: env_ok_def)
  show "d1 = d\<lparr>d_pool := d_pool d1, d_mallocs := d_mallocs d1\<rparr>" by (simp add: d1)
  have r: "if bp_empty (d_pool d) then p = d_pool d \<and> buf = ?os
         else buf \<in> pool_buffers (d_pool d) \<and> buf \<notin> used \<and> pool_inv p (insert buf used) \<and>
              free_list (d_pool d) = buf # free_list p"
    by (rule bp_malloc_inv [OF used(1) m])
  have sub: "pool_buffers (d_pool d) \<subseteq> pool_region (d_pool d)"
    using used(1) by (simp add: pool_inv_def pool_buffers_region)
  have p: "bp_pool p = bp_pool (d_pool d)" "pool_region p = pool_region (d_pool d)"
    using m by (auto simp: bp_malloc_def pool_region_def split: if_splits)
  then show "env_ok env d1" using assms(2) by (simp add: env_ok_def d1)
  show "buf \<noteq> 0" using r sub assms(2) by (force simp: env_ok_def pool_region_def split: if_splits)
  have "?os \<notin> en_os env ` {..<d_mallocs d}"
    using assms(2) by (auto simp: env_ok_def dest: injD)
  moreover have "?os \<notin> used"
    using used(1) sub os by (auto simp: pool_inv_def)
  moreover have "buf \<notin> en_os env ` {..<d_mallocs d}" if "buf \<in> pool_region (d_pool d)"
    using that assms(2) by (auto simp: env_ok_def)
  ultimately show "buf \<notin> fst ` set (d_sends d)"
    using r sub used(2) by (fastforce split: if_splits)
  show "\<exists>used. pool_inv (d_pool d1) used \<and>
      (\<forall>p \<in> insert buf (fst ` set (d_sends d)). p \<in> used \<or> p \<in> en_os env ` {..<d_mallocs d1})"
  proof (cases "bp_empty (d_pool d)")
    case True
    with r used show ?thesis by (intro exI [of _ used]) (auto simp: d1)
  next
    case False
    with r used show ?thesis by (intro exI [of _ "insert buf used"]) (auto simp: d1)
  qed
qed

lemma async_send_sent:
  assumes "send_inv env d" and "env_ok env d" and "dir_malloc env d = (d1, buf)"
    and "dir_async_send buf text d1 = (d2, out)"
  shows "sent env d d2 out [text]"
proof -
  note f = dir_malloc_fresh [OF assms(1-3)]
  have d2: "d2 = d1\<lparr>d_sends := d_sends d1 @ [(buf, text)]\<rparr>" and out: "out = [Send_To buf text]"
    using assms(4) by (auto simp: dir_async_send_def)
  have s1: "d_sends d1 = d_sends d" by (subst f(3)) simp
  have "send_inv env d2"
    using assms(1) f(2,5) by (simp add: send_inv_def d2 s1)
  moreover have "env_ok env d2" using f(4) by (simp add: env_ok_def d2)
  moreover have "d_name d1 = d_name d \<and> d_guid d1 = d_guid d \<and> d_topics d1 = d_topics d \<and>
      d_buffer d1 = d_buffer d \<and> d_timer_active d1 = d_timer_active d \<and>
      d_interval d1 = d_interval d \<and> d_next_port d1 = d_next_port d"
    by (subst f(3), simp)+
  ultimately show ?thesis
    unfolding sent_def by (auto simp: out d2 s1)
qed

lemma dir_malloc_guid: "dir_malloc env d = (d1, buf) \<Longrightarrow> d_guid d1 = d_guid d"
  by (auto simp: dir_malloc_def split: prod.splits)

lemma dir_send_ok:
  assumes "send_inv env d" and "env_ok env d"
    and "length (packet_text (d_guid d) command args) < EVENT_BUFFER_SIZE"
  shows "\<exists>d' out. dir_send env command args d = Inr (d', out) \<and>
    sent env d d' out [packet_text (d_guid d) command args]"
proof -
  obtain d1 buf where m: "dir_malloc env d = (d1, buf)" by fastforce
  note f = dir_malloc_fresh [OF assms(1,2) m]
  obtain d2 out where a: "dir_async_send buf (packet_text (d_guid d) command args) d1 = (d2, out)"
    by fastforce
  have "dir_send env command args d = Inr (d2, out)"
    using assms(3) f(1) a by (simp add: dir_send_def m dir_malloc_guid [OF m])
  with async_send_sent [OF assms(1,2) m a] show ?thesis by blast
qed

lemma send_each_ok:
  assumes "send_inv env d" and "env_ok env d"
    and "\<forall>args \<in> set infos. length (packet_text (d_guid d) command args) < EVENT_BUFFER_SIZE"
  shows "\<exists>d' out. send_each env command infos d = Inr (d', out) \<and>
    sent env d d' out (map (packet_text (d_guid d) command) infos)"
  using assms
proof (induction infos arbitrary: d)
  case (Cons args infos)
  then obtain d1 o1 where 1: "dir_send env command args d = Inr (d1, o1)"
    "sent env d d1 o1 [packet_text (d_guid d) command args]"
    using dir_send_ok [of env d command args] by auto
  note same = sent_same [OF 1(2)]
  then obtain d2 o2 where 2: "send_each env command infos d1 = Inr (d2, o2)"
    "sent env d1 d2 o2 (map (packet_text (d_guid d) command) infos)"
    using Cons.IH [of d1] Cons.prems by auto
  from sent_trans [OF 1(2) 2(2)] 1(1) 2(1) show ?case by simp
qed (simp add: sent_refl)

end
