(* ===== verification/Discovery.thy ===== *)
theory Discovery
  imports Directory
begin

text \<open>
  What the discovery protocol of \<open>Directory\<close> guarantees: no packet makes a directory read or write
  outside its buffers, throw or loop; an announcement is understood by every other directory;
  a search is answered with exactly the requested local topics; every missing topic is asked for,
  in packets that fit the buffer; the query timer backs off and never stops too early.
\<close>

section \<open>Invariants\<close>

definition dir_ok :: "env \<Rightarrow> directory \<Rightarrow> bool" where
  "dir_ok env d \<longleftrightarrow> store_ok (d_topics d) \<and> ts_my_guid (d_topics d) = d_guid d \<and>
     length (d_buffer d) = EVENT_BUFFER_SIZE + 1 \<and> send_inv env d \<and> env_ok env d"

text \<open>Announcements of the local topics fit a send buffer.\<close>

definition topics_fit :: "directory \<Rightarrow> bool" where
  "topics_fit d \<longleftrightarrow> (\<forall>(n, t) \<in> set (ts_local_topics (d_topics d)).
     length (packet_text (d_guid d) DISCOVERY_AVAILABLE (dt_info t)) < EVENT_BUFFER_SIZE)"

text \<open>What a search for \<open>name\<close> is answered with.\<close>

definition answers :: "directory \<Rightarrow> string \<Rightarrow> string list" where
  "answers d name =
     map (packet_text (d_guid d) DISCOVERY_AVAILABLE)
       (if name = [] then []
        else if name = ''*'' then map (\<lambda>e. dt_info (snd e)) (ts_local_topics (d_topics d))
        else case ts_findLocal name (d_topics d) of None \<Rightarrow> [] | Some t \<Rightarrow> [dt_info t])"

lemma answer_search_ok:
  assumes "send_inv env d" and "env_ok env d" and "topics_fit d"
  shows "\<exists>d' out. answer_search env name d = Inr (d', out) \<and> sent env d d' out (answers d name)"
proof -
  let ?infos = "map (\<lambda>e. dt_info (snd e)) (ts_local_topics (d_topics d))"
  have "\<forall>args \<in> set ?infos. length (packet_text (d_guid d) DISCOVERY_AVAILABLE args) < EVENT_BUFFER_SIZE"
    using assms(3) by (force simp: topics_fit_def)
  then obtain da oa where a: "send_each env DISCOVERY_AVAILABLE ?infos d = Inr (da, oa)"
    "sent env d da oa (map (packet_text (d_guid d) DISCOVERY_AVAILABLE) ?infos)"
    using send_each_ok [OF assms(1,2)] by blast
  have "\<exists>d' out. dir_send env DISCOVERY_AVAILABLE (dt_info t) d = Inr (d', out) \<and>
      sent env d d' out [packet_text (d_guid d) DISCOVERY_AVAILABLE (dt_info t)]"
    if "ts_findLocal name (d_topics d) = Some t" for t
  proof (rule dir_send_ok [OF assms(1,2)])
    show "length (packet_text (d_guid d) DISCOVERY_AVAILABLE (dt_info t)) < EVENT_BUFFER_SIZE"
      using assms(3) that by (auto simp: topics_fit_def ts_findLocal_def dest: map_of_SomeD)
  qed
  with a sent_refl [OF assms(1,2)] show ?thesis
    by (auto simp: answer_search_def answers_def split: option.splits)
qed

lemma topics_fit_sent: "sent env d d' out texts \<Longrightarrow> topics_fit d \<Longrightarrow> topics_fit d'"
  by (simp add: topics_fit_def sent_def)

lemma answers_sent: "sent env d d' out texts \<Longrightarrow> answers d' = answers d"
  by (simp add: answers_def sent_def fun_eq_iff)

lemma search_loop_step:
  assumes "char_at buf (base + pos) = Inr c" and "c \<noteq> NUL"
    and "nextToken buf base pos = Inr (buf', nxt)" and "cstr buf' (base + pos) = Inr name"
    and "answer_search env name d = Inr (d1, o1)"
  shows "search_loop env buf base pos d out = search_loop env buf' base nxt d1 (out @ o1)"
  using assms by (subst search_loop.simps) simp

lemma search_loop_stop:
  "char_at buf (base + pos) = Inr NUL \<Longrightarrow> search_loop env buf base pos d out = Some (Inr (buf, d, out))"
  by (subst search_loop.simps) simp

lemma search_loop_sealed:
  assumes "sealed e buf" and "base + pos \<le> e" and "e \<le> EVENT_BUFFER_SIZE"
    and "send_inv env d" and "env_ok env d" and "topics_fit d"
  shows "\<exists>buf' d' out' texts. search_loop env buf base pos d out = Some (Inr (buf', d', out @ out')) \<and>
    length buf' = length buf \<and> sent env d d' out' texts"
  using assms
proof (induction "e - pos" arbitrary: buf pos d out rule: less_induct)
  case less
  have at: "char_at buf (base + pos) = Inr (buf ! (base + pos))"
    using less.prems(1,2) by (auto simp: char_at_def sealed_def)
  show ?case
  proof (cases "buf ! (base + pos) = NUL")
    case True
    then show ?thesis
      using sent_refl [OF less.prems(4,5)] at by (auto simp: search_loop_stop)
  next
    case False
    then have lt: "base + pos < e" using less.prems(1,2) by (auto simp: sealed_def le_less)
    then obtain buf' nxt where n: "nextToken buf base pos = Inr (buf', nxt)" "sealed e buf'"
      "length buf' = length buf" "base + nxt \<le> e" "pos < nxt"
      using nextToken_sealed [OF less.prems(1,2)] False less.prems(3) by auto
    obtain name where name: "cstr buf' (base + pos) = Inr name"
      using cstr_sealed [OF n(2) less.prems(2)] by blast
    obtain d1 o1 where 1: "answer_search env name d = Inr (d1, o1)" "sent env d d1 o1 (answers d name)"
      using answer_search_ok [OF less.prems(4-6)] by blast
    note same = sent_same [OF 1(2)]
    have "e - nxt < e - pos" using n(4,5) lt by linarith
    then obtain buf'' d2 o2 texts where 2:
      "search_loop env buf' base nxt d1 (out @ o1) = Some (Inr (buf'', d2, (out @ o1) @ o2))"
      "length buf'' = length buf'" "sent env d1 d2 o2 texts"
      using less.hyps [of nxt buf' d1 "out @ o1"] n lt less.prems(3) same(6,7)
        topics_fit_sent [OF 1(2) less.prems(6)] by auto
    have "search_loop env buf base pos d out = Some (Inr (buf'', d2, out @ (o1 @ o2)))"
      using search_loop_step [OF at False n(1) name 1(1)] 2(1) by simp
    moreover have "length buf'' = length buf" using 2(2) n(3) by simp
    ultimately show ?thesis using sent_trans [OF 1(2) 2(3)] by blast
  qed
qed

text \<open>A packet of another node changes the topics only; sends keep them.\<close>

definition stepped :: "env \<Rightarrow> directory \<Rightarrow> directory \<Rightarrow> bool" where
  "stepped env d d' \<longleftrightarrow> store_ok (d_topics d') \<and> ts_my_guid (d_topics d') = d_guid d \<and>
     d_guid d' = d_guid d \<and> d_buffer d' = d_buffer d \<and> send_inv env d' \<and> env_ok env d' \<and>
     ts_local_topics (d_topics d') = ts_local_topics (d_topics d) \<and>
     ts_observers (d_topics d') = ts_observers (d_topics d) \<and>
     (d_timer_active d' \<or>
      \<not> d_timer_active d \<and> set (ts_getMissing (d_topics d')) \<subseteq> set (ts_getMissing (d_topics d)))"

lemma stepped_refl: "dir_ok env d \<Longrightarrow> stepped env d d"
  by (simp add: dir_ok_def stepped_def)

lemma stepped_sent: "dir_ok env d \<Longrightarrow> sent env d d' out texts \<Longrightarrow> stepped env d d'"
  by (auto simp: dir_ok_def stepped_def sent_def)

lemma send_inv_fields:
  "d_pool d' = d_pool d \<Longrightarrow> d_sends d' = d_sends d \<Longrightarrow> d_mallocs d' = d_mallocs d \<Longrightarrow>
     send_inv env d' = send_inv env d \<and> env_ok env d' = env_ok env d"
  by (simp add: send_inv_def env_ok_def)

lemma ts_add_missing:
  assumes "store_ok s" and "ts_add t s = Inr (s', cs, mine)"
  shows "set (ts_getMissing s') \<subseteq> set (ts_getMissing s)"
proof -
  note r = ts_add_result [OF assms]
  have "registered s' n g \<noteq> None" if "registered s n g \<noteq> None" for n g
    using that r(1) store_okD(3) [OF assms(1)] by (auto simp: registered_def omap_simps)
  then have "ts_hasTopic n s \<Longrightarrow> ts_hasTopic n s'" for n
    using hasTopic_iff [OF assms(1), of n] hasTopic_iff [OF ts_add_ok [OF assms], of n] by blast
  with r(4) show ?thesis by (auto simp: getMissing_set)
qed

lemma dir_add_peer:
  assumes "dir_ok env d" and "guid \<noteq> d_guid d" and "fromType type = Inr tname"
    and "t = \<lparr>dt_name = name, dt_timestamp = en_now env, dt_socketType = type,
      dt_address = address, dt_inputTypes = ins, dt_outputTypes = outs, dt_guid = guid,
      dt_info = name @ '' '' @ tname @ '' '' @ address @ '' '' @ writeTypes ins @ '' '' @ writeTypes outs\<rparr>"
  shows "\<exists>d' out. dir_add env name type address ins outs guid d = Inr (d', out, False) \<and>
    stepped env d d' \<and>
    registered (d_topics d') = (\<lambda>n g. if g = guid
      then view_op (Op_Add t) (\<lambda>n. registered (d_topics d) n g) n
      else registered (d_topics d) n g) \<and>
    out = map Called (if unchanged t (d_topics d) then []
      else callObservers (d_topics d) name (gmap (d_topics d') name))"
proof -
  let ?s = "d_topics d"
  have ok: "store_ok ?s" and me: "ts_my_guid ?s = d_guid d" using assms(1) by (auto simp: dir_ok_def)
  then obtain s' cs where a: "ts_apply (Op_Add t) ?s = Inr (s', cs)"
    using store.peer_succeeds [OF ok, of "Op_Add t"] assms(2,4) by auto
  then obtain mine where add: "ts_add t ?s = Inr (s', cs, mine)" by (auto split: prod.splits)
  note r = ts_add_result [OF ok add]
  have "\<not> mine" using r(5) me assms(2,4) by simp
  then have "dir_add env name type address ins outs guid d = Inr (d\<lparr>d_topics := s'\<rparr>, map Called cs, False)"
    using assms(3) add by (simp add: dir_add_def buildTopicInfo_def assms(4))
  moreover have "set (ts_getMissing s') \<subseteq> set (ts_getMissing ?s)"
    by (rule ts_add_missing [OF ok add])
  then have "stepped env d (d\<lparr>d_topics := s'\<rparr>)"
    using assms(1) ts_add_ok [OF ok add] r me \<open>\<not> mine\<close> send_inv_fields [of "d\<lparr>d_topics := s'\<rparr>" d]
    by (simp add: stepped_def dir_ok_def)
  ultimately show ?thesis
    using ts_apply_view [OF ok a] r(2) by (auto simp: fun_eq_iff assms(4))
qed

section \<open>No packet is dangerous\<close>

definition event_safe :: "env \<Rightarrow> directory \<Rightarrow> nat \<Rightarrow> event_step \<Rightarrow> bool" where
  "event_safe env d n r \<longleftrightarrow> (\<exists>buf' d' out. r = Inr (buf', d', out) \<and> length buf' = n \<and> stepped env d d')"

lemma event_safe_token:
  assumes "sealed e buf" and "base + pos \<le> e" and "length buf = n"
    and "\<And>buf' nxt. sealed e buf' \<Longrightarrow> length buf' = n \<Longrightarrow> base + nxt \<le> e \<Longrightarrow>
      event_safe env d n (f buf' nxt)"
  shows "event_safe env d n (and_then (nextToken buf base pos) (\<lambda>(buf', nxt). f buf' nxt))"
  using nextToken_sealed [OF assms(1,2)] assms(3,4) by force

lemma event_safe_cstr:
  assumes "sealed e buf" and "i \<le> e" and "\<And>str. event_safe env d n (f str)"
  shows "event_safe env d n (and_then (cstr buf i) f)"
  using cstr_sealed [OF assms(1,2)] assms(3) by force

lemma event_safe_if:
  "(c \<Longrightarrow> event_safe env d n a) \<Longrightarrow> (\<not> c \<Longrightarrow> event_safe env d n b) \<Longrightarrow> event_safe env d n (if c then a else b)"
  by simp

lemma event_safe_stop: "dir_ok env d \<Longrightarrow> length buf = n \<Longrightarrow> event_safe env d n (Inr (buf, d, []))"
  by (auto simp: event_safe_def stepped_refl)

lemma event_safe_add:
  assumes "dir_ok env d" and "guid \<noteq> d_guid d" and "\<not> fromName tname < 0" and "length buf = n"
  shows "event_safe env d n (and_then (dir_add env name (fromName tname) address ins outs guid d)
    (\<lambda>(d, out, _). Inr (buf, d, out)))"
proof -
  have "fromType (fromName tname) = Inr tname" using assms(3) by (intro fromName_fromType) simp
  from dir_add_peer [OF assms(1,2) this refl] assms(4) show ?thesis by (fastforce simp: event_safe_def)
qed

lemma discoveryAvailable_safe:
  assumes "dir_ok env d" and "guid \<noteq> d_guid d" and "sealed e buf" and "base \<le> e"
  shows "event_safe env d (length buf) (discoveryAvailable env guid buf base d)"
proof -
  have "base + 0 \<le> e" using assms(4) by simp
  note rules = event_safe_token event_safe_if event_safe_cstr event_safe_stop event_safe_add
    assms this refl
  show ?thesis
    unfolding discoveryAvailable_def Let_def by (rule rules | assumption)+
qed

lemma discoveryRemove_safe:
  assumes "dir_ok env d" and "guid \<noteq> d_guid d" and "sealed e buf" and "base \<le> e"
  shows "event_safe env d (length buf) (discoveryRemove guid buf base d)"
proof -
  have rest: "event_safe env d n (let (topics, calls, _) = ts_remove guid name (d_topics d);
      (d, out) = startQueryTimer (d\<lparr>d_topics := topics\<rparr>) in Inr (buf', d, map Called calls @ out))"
    if "length buf' = n" for buf' name n
  proof -
    obtain s' cs m where r: "ts_remove guid name (d_topics d) = (s', cs, m)" using prod_cases3 by blast
    have ok: "store_ok (d_topics d)" using assms(1) by (simp add: dir_ok_def)
    show ?thesis
      using assms(1,2) ts_remove_ok [OF ok r] ts_remove_result [OF ok r] that
        send_inv_fields [of "d\<lparr>d_topics := s', d_timer_active := True, d_interval := QUERY_INTERVAL\<rparr>" d]
      by (simp add: event_safe_def stepped_def dir_ok_def r startQueryTimer_def)
  qed
  have "base + 0 \<le> e" using assms(4) by simp
  note rules = event_safe_token event_safe_cstr assms rest this refl
  show ?thesis
    unfolding discoveryRemove_def by (rule rules | assumption)+
qed

lemma discoveryExit_safe:
  assumes "dir_ok env d" and "guid \<noteq> d_guid d"
  shows "event_safe env d (length buf) (discoveryExit guid buf d)"
proof -
  obtain s' cs where r: "ts_evict guid (d_topics d) = (s', cs)" by fastforce
  have ok: "store_ok (d_topics d)" and "guid \<noteq> ts_my_guid (d_topics d)"
    using assms by (auto simp: dir_ok_def)
  then show ?thesis
    using assms(1) ts_evict_ok [OF ok r] ts_evict_result [OF ok r]
      send_inv_fields [of "d\<lparr>d_topics := s', d_timer_active := True, d_interval := QUERY_INTERVAL\<rparr>" d]
    by (simp add: event_safe_def stepped_def dir_ok_def discoveryExit_def r startQueryTimer_def)
qed

lemma handle_command_safe:
  assumes "dir_ok env d" and "topics_fit d" and "guid \<noteq> d_guid d" and "sealed e buf" and "base \<le> e"
    and "e \<le> EVENT_BUFFER_SIZE"
  shows "\<exists>r. handle_command env command guid buf base d = Some r \<and> event_safe env d (length buf) r"
proof -
  have inv: "send_inv env d" "env_ok env d" using assms(1) by (auto simp: dir_ok_def)
  have "base + 0 \<le> e" using assms(5) by simp
  from search_loop_sealed [OF assms(4) this assms(6) inv assms(2), of "[]"]
  have "\<exists>r. discoverySearch env buf base d = Some r \<and> event_safe env d (length buf) r"
    using stepped_sent [OF assms(1)] by (fastforce simp: discoverySearch_def event_safe_def)
  then show ?thesis
    using discoveryAvailable_safe [OF assms(1,3-5)] discoveryRemove_safe [OF assms(1,3-5)]
      discoveryExit_safe [OF assms(1,3)] event_safe_stop [OF assms(1) refl]
    by (auto simp: handle_command_def)
qed

lemma handleEvent_safe:
  assumes "dir_ok env d" and "topics_fit d" and "sealed e buf" and "e \<le> EVENT_BUFFER_SIZE"
    and "length DISPATCH \<le> e \<or> take (length DISPATCH) buf \<noteq> DISPATCH"
  shows "\<exists>r. handleEvent env buf d = Some r \<and> event_safe env d (length buf) r"
proof (cases "take (length DISPATCH) buf \<noteq> DISPATCH")
  case True
  then show ?thesis using event_safe_stop [OF assms(1) refl] by (simp add: handleEvent_def)
next
  case False
  then have "0 + length DISPATCH \<le> e" using assms(5) by simp
  then obtain buf1 n1 where 1: "nextToken buf 0 (length DISPATCH) = Inr (buf1, n1)" "sealed e buf1"
    "length buf1 = length buf" "0 + n1 \<le> e" "length DISPATCH \<le> e"
    using nextToken_sealed [OF assms(3)] by fastforce
  obtain guid where g: "cstr buf1 (length DISPATCH) = Inr guid"
    using cstr_sealed [OF 1(2,5)] by blast
  obtain buf2 n2 where 2: "nextToken buf1 0 n1 = Inr (buf2, n2)" "sealed e buf2"
    "length buf2 = length buf1" "n2 \<le> e"
    using nextToken_sealed [OF 1(2,4)] by fastforce
  have c: "char_at buf2 n1 = Inr (buf2 ! n1)"
    using 1(4) 2(2) by (auto simp: char_at_def sealed_def)
  have eq: "handleEvent env buf d = (if guid \<noteq> d_guid d
      then handle_command env (buf2 ! n1) guid buf2 n2 d else Some (Inr (buf1, d, [])))"
    using False by (simp add: handleEvent_def 1(1) g 2(1) c)
  show ?thesis
  proof (cases "guid = d_guid d")
    case True
    then show ?thesis using event_safe_stop [OF assms(1) 1(3)] by (simp add: eq)
  next
    case False
    from handle_command_safe [OF assms(1,2) False 2(2,4) assms(4)] 2(3) 1(3) False
    show ?thesis by (simp add: eq)
  qed
qed

lemma dir_event_handled:
  assumes "dir_ok env d" and "topics_fit d" and "length packet \<le> EVENT_BUFFER_SIZE"
  shows "\<exists>buf' d' out. handleEvent env ((packet @ drop (length packet) (d_buffer d))[length packet := NUL]) d
      = Some (Inr (buf', d', out)) \<and> length buf' = EVENT_BUFFER_SIZE + 1 \<and> stepped env d d'"
proof -
  let ?buf = "packet @ drop (length packet) (d_buffer d)"
  have len: "length ?buf = EVENT_BUFFER_SIZE + 1" using assms(1,3) by (simp add: dir_ok_def)
  have lt: "length packet < length ?buf" using len assms(3) by linarith
  then have sealed: "sealed (length packet) (?buf[length packet := NUL])"
    by (simp add: sealed_def)
  have "length DISPATCH \<le> length packet \<or>
      take (length DISPATCH) (?buf[length packet := NUL]) \<noteq> DISPATCH"
  proof (rule disjCI)
    assume *: "\<not> take (length DISPATCH) (?buf[length packet := NUL]) \<noteq> DISPATCH"
    show "length DISPATCH \<le> length packet"
    proof (rule ccontr)
      assume "\<not> length DISPATCH \<le> length packet"
      then have "DISPATCH ! length packet = NUL"
        using * lt by (metis linorder_not_le nth_list_update_eq nth_take)
      moreover have "\<forall>c \<in> set DISPATCH. c \<noteq> NUL" by (simp add: DISPATCH_def)
      ultimately show False
        using \<open>\<not> length DISPATCH \<le> length packet\<close> by (metis linorder_not_le nth_mem)
    qed
  qed
  from handleEvent_safe [OF assms(1,2) sealed assms(3) this] len show ?thesis
    by (auto simp: event_safe_def)
qed

lemma dir_event_safe:
  assumes "dir_ok env d" and "topics_fit d" and "length packet \<le> EVENT_BUFFER_SIZE"
  shows "\<exists>d' out. dir_event env ec packet d = Some (Inr (d', out)) \<and> dir_ok env d' \<and> topics_fit d' \<and>
    d_guid d' = d_guid d \<and> last out = Receive"
proof -
  let ?buf = "packet @ drop (length packet) (d_buffer d)"
  have len: "length ?buf = EVENT_BUFFER_SIZE + 1" using assms(1,3) by (simp add: dir_ok_def)
  have lt: "length packet < length ?buf" using len assms(3) by linarith
  obtain buf' d' out where
    h: "handleEvent env (?buf[length packet := NUL]) d = Some (Inr (buf', d', out))"
    "length buf' = EVENT_BUFFER_SIZE + 1" "stepped env d d'"
    using dir_event_handled [OF assms] by blast
  have upd: "dir_ok env (d1\<lparr>d_buffer := b\<rparr>) \<and> topics_fit (d1\<lparr>d_buffer := b\<rparr>) \<and> d_guid d1 = d_guid d"
    if "stepped env d d1" "length b = EVENT_BUFFER_SIZE + 1" for d1 b
    using that assms(1,2) send_inv_fields [of "d1\<lparr>d_buffer := b\<rparr>" d1]
    by (simp add: dir_ok_def stepped_def topics_fit_def)
  show ?thesis
    using h lt len assms(1,2) upd [OF h(3,2)] upd [OF stepped_refl [OF assms(1)] len]
    by (auto simp: dir_event_def Let_def)
qed

section \<open>Announcements are understood\<close>

lemma cstr_here: "NUL \<notin> set w \<Longrightarrow> base + pos = length pre \<Longrightarrow> cstr (pre @ w @ NUL # rest) (base + pos) = Inr w"
  by (simp add: cstr_token)

lemma discoveryAvailable_words:
  assumes words: "wire_word name" "wire_word type" "wire_word address" "wire_word ins" "wire_word outs"
    and ne: "name \<noteq> []" "type \<noteq> []" "address \<noteq> []" "outs \<noteq> []"
    and base: "base = length pre"
    and short: "length (name @ type @ address @ ins @ outs) + 4 < EVENT_BUFFER_SIZE"
  shows "discoveryAvailable env guid
      (pre @ name @ CHR '' '' # type @ CHR '' '' # address @ CHR '' '' # ins @ CHR '' '' # outs @ NUL # rest)
      base d =
    (let buf' = pre @ name @ NUL # type @ NUL # address @ NUL # ins @ NUL # outs @ NUL # rest in
     if \<not> onNetwork (en_inet_addr env) (en_own env) (ad_ip (Address_parse address)) then Inr (buf', d, [])
     else if fromName type < 0 then Inr (buf', d, [])
     else and_then (dir_add env name (fromName type) address (parseTypes [] ins) (parseTypes [] outs) guid d)
       (\<lambda>(d, out, _). Inr (buf', d, out)))"
proof -
  let ?p1 = "pre @ name @ [NUL]" let ?p2 = "?p1 @ type @ [NUL]" let ?p3 = "?p2 @ address @ [NUL]"
  let ?p4 = "?p3 @ ins @ [NUL]"
  let ?n1 = "length name + 1" let ?n2 = "?n1 + length type + 1"
  let ?n3 = "?n2 + length address + 1" let ?n4 = "?n3 + length ins + 1"
  have nul: "NUL \<notin> set name" "NUL \<notin> set type" "NUL \<notin> set address" "NUL \<notin> set ins" "NUL \<notin> set outs"
    using words by (auto simp: wire_word_def)
  note t1 = nextToken_word [OF words(1), of base 0 pre
      "type @ CHR '' '' # address @ CHR '' '' # ins @ CHR '' '' # outs @ NUL # rest"]
  note t2 = nextToken_word [OF words(2), of base ?n1 ?p1
      "address @ CHR '' '' # ins @ CHR '' '' # outs @ NUL # rest"]
  note t3 = nextToken_word [OF words(3), of base ?n2 ?p2 "ins @ CHR '' '' # outs @ NUL # rest"]
  note t4 = nextToken_word [OF words(4), of base ?n3 ?p3 "outs @ NUL # rest"]
  note t5 = nextToken_last [OF words(5), of base ?n4 ?p4 rest]
  note c1 = cstr_here [OF nul(1), of base 0 pre
      "type @ CHR '' '' # address @ CHR '' '' # ins @ CHR '' '' # outs @ NUL # rest"]
  note c2 = cstr_here [OF nul(2), of base ?n1 ?p1
      "address @ CHR '' '' # ins @ CHR '' '' # outs @ NUL # rest"]
  note c3 = cstr_here [OF nul(3), of base ?n2 ?p2 "ins @ CHR '' '' # outs @ NUL # rest"]
  note c4 = cstr_here [OF nul(4), of base ?n3 ?p3 "outs @ NUL # rest"]
  note c5 = cstr_here [OF nul(5), of base ?n4 ?p4 rest]
  show ?thesis
    using t1 t2 t3 t4 t5 c1 c2 c3 c4 c5 short ne
    by (simp add: discoveryAvailable_def base add.assoc Let_def)
qed

lemma handleEvent_packet:
  assumes "wire_word g" and "g \<noteq> d_guid d" and "wire_word [c]"
    and "length DISPATCH + length g + 2 < EVENT_BUFFER_SIZE"
  shows "handleEvent env (DISPATCH @ g @ '' '' @ [c] @ '' '' @ args @ NUL # rest) d =
      handle_command env c g (DISPATCH @ g @ [NUL] @ [c] @ [NUL] @ args @ NUL # rest)
        (length DISPATCH + length g + 3) d"
    and "handleEvent env (DISPATCH @ g @ '' '' @ [c] @ NUL # rest) d =
      handle_command env c g (DISPATCH @ g @ [NUL] @ [c] @ NUL # rest)
        (length DISPATCH + length g + 2) d"
proof -
  have nul: "NUL \<notin> set g" using assms(1) by (simp add: wire_word_def)
  show "handleEvent env (DISPATCH @ g @ '' '' @ [c] @ '' '' @ args @ NUL # rest) d =
      handle_command env c g (DISPATCH @ g @ [NUL] @ [c] @ [NUL] @ args @ NUL # rest)
        (length DISPATCH + length g + 3) d"
    using assms(2,4)
      nextToken_word [OF assms(1), of 0 "length DISPATCH" DISPATCH "[c] @ '' '' @ args @ NUL # rest"]
      nextToken_word [OF assms(3), of 0 "length DISPATCH + length g + 1" "DISPATCH @ g @ [NUL]"
        "args @ NUL # rest"]
      cstr_token [OF nul, of "length DISPATCH" DISPATCH "[c] @ '' '' @ args @ NUL # rest"]
      char_at_index(1) [of "DISPATCH @ g @ [NUL]" c "NUL # args @ NUL # rest"]
    by (simp add: handleEvent_def numeral_3_eq_3)
  show "handleEvent env (DISPATCH @ g @ '' '' @ [c] @ NUL # rest) d =
      handle_command env c g (DISPATCH @ g @ [NUL] @ [c] @ NUL # rest)
        (length DISPATCH + length g + 2) d"
    using assms(2,4)
      nextToken_word [OF assms(1), of 0 "length DISPATCH" DISPATCH "[c] @ NUL # rest"]
      nextToken_last [OF assms(3), of 0 "length DISPATCH + length g + 1" "DISPATCH @ g @ [NUL]" rest]
      cstr_token [OF nul, of "length DISPATCH" DISPATCH "[c] @ NUL # rest"]
      char_at_index(1) [of "DISPATCH @ g @ [NUL]" c "NUL # rest"]
    by (simp add: handleEvent_def)
qed

lemma dir_event_packet:
  assumes "list_all isprint packet" and "length packet < EVENT_BUFFER_SIZE"
    and "length (d_buffer d) = EVENT_BUFFER_SIZE + 1"
    and "handleEvent env (packet @ NUL # drop (Suc (length packet)) (d_buffer d)) d = Some (Inr (buf', d', out))"
  shows "dir_event env False packet d = Some (Inr (d'\<lparr>d_buffer := buf'\<rparr>, out @ [Receive]))"
proof -
  have "(packet @ drop (length packet) (d_buffer d))[length packet := NUL]
      = packet @ NUL # drop (Suc (length packet)) (d_buffer d)"
    using assms(2,3) by (simp add: list_update_append Cons_nth_drop_Suc [symmetric])
  then show ?thesis using assms by (simp add: dir_event_def Let_def)
qed

lemma search_loop_last:
  assumes "wire_word w" and "base + pos = length pre" and "pos + length w < EVENT_BUFFER_SIZE"
    and "send_inv env d" and "env_ok env d" and "topics_fit d"
  shows "\<exists>d' out'. search_loop env (pre @ w @ NUL # rest) base pos d out = Some (Inr (pre @ w @ NUL # rest, d', out @ out')) \<and>
    sent env d d' out' (answers d w)"
proof -
  let ?buf = "pre @ w @ NUL # rest"
  obtain d1 o1 where a: "answer_search env w d = Inr (d1, o1)" "sent env d d1 o1 (answers d w)"
    using answer_search_ok [OF assms(4-6)] by blast
  have w: "wire_word w" "NUL \<notin> set w" using assms(1) by (auto simp: wire_word_def)
  have t: "nextToken ?buf base pos = Inr (?buf, pos + length w)"
    using assms(2,3) by (intro nextToken_last w) auto
  have c: "cstr ?buf (base + pos) = Inr w" using assms(2) w by (intro cstr_here) auto
  have at: "char_at ?buf (base + pos) = Inr (case w of [] \<Rightarrow> NUL | x # _ \<Rightarrow> x)"
    using assms(2) char_at_index(1) [of pre] by (cases w) auto
  have "char_at ?buf (base + (pos + length w)) = Inr NUL"
    using assms(2) char_at_index(1) [of "pre @ w" NUL rest] by (simp add: add.assoc [symmetric])
  then have stop: "search_loop env ?buf base (pos + length w) d1 out' = Some (Inr (?buf, d1, out'))"
    for out' by (rule search_loop_stop)
  show ?thesis
  proof (cases w)
    case Nil
    have "answers d w = []" by (simp add: Nil answers_def)
    then show ?thesis
      using at sent_refl [OF assms(4,5)] by (auto simp: Nil search_loop_stop)
  next
    case (Cons x xs)
    then have "char_at ?buf (base + pos) = Inr x" "x \<noteq> NUL" using at w by auto
    then have "search_loop env ?buf base pos d out = Some (Inr (?buf, d1, out @ o1))"
      using search_loop_step [OF _ _ t c a(1)] stop by simp
    with a show ?thesis by auto
  qed
qed

lemma search_loop_words:
  assumes "\<forall>w \<in> set names. wire_word w" and "base + pos = length pre"
    and "pos + length (joined (CHR '' '') names) < EVENT_BUFFER_SIZE"
    and "send_inv env d" and "env_ok env d" and "topics_fit d"
  shows "\<exists>buf' d' out'.
    search_loop env (pre @ joined (CHR '' '') names @ NUL # rest) base pos d out
      = Some (Inr (buf', d', out @ out')) \<and> sent env d d' out' (concat (map (answers d) names))"
  using assms
proof (induction names arbitrary: pre pos d out rule: induct_list012)
  case 1
  then show ?case
    using char_at_index(1) [of pre NUL rest] sent_refl by (auto simp: search_loop_stop)
next
  case (2 w)
  then show ?case using search_loop_last [of w base pos pre env d rest out] by fastforce
next
  case (3 w w2 ws)
  let ?tail = "joined (CHR '' '') (w2 # ws) @ NUL # rest"
  let ?buf = "pre @ w @ CHR '' '' # ?tail" and ?buf' = "(pre @ w @ [NUL]) @ ?tail"
  obtain d1 o1 where a: "answer_search env w d = Inr (d1, o1)" "sent env d d1 o1 (answers d w)"
    using answer_search_ok [OF 3(6-8)] by blast
  note same = sent_same [OF a(2)]
  have w: "wire_word w" "NUL \<notin> set w" using 3(3) by (auto simp: wire_word_def)
  have t: "nextToken ?buf base pos = Inr (?buf', pos + length w + 1)"
    using nextToken_word [OF w(1), of base pos pre ?tail] 3(4,5) by simp
  have c: "cstr ?buf' (base + pos) = Inr w" using cstr_here [OF w(2), of base pos pre ?tail] 3(4) by simp
  have at: "char_at ?buf (base + pos) = Inr (hd (w @ '' ''))" unfolding 3(4) by (cases w) simp_all
  have "hd (w @ '' '') \<noteq> NUL" using w(2) by (cases w) auto
  note at = at this
  obtain buf'' d2 o2 where ih: "search_loop env ?buf' base (pos + length w + 1) d1 (out @ o1)
      = Some (Inr (buf'', d2, (out @ o1) @ o2))" "sent env d1 d2 o2 (concat (map (answers d1) (w2 # ws)))"
    using 3(2) [of "pos + length w + 1" "pre @ w @ [NUL]" d1 "out @ o1"] 3(3-5) same
      topics_fit_sent [OF a(2) 3(8)] by auto
  have "search_loop env ?buf base pos d out = Some (Inr (buf'', d2, out @ o1 @ o2))"
    using search_loop_step [OF at t c a(1)] ih(1) by simp
  moreover have "sent env d d2 (o1 @ o2) (concat (map (answers d) (w # w2 # ws)))"
    using sent_trans [OF a(2) ih(2)] answers_sent [OF a(2)] by simp
  ultimately show ?case by auto
qed

section \<open>Queries\<close>

definition query_text :: "string \<Rightarrow> string list \<Rightarrow> string" where
  "query_text guid names = packet_text guid DISCOVERY_SEARCH [] @ concat (map (\<lambda>n. CHR '' '' # n) names)"

lemma length_packet_text_Nil: "length (packet_text g c []) = length DISPATCH + length g + 2"
  by (simp add: packet_text_def)

lemma concat_blanks: "concat (map (\<lambda>n. CHR '' '' # n) (n # ns)) = CHR '' '' # joined (CHR '' '') (n # ns)"
proof (induction ns arbitrary: n)
  case (Cons a ns)
  have "concat (map (\<lambda>n. CHR '' '' # n) (n # a # ns)) = CHR '' '' # n @ concat (map (\<lambda>n. CHR '' '' # n) (a # ns))"
    by simp
  also have "\<dots> = CHR '' '' # joined (CHR '' '') (n # a # ns)" unfolding Cons.IH by simp
  finally show ?case .
qed simp

lemma query_text_words:
  "query_text g (n # ns) = DISPATCH @ g @ '' '' @ [DISCOVERY_SEARCH] @ '' '' @ joined (CHR '' '') (n # ns)"
  unfolding query_text_def concat_blanks by (simp add: packet_text_def)

text \<open>How the requested names are grouped into packets.\<close>

definition grouped :: "string \<Rightarrow> string list \<Rightarrow> string list list \<Rightarrow> bool" where
  "grouped guid names groups \<longleftrightarrow> concat groups = names \<and>
     (\<forall>g \<in> set groups. 1 \<le> length g \<and> length g \<le> 4 \<and> length (query_text guid g) < EVENT_BUFFER_SIZE)"

text \<open>A full packet is sent and a new one begun.\<close>

lemma query_loop_flush:
  assumes "length (query_text g grp) + 1 + length n \<ge> EVENT_BUFFER_SIZE \<or> count \<ge> 4"
    and "dir_async_send buf (query_text g grp) d = (d1, o1)" and "dir_malloc env d1 = (d2, new)" and "new \<noteq> 0"
    and "d_guid d2 = g" and "length (query_text g [n]) < EVENT_BUFFER_SIZE"
    and "query_loop env (Some (new, query_text g [n])) 1 names d2 = Inr (d', out)"
  shows "query_loop env (Some (buf, query_text g grp)) count (n # names) d = Inr (d', o1 @ out)"
proof -
  have qt: "packet_text g DISCOVERY_SEARCH [] @ '' '' @ n = query_text g [n]" by (simp add: query_text_def)
  have "length (packet_text g DISCOVERY_SEARCH []) < EVENT_BUFFER_SIZE" using assms(6) unfolding qt [symmetric] by simp
  with assms show ?thesis by (simp add: qt [symmetric])
qed

lemma query_loop_current:
  assumes "send_inv env d0" and "env_ok env d0" and "dir_malloc env d0 = (d, buf)"
    and "count = length grp" and "1 \<le> count" and "count \<le> 4"
    and "length (query_text (d_guid d) grp) < EVENT_BUFFER_SIZE"
    and "\<forall>n \<in> set names. length (query_text (d_guid d) [n]) < EVENT_BUFFER_SIZE"
  shows "\<exists>d' out groups.
    query_loop env (Some (buf, query_text (d_guid d) grp)) count names d = Inr (d', out) \<and>
    sent env d0 d' out (map (query_text (d_guid d)) groups) \<and> grouped (d_guid d) (grp @ names) groups"
  using assms
proof (induction names arbitrary: d0 d buf count grp)
  case Nil
  obtain d' out where a: "dir_async_send buf (query_text (d_guid d) grp) d = (d', out)" by fastforce
  have "length DISPATCH + length (d_guid d) + 2 < length (query_text (d_guid d) grp)"
    using Nil(4,5) by (cases grp) (auto simp: query_text_def length_packet_text_Nil)
  then have "query_loop env (Some (buf, query_text (d_guid d) grp)) count [] d = Inr (d', out)"
    by (simp add: a)
  moreover have "sent env d0 d' out (map (query_text (d_guid d)) [grp])"
    using async_send_sent [OF Nil(1-3) a] by simp
  moreover have "grouped (d_guid d) (grp @ []) [grp]" using Nil by (simp add: grouped_def)
  ultimately show ?case by blast
next
  case (Cons n names)
  let ?g = "d_guid d"
  note guid = dir_malloc_guid [OF Cons.prems(3)]
  show ?case
  proof (cases "length (query_text ?g grp) + 1 + length n \<ge> EVENT_BUFFER_SIZE \<or> count \<ge> 4")
    case False
    have qt: "query_text ?g grp @ '' '' @ n = query_text ?g (grp @ [n])"
      by (simp add: query_text_def)
    have short: "length (query_text ?g (grp @ [n])) < EVENT_BUFFER_SIZE"
      using False unfolding qt [symmetric] by simp
    obtain d' out groups where ih:
      "query_loop env (Some (buf, query_text ?g (grp @ [n]))) (count + 1) names d = Inr (d', out)"
      "sent env d0 d' out (map (query_text ?g) groups)" "grouped ?g ((grp @ [n]) @ names) groups"
      using Cons.IH [OF Cons.prems(1-3), of "count + 1" "grp @ [n]"] Cons.prems(4-8) False short
      by auto
    have "query_loop env (Some (buf, query_text ?g grp)) count (n # names) d = Inr (d', out)"
      using False Cons.prems(7) short ih(1) by (simp add: qt [symmetric])
    with ih show ?thesis by auto
  next
    case True
    obtain d1 o1 where a: "dir_async_send buf (query_text ?g grp) d = (d1, o1)" by fastforce
    note sent1 = async_send_sent [OF Cons.prems(1-3) a]
    note same = sent_same [OF sent1]
    obtain d2 new where m: "dir_malloc env d1 = (d2, new)" by fastforce
    have g2: "d_guid d2 = ?g" using dir_malloc_guid [OF m] same(1) guid by simp
    have new: "new \<noteq> 0" by (rule dir_malloc_fresh(1) [OF same(6,7) m])
    have short: "length (query_text ?g [n]) < EVENT_BUFFER_SIZE" using Cons.prems(8) by simp
    obtain d' out groups where ih:
      "query_loop env (Some (new, query_text ?g [n])) 1 names d2 = Inr (d', out)"
      "sent env d1 d' out (map (query_text ?g) groups)" "grouped ?g ([n] @ names) groups"
      using Cons.IH [OF same(6,7) m, of 1 "[n]"] Cons.prems(8) short g2 by auto
    have "query_loop env (Some (buf, query_text ?g grp)) count (n # names) d = Inr (d', o1 @ out)"
      by (rule query_loop_flush [OF True a m new g2 short ih(1)])
    moreover have "grouped ?g (grp @ n # names) (grp # groups)"
      using ih(3) Cons.prems(4-7) by (simp add: grouped_def)
    ultimately show ?thesis
      using sent_trans [OF sent1 ih(2)] by (metis list.simps(9) append_Cons append_Nil)
  qed
qed

lemma query_loop_groups:
  assumes "send_inv env d" and "env_ok env d" and "names \<noteq> []"
    and "\<forall>n \<in> set names. length (query_text (d_guid d) [n]) < EVENT_BUFFER_SIZE"
  shows "\<exists>d' out groups. query_loop env None 0 names d = Inr (d', out) \<and>
    sent env d d' out (map (query_text (d_guid d)) groups) \<and> grouped (d_guid d) names groups"
proof -
  obtain n ns where names: "names = n # ns" using assms(3) by (cases names) auto
  obtain d1 buf where m: "dir_malloc env d = (d1, buf)" by fastforce
  note g = dir_malloc_guid [OF m] and new = dir_malloc_fresh(1) [OF assms(1,2) m]
  have qt: "packet_text (d_guid d) DISCOVERY_SEARCH [] @ '' '' @ n = query_text (d_guid d) [n]"
    by (simp add: query_text_def)
  have short: "length (query_text (d_guid d) [n]) < EVENT_BUFFER_SIZE" using assms(4) names by simp
  then have short0: "length (packet_text (d_guid d) DISCOVERY_SEARCH []) < EVENT_BUFFER_SIZE"
    unfolding qt [symmetric] by simp
  obtain d' out groups where
    "query_loop env (Some (buf, query_text (d_guid d) [n])) 1 ns d1 = Inr (d', out)"
    "sent env d d' out (map (query_text (d_guid d)) groups)" "grouped (d_guid d) ([n] @ ns) groups"
    using query_loop_current [OF assms(1,2) m, of 1 "[n]" ns] short assms(4) g names by auto
  moreover from this have "query_loop env None 0 names d = Inr (d', out)"
    using new short short0 by (simp add: names m g qt [symmetric])
  ultimately show ?thesis by (auto simp: names)
qed

text \<open>A query that does not overflow its buffer has names that fit.\<close>

lemma query_loop_fits:
  assumes "query_loop env cur count names d = Inr r"
    and "case cur of None \<Rightarrow> True | Some (buf, tx) \<Rightarrow> length DISPATCH + length (d_guid d) + 2 \<le> length tx"
  shows "\<forall>n \<in> set names. length (query_text (d_guid d) [n]) < EVENT_BUFFER_SIZE"
  using assms
proof (induction names arbitrary: cur count d r)
  case (Cons n names)
  let ?g = "d_guid d"
  define flush where "flush = (case cur of None \<Rightarrow> True | Some (buf, tx) \<Rightarrow>
    length tx + 1 + length n \<ge> EVENT_BUFFER_SIZE \<or> count \<ge> 4)"
  have q: "length (query_text ?g [n]) = length DISPATCH + length ?g + 2 + 1 + length n"
    by (simp add: query_text_def packet_text_def)
  show ?case
  proof (cases flush)
    case True
    define d1 where "d1 = (case cur of Some (buf, tx) \<Rightarrow> fst (dir_async_send buf tx d) | None \<Rightarrow> d)"
    obtain d2 new where m: "dir_malloc env d1 = (d2, new)" by fastforce
    have g2: "d_guid d2 = ?g"
      using dir_malloc_guid [OF m] by (auto simp: d1_def dir_async_send_def split: option.splits)
    have "length (packet_text ?g DISCOVERY_SEARCH [] @ '' '' @ n) + 1 \<le> EVENT_BUFFER_SIZE \<and>
      (\<exists>r'. query_loop env (Some (new, packet_text ?g DISCOVERY_SEARCH [] @ '' '' @ n)) 1 names d2 = Inr r')"
      using Cons.prems(1) True g2 m
      by (cases cur) (auto simp: flush_def d1_def dir_async_send_def Let_def split: prod.splits if_splits)
    then show ?thesis
      using Cons.IH [of _ 1 d2] g2 q by (fastforce simp: packet_text_def)
  next
    case False
    then obtain buf tx where some: "cur = Some (buf, tx)"
      by (auto simp: flush_def split: option.splits)
    then have "length tx + 1 + length n < EVENT_BUFFER_SIZE" using False by (simp add: flush_def)
    note cur = some this
    have "\<exists>r'. query_loop env (Some (buf, tx @ '' '' @ n)) (count + 1) names d = Inr r'"
      using Cons.prems(1) False by (auto simp: cur flush_def split: if_splits)
    then have "\<forall>k \<in> set names. length (query_text ?g [k]) < EVENT_BUFFER_SIZE"
      using Cons.IH [of "Some (buf, tx @ '' '' @ n)" "count + 1" d] Cons.prems(2) by (auto simp: cur)
    moreover have "length (query_text ?g [n]) < EVENT_BUFFER_SIZE"
      using cur Cons.prems(2) by (simp add: q)
    ultimately show ?thesis by simp
  qed
qed simp

section \<open>Completion of sends and timer rounds\<close>

lemma dir_sent_inv:
  assumes "send_inv env d" and "env_ok env d" and "dir_sent buf ec bytes d = (d', out)"
  shows "send_inv env d' \<and> env_ok env d'"
proof (cases "map_of (d_sends d) buf")
  case None
  with assms show ?thesis by (simp add: dir_sent_def)
next
  case (Some data)
  let ?rest = "filter (\<lambda>e. fst e \<noteq> buf) (d_sends d)"
  obtain used where used: "pool_inv (d_pool d) used"
    "\<forall>p \<in> fst ` set (d_sends d). p \<in> used \<or> p \<in> en_os env ` {..<d_mallocs d}"
    and dist: "distinct (map fst (d_sends d))"
    using assms(1) by (auto simp: send_inv_def)
  have "buf \<in> fst ` set (d_sends d)" using Some by (force dest: map_of_SomeD)
  then have buf: "buf \<in> used \<or> buf \<notin> pool_region (d_pool d)" "buf \<in> used \<or> buf \<in> en_os env ` {..<d_mallocs d}"
    using used(2) assms(2) by (auto simp: env_ok_def)
  have rest: "buf \<notin> fst ` set ?rest" "distinct (map fst ?rest)" "fst ` set ?rest \<subseteq> fst ` set (d_sends d)"
    using dist by (auto simp: distinct_map_filter)
  have free: "pool_inv (fst (bp_free buf (d_pool d))) (used - {buf})"
    "pool_region (fst (bp_free buf (d_pool d))) = pool_region (d_pool d)"
    "bp_pool (fst (bp_free buf (d_pool d))) = bp_pool (d_pool d)"
    using bpool.release_ok [OF used(1) buf(1)] by (auto simp: bp_free_def)
  have d': "d_mallocs d' = d_mallocs d" using assms(3) Some
    by (auto simp: dir_sent_def dir_async_send_def Let_def split: if_splits)
  show ?thesis
  proof (cases "\<not> ec \<and> \<not> bytes < length data")
    case True
    then have "d_pool d' = fst (bp_free buf (d_pool d))" "d_sends d' = ?rest"
      using assms(3) Some by (auto simp: dir_sent_def)
    moreover have "\<forall>p \<in> fst ` set ?rest. p \<in> used - {buf} \<or> p \<in> en_os env ` {..<d_mallocs d}"
      using used(2) rest by blast
    ultimately show ?thesis
      using free rest assms(2) d' unfolding send_inv_def env_ok_def by auto
  next
    case False
    then have "d_pool d' = d_pool d" "d_sends d' = ?rest \<or> (\<exists>t. d_sends d' = ?rest @ [(buf, t)])"
      using assms(3) Some by (auto simp: dir_sent_def dir_async_send_def Let_def split: if_splits)
    moreover have "\<forall>p \<in> insert buf (fst ` set ?rest). p \<in> used \<or> p \<in> en_os env ` {..<d_mallocs d}"
      using used(2) rest(3) buf(2) by blast
    ultimately show ?thesis
      using used(1) rest assms(2) d' unfolding send_inv_def env_ok_def by auto
  qed
qed

lemma queryMissing_step:
  assumes "dir_ok env d" and "ts_getMissing (d_topics d) \<noteq> []"
    and "\<forall>n \<in> set (ts_getMissing (d_topics d)). length (query_text (d_guid d) [n]) < EVENT_BUFFER_SIZE"
    and "d_interval d \<le> QUERY_INTERVAL_MAX"
  shows "\<exists>d' out groups. queryMissingTopics env False d = Inr (d', Timer_Wait (d_interval d) # out) \<and>
    sent env (d\<lparr>d_interval := min QUERY_INTERVAL_MAX (d_interval d * 2)\<rparr>) d' out
      (map (query_text (d_guid d)) groups) \<and>
    grouped (d_guid d) (ts_getMissing (d_topics d)) groups"
proof -
  let ?d = "d\<lparr>d_interval := min QUERY_INTERVAL_MAX (d_interval d * 2)\<rparr>"
  have inv: "send_inv env ?d" "env_ok env ?d"
    using assms(1) by (auto simp: dir_ok_def send_inv_def env_ok_def)
  obtain d' out groups where q: "query_loop env None 0 (ts_getMissing (d_topics d)) ?d = Inr (d', out)"
    "sent env ?d d' out (map (query_text (d_guid d)) groups)"
    "grouped (d_guid d) (ts_getMissing (d_topics d)) groups"
    using query_loop_groups [OF inv assms(2)] assms(3) by auto
  have "(if (if d_interval d < QUERY_INTERVAL_MAX then d_interval d * QUERY_INTERVAL_MULT else d_interval d)
          > QUERY_INTERVAL_MAX then QUERY_INTERVAL_MAX
        else (if d_interval d < QUERY_INTERVAL_MAX then d_interval d * QUERY_INTERVAL_MULT else d_interval d))
      = min QUERY_INTERVAL_MAX (d_interval d * 2)"
    using assms(4) by auto
  with q assms(2) show ?thesis by (auto simp: queryMissingTopics_def Let_def)
qed

text \<open>The timer firing \<open>k\<close> times in a row.\<close>

fun query_rounds :: "env \<Rightarrow> nat \<Rightarrow> directory \<Rightarrow> dir_step" where
  "query_rounds env 0 d = Inr (d, [])"
| "query_rounds env (Suc k) d =
     and_then (queryMissingTopics env False d) (\<lambda>(d, out).
     and_then (query_rounds env k d) (\<lambda>(d, out'). Inr (d, out @ out')))"

fun waits :: "dir_out list \<Rightarrow> nat list" where
  "waits [] = []"
| "waits (Timer_Wait ms # out) = ms # waits out"
| "waits (_ # out) = waits out"

lemma waits_append: "waits (a @ b) = waits a @ waits b"
  by (induction a rule: waits.induct) auto

lemma waits_sends: "waits (map (\<lambda>(b, t). Send_To b t) es) = []"
  by (induction es) auto

lemma sent_waits: "sent env d d' out texts \<Longrightarrow> waits out = []"
  by (auto simp: sent_def waits_sends)

lemma query_rounds_waits:
  assumes "dir_ok env d" and "ts_getMissing (d_topics d) \<noteq> []"
    and "\<forall>n \<in> set (ts_getMissing (d_topics d)). length (query_text (d_guid d) [n]) < EVENT_BUFFER_SIZE"
    and "d_interval d = min QUERY_INTERVAL_MAX (QUERY_INTERVAL * 2 ^ j)"
  shows "\<exists>d' out. query_rounds env k d = Inr (d', out) \<and>
    waits out = map (\<lambda>i. min QUERY_INTERVAL_MAX (QUERY_INTERVAL * 2 ^ (j + i))) [0..<k]"
  using assms
proof (induction k arbitrary: d j)
  case (Suc k)
  have "d_interval d \<le> QUERY_INTERVAL_MAX" by (simp add: Suc.prems(4))
  then obtain d1 o1 groups where 1: "queryMissingTopics env False d = Inr (d1, Timer_Wait (d_interval d) # o1)"
    "sent env (d\<lparr>d_interval := min QUERY_INTERVAL_MAX (d_interval d * 2)\<rparr>) d1 o1
      (map (query_text (d_guid d)) groups)"
    using queryMissing_step [OF Suc.prems(1-3)] by blast
  have "dir_ok env d1" using Suc.prems(1) 1(2) by (auto simp: dir_ok_def sent_def)
  moreover have "d_interval d1 = min QUERY_INTERVAL_MAX (QUERY_INTERVAL * 2 ^ Suc j)"
    using sent_same(5) [OF 1(2)] Suc.prems(4) by (auto simp: min_def)
  ultimately obtain d2 o2 where 2: "query_rounds env k d1 = Inr (d2, o2)"
    "waits o2 = map (\<lambda>i. min QUERY_INTERVAL_MAX (QUERY_INTERVAL * 2 ^ (Suc j + i))) [0..<k]"
    using Suc.IH [of d1 "Suc j"] Suc.prems(2,3) sent_same [OF 1(2)] by auto
  have "[0..<Suc k] = 0 # map Suc [0..<k]" by (simp add: map_Suc_upt upt_conv_Cons del: upt_Suc)
  then show ?case
    using 1 2 sent_waits [OF 1(2)] Suc.prems(4)
    by (auto simp: waits_append comp_def simp del: upt_Suc)
qed simp

section \<open>An example node\<close>

definition example_env :: env where
  "example_env = \<lparr>en_os = (\<lambda>k. 1000000 + k), en_inet_addr = (\<lambda>_. 0),
     en_own = \<lparr>own_address = ''10.0.0.7'', own_broadcast = ''10.0.0.255'', own_netmask = ''255.255.255.0'',
       own_network = 0, own_mask = 0x00FFFFFF, own_interface = ''eth0''\<rparr>, en_now = 7\<rparr>"

definition example_dir :: "string \<Rightarrow> directory" where
  "example_dir guid = \<lparr>d_name = ''n'', d_guid = guid, d_topics = DirectoryTopicStore guid,
     d_pool = BufferPool 1000 EVENT_BUFFER_SIZE 64 True, d_mallocs = 0, d_sends = [],
     d_buffer = replicate (EVENT_BUFFER_SIZE + 1) NUL, d_timer_active = False, d_interval = 0,
     d_next_port = 0\<rparr>"

lemma example_dir_ok: "dir_ok example_env (example_dir g)" "topics_fit (example_dir g)"
proof -
  have "pool_inv (BufferPool 1000 EVENT_BUFFER_SIZE 64 True) {}" by (rule BufferPool_inv) simp
  then have "send_inv example_env (example_dir g)"
    unfolding send_inv_def by (intro conjI exI [of _ "{}"]) (simp_all add: example_dir_def)
  moreover have "env_ok example_env (example_dir g)"
    by (auto simp: env_ok_def example_env_def example_dir_def pool_region_def BufferPool_def inj_def)
  ultimately show "dir_ok example_env (example_dir g)"
    unfolding dir_ok_def by (simp add: example_dir_def DirectoryTopicStore_def [symmetric])
      (simp add: DirectoryTopicStore_def)
  show "topics_fit (example_dir g)" by (simp add: topics_fit_def example_dir_def DirectoryTopicStore_def)
qed

section \<open>Properties\<close>

text \<open>All packets of a list, one after the other.\<close>

fun receive_all :: "env \<Rightarrow> string list \<Rightarrow> directory \<Rightarrow> dir_step option" where
  "receive_all env [] d = Some (Inr (d, []))"
| "receive_all env (p # ps) d =
     (case dir_event env False p d of
        None \<Rightarrow> None
      | Some (Inl e) \<Rightarrow> Some (Inl e)
      | Some (Inr (d, out)) \<Rightarrow>
         (case receive_all env ps d of
            None \<Rightarrow> None
          | Some (Inl e) \<Rightarrow> Some (Inl e)
          | Some (Inr (d, out')) \<Rightarrow> Some (Inr (d, out @ out'))))"

text \<open>
  C16: whatever packets arrive from the network, of up to 1500 arbitrary bytes each and in any
  number, a directory whose own announcements fit a send buffer handles them without reading or
  writing outside its buffers, without an exception and without looping, keeps its invariants
  and goes on receiving.
\<close>

theorem packets_are_safe:
  assumes "dir_ok env d" and "topics_fit d" and "\<forall>p \<in> set packets. length p \<le> EVENT_BUFFER_SIZE"
  shows "\<exists>d' out. receive_all env packets d = Some (Inr (d', out)) \<and> dir_ok env d' \<and> topics_fit d' \<and>
    (packets = [] \<or> last out = Receive)"
  using assms
proof (induction packets arbitrary: d)
  case (Cons p ps)
  then obtain d1 o1 where 1: "dir_event env False p d = Some (Inr (d1, o1))" "dir_ok env d1" "topics_fit d1"
    "last o1 = Receive" using dir_event_safe [OF Cons.prems(1,2), of p False] by auto
  then obtain d2 o2 where 2: "receive_all env ps d1 = Some (Inr (d2, o2))" "dir_ok env d2" "topics_fit d2"
    "ps = [] \<or> last o2 = Receive" using Cons.IH [OF 1(2,3)] Cons.prems(3) by auto
  have "last (o1 @ o2) = Receive"
  proof (cases "o2 = []")
    case False
    with 2 1(4) show ?thesis by (cases "ps = []") auto
  qed (use 1(4) in simp)
  with 1 2 show ?case by simp
qed simp

theorem packets_are_safe_witness:
  "\<exists>d' out. receive_all example_env [''DISPATCH '', ''DISPATCH x A a b'', ''X''] (example_dir ''me'')
     = Some (Inr (d', out))"
  using packets_are_safe [OF example_dir_ok, of "[''DISPATCH '', ''DISPATCH x A a b'', ''X'']" "''me''"]
  by auto

definition topic_info :: "string \<Rightarrow> string \<Rightarrow> string \<Rightarrow> string list \<Rightarrow> string list \<Rightarrow> string" where
  "topic_info name tname address ins outs =
     name @ '' '' @ tname @ '' '' @ address @ '' '' @ writeTypes ins @ '' '' @ writeTypes outs"

lemma dir_add_own:
  assumes "dir_ok env d" and "dir_add env name type address ins outs (d_guid d) d = Inr (d', out, mine)"
  shows "\<exists>tname cs buf. fromType type = Inr tname \<and>
    out = map Called cs @ [Send_To buf (packet_text (d_guid d) DISCOVERY_AVAILABLE
      (topic_info name tname address ins outs))] \<and>
    length (packet_text (d_guid d) DISCOVERY_AVAILABLE (topic_info name tname address ins outs))
      < EVENT_BUFFER_SIZE"
proof -
  obtain tname where type: "fromType type = Inr tname"
    using assms(2) by (auto simp: dir_add_def buildTopicInfo_def)
  let ?info = "topic_info name tname address ins outs"
  let ?t = "\<lparr>dt_name = name, dt_timestamp = en_now env, dt_socketType = type, dt_address = address,
    dt_inputTypes = ins, dt_outputTypes = outs, dt_guid = d_guid d, dt_info = ?info\<rparr>"
  have ok: "store_ok (d_topics d)" and me: "ts_my_guid (d_topics d) = d_guid d"
    using assms(1) by (auto simp: dir_ok_def)
  have info: "buildTopicInfo name type address ins outs = Inr ?info"
    by (simp add: buildTopicInfo_def type topic_info_def)
  obtain s' cs m where add: "ts_add ?t (d_topics d) = Inr (s', cs, m)"
    using assms(2) by (cases "ts_add ?t (d_topics d)") (auto simp: dir_add_def info)
  have "m" using ts_add_result(5) [OF ok add] me by simp
  then obtain out' where send: "dir_send env DISCOVERY_AVAILABLE ?info (d\<lparr>d_topics := s'\<rparr>) = Inr (d', out')"
    and out: "out = map Called cs @ out'"
    using assms(2) by (auto simp: dir_add_def info add)
  from send obtain buf where "out' = [Send_To buf (packet_text (d_guid d) DISCOVERY_AVAILABLE ?info)]"
    "length (packet_text (d_guid d) DISCOVERY_AVAILABLE ?info) < EVENT_BUFFER_SIZE"
    using dir_malloc_guid [of env "d\<lparr>d_topics := s'\<rparr>"]
    by (auto simp: dir_send_def dir_async_send_def Let_def split: prod.splits if_splits)
  with type out show ?thesis by blast
qed

lemma dir_add_own_ok:
  assumes "dir_ok env d" and "ts_findLocal name (d_topics d) = None" and "fromType type = Inr tname"
    and "length (packet_text (d_guid d) DISCOVERY_AVAILABLE (topic_info name tname address ins outs))
      < EVENT_BUFFER_SIZE"
    and "t = \<lparr>dt_name = name, dt_timestamp = en_now env, dt_socketType = type, dt_address = address,
      dt_inputTypes = ins, dt_outputTypes = outs, dt_guid = d_guid d,
      dt_info = topic_info name tname address ins outs\<rparr>"
  shows "\<exists>d' cs buf. dir_add env name type address ins outs (d_guid d) d = Inr (d', map Called cs @
      [Send_To buf (packet_text (d_guid d) DISCOVERY_AVAILABLE (dt_info t))], True) \<and>
    dir_ok env d' \<and> ts_findLocal name (d_topics d') = Some t \<and>
    fst (ts_remove (d_guid d) name (d_topics d')) = d_topics d \<and> d_guid d' = d_guid d"
proof -
  let ?s = "d_topics d"
  have ok: "store_ok ?s" and me: "ts_my_guid ?s = d_guid d" using assms(1) by (auto simp: dir_ok_def)
  have own: "dt_guid t = ts_my_guid ?s" using me by (simp add: assms(5))
  obtain s' cs m where add: "ts_add t ?s = Inr (s', cs, m)"
    using ts_add_cases [OF ok, of t] assms(2,5)
    by (cases "ts_add t ?s") (auto simp: ts_findLocal_def Let_def split: if_splits)
  note r = ts_add_result [OF ok add] and ok' = ts_add_ok [OF ok add]
  let ?d = "d\<lparr>d_topics := s'\<rparr>"
  have inv: "send_inv env ?d" "env_ok env ?d"
    using assms(1) by (auto simp: dir_ok_def send_inv_def env_ok_def)
  obtain d' out where send: "dir_send env DISCOVERY_AVAILABLE (dt_info t) ?d = Inr (d', out)"
    "sent env ?d d' out [packet_text (d_guid d) DISCOVERY_AVAILABLE (dt_info t)]"
    using dir_send_ok [OF inv, of DISCOVERY_AVAILABLE "dt_info t"] assms(4,5) by auto
  then obtain buf where "out = [Send_To buf (packet_text (d_guid d) DISCOVERY_AVAILABLE (dt_info t))]"
    by (auto simp: sent_def)
  moreover have "dir_ok env d'"
    using send(2) assms(1) ok' r(3) me by (auto simp: dir_ok_def sent_def)
  moreover have "ts_findLocal name (d_topics d') = Some t"
    "fst (ts_remove (d_guid d) name (d_topics d')) = d_topics d" "d_guid d' = d_guid d"
    using send(2) ts_add_own [OF ok own add] by (simp_all add: sent_def assms(5))
  moreover have "dir_add env name type address ins outs (d_guid d) d = Inr (d', map Called cs @ out, True)"
    using add send(1) r(5) own assms(3)
    by (simp add: dir_add_def buildTopicInfo_def assms(5) topic_info_def)
  ultimately show ?thesis by blast
qed

lemma view_op_Add:
  "view_op (Op_Add t) v = (if \<exists>old. v (dt_name t) = Some old \<and> dt_address old = dt_address t then v
     else v(dt_name t \<mapsto> t))"
  by (auto split: option.splits)

lemma available_event:
  assumes receiver: "dir_ok env d" "g \<noteq> d_guid d"
    and words: "wire_word g" "wire_word name" "name \<noteq> []" "wire_word address" "address \<noteq> []"
      "types_ok ins" "types_ok outs"
    and type: "fromType type = Inr tname"
    and net: "onNetwork (en_inet_addr env) (en_own env) (ad_ip (Address_parse address))"
    and printable: "list_all isprint (packet_text g DISCOVERY_AVAILABLE (topic_info name tname address ins outs))"
    and short: "length (packet_text g DISCOVERY_AVAILABLE (topic_info name tname address ins outs)) < EVENT_BUFFER_SIZE"
  shows "\<exists>d' out t. dir_event env False (packet_text g DISCOVERY_AVAILABLE (topic_info name tname address ins outs)) d
      = Some (Inr (d', out)) \<and>
    dt_name t = name \<and> dt_socketType t = type \<and> dt_address t = address \<and> dt_inputTypes t = ins \<and>
    dt_outputTypes t = outs \<and> dt_guid t = g \<and> dt_timestamp t = en_now env \<and>
    registered (d_topics d') = (\<lambda>n h. if n = name \<and> h = g \<and> \<not> unchanged t (d_topics d)
      then Some t else registered (d_topics d) n h) \<and>
    out = map Called (if unchanged t (d_topics d) then []
      else callObservers (d_topics d) name (gmap (d_topics d') name)) @ [Receive]"
proof -
  let ?info = "topic_info name tname address ins outs"
  let ?packet = "packet_text g DISCOVERY_AVAILABLE ?info"
  have packet: "?packet = DISPATCH @ g @ '' '' @ [DISCOVERY_AVAILABLE] @ '' '' @ ?info"
    by (simp add: packet_text_def topic_info_def)
  have len: "length (name @ tname @ address @ writeTypes ins @ writeTypes outs) + 4 < EVENT_BUFFER_SIZE"
    using short [unfolded packet] by (simp add: topic_info_def)
  have w: "wire_word tname" "wire_word (writeTypes ins)" "wire_word (writeTypes outs)"
    using fromType_chars [OF type] types_ok_written [OF words(6)] types_ok_written [OF words(7)]
    by (fastforce simp: wire_word_def)+
  define rest where "rest = drop (Suc (length ?packet)) (d_buffer d)"
  define pre where "pre = DISPATCH @ g @ [NUL] @ [DISCOVERY_AVAILABLE] @ [NUL]"
  define t where "t = \<lparr>dt_name = name, dt_timestamp = en_now env, dt_socketType = type,
      dt_address = address, dt_inputTypes = ins, dt_outputTypes = outs, dt_guid = g,
      dt_info = name @ '' '' @ tname @ '' '' @ address @ '' '' @ writeTypes ins @ '' '' @ writeTypes outs\<rparr>"
  obtain d' out where add: "dir_add env name type address ins outs g d = Inr (d', out, False)"
    "registered (d_topics d') = (\<lambda>n h. if h = g then view_op (Op_Add t) (\<lambda>n. registered (d_topics d) n h) n
      else registered (d_topics d) n h)"
    "out = map Called (if unchanged t (d_topics d) then []
      else callObservers (d_topics d) name (gmap (d_topics d') name))"
    using dir_add_peer [OF receiver type t_def] by blast
  have "handleEvent env (?packet @ NUL # rest) d = handle_command env DISCOVERY_AVAILABLE g
      (DISPATCH @ g @ [NUL] @ [DISCOVERY_AVAILABLE] @ [NUL] @ ?info @ NUL # rest) (length DISPATCH + length g + 3) d"
    using handleEvent_packet(1) [OF words(1) receiver(2), of DISCOVERY_AVAILABLE env ?info rest] short
    unfolding packet by (simp add: wire_word_def)
  also have "\<dots> = Some (discoveryAvailable env g (pre @ name @ CHR '' '' # tname @ CHR '' '' # address
      @ CHR '' '' # writeTypes ins @ CHR '' '' # writeTypes outs @ NUL # rest) (length pre) d)"
    by (simp add: handle_command_def pre_def numeral_3_eq_3 topic_info_def)
  also have "\<dots> = Some (Inr (pre @ name @ NUL # tname @ NUL # address @ NUL # writeTypes ins @ NUL #
      writeTypes outs @ NUL # rest, d', out))"
    using discoveryAvailable_words [OF words(2) w(1) words(4) w(2,3) words(3) fromType_not_Nil [OF type]
        words(5) types_ok_written(1) [OF words(7)] refl len, of env g pre rest d] net add(1)
      parse_write_types [OF words(6)] parse_write_types [OF words(7)] fromType_fromName [OF type] type
    by (simp add: fromType_def split: if_splits)
  finally have h: "handleEvent env (?packet @ NUL # rest) d = Some (Inr (pre @ name @ NUL # tname @ NUL #
      address @ NUL # writeTypes ins @ NUL # writeTypes outs @ NUL # rest, d', out))" .
  have "length (d_buffer d) = EVENT_BUFFER_SIZE + 1" using receiver(1) by (simp add: dir_ok_def)
  note ev = dir_event_packet [OF printable short this h [unfolded rest_def]]
  have "registered (d_topics d') = (\<lambda>n h. if n = name \<and> h = g \<and> \<not> unchanged t (d_topics d)
      then Some t else registered (d_topics d) n h)"
    unfolding add(2) view_op_Add by (auto simp: unchanged_def t_def fun_eq_iff)
  with ev show ?thesis
    by (intro exI [of _ "d'\<lparr>d_buffer := _\<rparr>"] exI [of _ "out @ [Receive]"] exI [of _ t])
      (simp add: t_def add(3))
qed

text \<open>
  C12: an announcement reaches its aim. When a node registers a topic of its own, the packet it
  sends makes every other directory on the same network register exactly that topic for the
  sender (name, socket type, address, input and output types), unless it already knows the sender
  under this name with the same address, and leaves all other registrations alone. Names, guid
  and address must be words, the types must be representable and the packet printable.
\<close>

theorem announcement_understood:
  assumes sender: "dir_ok env1 d1" "dir_add env1 name type address ins outs (d_guid d1) d1 = Inr (d1', out1, mine)"
    and words: "wire_word (d_guid d1)" "wire_word name" "name \<noteq> []" "wire_word address" "address \<noteq> []"
      "types_ok ins" "types_ok outs"
    and receiver: "dir_ok env2 d2" "d_guid d2 \<noteq> d_guid d1"
      "onNetwork (en_inet_addr env2) (en_own env2) (ad_ip (Address_parse address))"
    and send: "Send_To buf packet \<in> set out1" and printable: "list_all isprint packet"
  shows "\<exists>d2' out2 t. dir_event env2 False packet d2 = Some (Inr (d2', out2)) \<and>
    dt_name t = name \<and> dt_socketType t = type \<and> dt_address t = address \<and> dt_inputTypes t = ins \<and>
    dt_outputTypes t = outs \<and> dt_guid t = d_guid d1 \<and>
    registered (d_topics d2') = (\<lambda>n g. if n = name \<and> g = d_guid d1 \<and> \<not> unchanged t (d_topics d2)
      then Some t else registered (d_topics d2) n g)"
proof -
  obtain tname cs buf' where own: "fromType type = Inr tname"
    "out1 = map Called cs @ [Send_To buf' (packet_text (d_guid d1) DISCOVERY_AVAILABLE
      (topic_info name tname address ins outs))]"
    "length (packet_text (d_guid d1) DISCOVERY_AVAILABLE (topic_info name tname address ins outs)) < EVENT_BUFFER_SIZE"
    using dir_add_own [OF sender] by blast
  then have p: "packet = packet_text (d_guid d1) DISCOVERY_AVAILABLE (topic_info name tname address ins outs)"
    using send by auto
  show ?thesis
    using available_event [OF receiver(1) receiver(2) [symmetric] words own(1) receiver(3)
      printable [unfolded p] own(3)] unfolding p by fastforce
qed

theorem announcement_understood_witness:
  "\<exists>d1' out1 buf packet d2' out2 t.
     dir_add example_env ''t'' 1 ''tcp://x:1'' [] [''42''] ''a'' (example_dir ''a'') = Inr (d1', out1, True) \<and>
     Send_To buf packet \<in> set out1 \<and>
     dir_event example_env False packet (example_dir ''b'') = Some (Inr (d2', out2)) \<and>
     registered (d_topics d2') ''t'' ''a'' = Some t \<and> dt_outputTypes t = [''42'']"
proof -
  have g: "d_guid (example_dir g) = g" for g by (simp add: example_dir_def)
  have type: "fromType 1 = Inr ''PUB''" by (simp add: fromType_def socket_types_def)
  have "ts_findLocal ''t'' (d_topics (example_dir ''a'')) = None"
    by (simp add: ts_findLocal_def example_dir_def DirectoryTopicStore_def)
  note own = dir_add_own_ok [OF example_dir_ok(1) this type, of "''tcp://x:1''" "[]" "[''42'']", unfolded g]
  let ?p = "packet_text ''a'' DISCOVERY_AVAILABLE (topic_info ''t'' ''PUB'' ''tcp://x:1'' [] [''42''])"
  have p: "?p = ''DISPATCH a A t PUB tcp://x:1 . 42''"
    by (simp add: packet_text_def topic_info_def DISPATCH_def writeTypes_def NO_TYPES_def)
  have short: "length ?p < EVENT_BUFFER_SIZE" and print: "list_all isprint ?p"
    unfolding p by (simp_all add: isprint_def)
  obtain d1' cs buf where add: "dir_add example_env ''t'' 1 ''tcp://x:1'' [] [''42''] ''a'' (example_dir ''a'')
      = Inr (d1', map Called cs @ [Send_To buf ?p], True)"
    using own [OF short refl] by auto
  have net: "onNetwork (en_inet_addr example_env) (en_own example_env) (ad_ip (Address_parse ''tcp://x:1''))"
    by (simp add: onNetwork_def example_env_def)
  have words: "wire_word (d_guid (example_dir ''a''))" "wire_word ''t''" "''t'' \<noteq> []" "wire_word ''tcp://x:1''"
    "''tcp://x:1'' \<noteq> []" "types_ok []" "types_ok [''42'']"
    by (auto simp: wire_word_def types_ok_def NO_TYPES_def g)
  have fresh: "\<not> unchanged t (d_topics (example_dir ''b''))" for t
    by (simp add: unchanged_def registered_def net_get_def example_dir_def DirectoryTopicStore_def)
  have add': "dir_add example_env ''t'' 1 ''tcp://x:1'' [] [''42''] (d_guid (example_dir ''a'')) (example_dir ''a'')
      = Inr (d1', map Called cs @ [Send_To buf ?p], True)" unfolding g by (rule add)
  have ne: "d_guid (example_dir ''b'') \<noteq> d_guid (example_dir ''a'')" by (simp add: g)
  have sent: "Send_To buf ?p \<in> set (map Called cs @ [Send_To buf ?p])" by simp
  obtain d2' out2 t where "dir_event example_env False ?p (example_dir ''b'') = Some (Inr (d2', out2))"
    "dt_outputTypes t = [''42'']" "registered (d_topics d2') ''t'' ''a'' = Some t"
    using announcement_understood [OF example_dir_ok(1) add' words example_dir_ok(1) [of "''b''"] ne net sent print]
      fresh by (auto simp: g)
  with add sent show ?thesis by blast
qed

text \<open>The texts of the packets among the outputs.\<close>

fun packets :: "dir_out list \<Rightarrow> string list" where
  "packets [] = []"
| "packets (Send_To buf data # out) = data # packets out"
| "packets (_ # out) = packets out"

lemma packets_sends: "packets (map (\<lambda>(b, t). Send_To b t) es @ out) = map snd es @ packets out"
  by (induction es) auto

lemma sent_packets: "sent env d d' out texts \<Longrightarrow> packets (out @ [Receive]) = texts \<and> packets out = texts"
  using packets_sends [of _ "[]"] packets_sends [of _ "[Receive]"] by (auto simp: sent_def)

lemma search_event:
  assumes "dir_ok env d" and "topics_fit d" and "wire_word g" and "g \<noteq> d_guid d"
    and "\<forall>n \<in> set names. wire_word n" and "names \<noteq> []"
    and "length (query_text g names) < EVENT_BUFFER_SIZE" and "list_all isprint (query_text g names)"
  shows "\<exists>d' out. dir_event env False (query_text g names) d = Some (Inr (d', out)) \<and>
    packets out = concat (map (answers d) names) \<and> d_topics d' = d_topics d"
proof -
  let ?q = "query_text g names" and ?names = "joined (CHR '' '') names"
  obtain n ns where names: "names = n # ns" using assms(6) by (cases names) auto
  have q: "?q = DISPATCH @ g @ '' '' @ [DISCOVERY_SEARCH] @ '' '' @ ?names"
    unfolding names by (rule query_text_words)
  define rest where "rest = drop (Suc (length ?q)) (d_buffer d)"
  let ?pre = "DISPATCH @ g @ [NUL] @ [DISCOVERY_SEARCH] @ [NUL]"
  have inv: "send_inv env d" "env_ok env d" and buf: "length (d_buffer d) = EVENT_BUFFER_SIZE + 1"
    using assms(1) by (auto simp: dir_ok_def)
  have "length ?pre + 0 = length ?pre" and "0 + length ?names < EVENT_BUFFER_SIZE"
    using assms(7) q by auto
  from search_loop_words [OF assms(5) this inv assms(2), of rest "[]"] obtain buf' d' out where
    loop: "search_loop env (?pre @ ?names @ NUL # rest) (length ?pre) 0 d [] = Some (Inr (buf', d', out))"
    and sent: "sent env d d' out (concat (map (answers d) names))" by auto
  have "handleEvent env (?q @ NUL # rest) d = Some (Inr (buf', d', out))"
    using handleEvent_packet(1) [OF assms(3,4), of DISCOVERY_SEARCH env ?names rest] assms(7) loop
    unfolding q by (simp add: wire_word_def handle_command_def discoverySearch_def numeral_3_eq_3)
  from dir_event_packet [OF assms(8,7) buf this [unfolded rest_def]] sent_packets [OF sent] sent_same [OF sent]
  show ?thesis by simp
qed

text \<open>
  C17: a search is answered with announcements of exactly the requested topics that the node
  offers itself, in the order of the request, and with all of them for the name \<open>*\<close>; the topics of
  the answering node do not change.
\<close>

theorem search_answered:
  assumes "dir_ok env d" and "topics_fit d" and "wire_word g" and "g \<noteq> d_guid d"
    and "\<forall>n \<in> set names. wire_word n" and "names \<noteq> []"
    and "length (query_text g names) < EVENT_BUFFER_SIZE" and "list_all isprint (query_text g names)"
  shows "\<exists>d' out. dir_event env False (query_text g names) d = Some (Inr (d', out)) \<and>
    packets out = concat (map (answers d) names) \<and> d_topics d' = d_topics d"
  using assms by (rule search_event)

theorem search_answered_witness:
  "\<exists>d' out. dir_event example_env False (query_text ''a'' [''x'', ''y'']) (example_dir ''b'') = Some (Inr (d', out)) \<and>
     packets out = []"
proof -
  have q: "query_text ''a'' [''x'', ''y''] = ''DISPATCH a S x y''"
    by (simp add: query_text_def packet_text_def DISPATCH_def)
  have "\<exists>d' out. dir_event example_env False (query_text ''a'' [''x'', ''y'']) (example_dir ''b'') = Some (Inr (d', out)) \<and>
     packets out = concat (map (answers (example_dir ''b'')) [''x'', ''y'']) \<and>
     d_topics d' = d_topics (example_dir ''b'')"
    by (rule search_answered [OF example_dir_ok])
      (auto simp: wire_word_def example_dir_def q isprint_def)
  then show ?thesis by (auto simp: answers_def example_dir_def ts_findLocal_def DirectoryTopicStore_def)
qed

text \<open>
  A search always ends. Whatever bytes follow the command, the loop over the names of a search
  reaches the terminator after the packet and returns, having changed nothing but the buffer and
  the pending sends.
\<close>

theorem search_terminates:
  assumes "dir_ok env d" and "topics_fit d" and "base \<le> length packet" and "length packet \<le> EVENT_BUFFER_SIZE"
  shows "\<exists>buf d' out. discoverySearch env (packet @ NUL # rest) base d = Some (Inr (buf, d', out)) \<and>
    length buf = length packet + 1 + length rest \<and> d_topics d' = d_topics d \<and> dir_ok env d'"
proof -
  have "sealed (length packet) (packet @ NUL # rest)" by (simp add: sealed_def)
  from search_loop_sealed [OF this, of base 0 env d "[]"] assms
  obtain buf d' out texts where r: "search_loop env (packet @ NUL # rest) base 0 d [] = Some (Inr (buf, d', out))"
    "length buf = length (packet @ NUL # rest)" "sent env d d' out texts"
    by (auto simp: dir_ok_def)
  then show ?thesis
    using assms(1) by (auto simp: discoverySearch_def sent_def dir_ok_def)
qed

theorem search_terminates_witness:
  "\<exists>buf d' out. discoverySearch example_env (''a b  c'' @ NUL # ''x'') 2 (example_dir ''me'') = Some (Inr (buf, d', out))"
  using search_terminates [OF example_dir_ok, of 2 "''a b  c''" "''x''" "''me''"] by auto

end
