(* ===== verification/Discovery_Queries.thy ===== *)
theory Discovery_Queries
  imports Discovery
begin

text \<open>
  Properties of the query timer, of leaving the network and of the send buffers of \<open>Directory\<close>
  (\<open>src/a17/dispatch/directory.cpp\<close>).
\<close>

section \<open>The query timer is running while topics are missing\<close>

definition timer_ok :: "directory \<Rightarrow> bool" where
  "timer_ok d \<longleftrightarrow> d_timer_active d \<or> ts_getMissing (d_topics d) = []"

lemma timer_ok_stepped: "stepped env d d' \<Longrightarrow> timer_ok d \<Longrightarrow> timer_ok d'"
  by (auto simp: stepped_def timer_ok_def)

lemma handleEvent_timer:
  assumes "dir_ok env d" and "topics_fit d" and "timer_ok d" and "length packet \<le> EVENT_BUFFER_SIZE"
    and "dir_event env ec packet d = Some (Inr (d', out))"
  shows "timer_ok d'"
proof -
  let ?buf = "packet @ drop (length packet) (d_buffer d)"
  have b: "timer_ok (x\<lparr>d_buffer := b\<rparr>) = timer_ok x" for x b by (simp add: timer_ok_def)
  show ?thesis
  proof (cases "ec \<or> \<not> list_all isprint packet")
    case True
    with assms(3,5) show ?thesis by (auto simp: dir_event_def Let_def b split: if_splits)
  next
    case False
    have len: "length ?buf = EVENT_BUFFER_SIZE + 1" using assms(1,4) by (simp add: dir_ok_def)
    then have lt: "length packet < length ?buf" using assms(4) by linarith
    then obtain buf' d1 o1 where h: "handleEvent env (?buf[length packet := NUL]) d = Some (Inr (buf', d1, o1))"
      "stepped env d d1" using dir_event_handled [OF assms(1,2,4)] by blast
    with False lt assms(5) have "d' = d1\<lparr>d_buffer := buf'\<rparr>" by (auto simp: dir_event_def Let_def)
    with timer_ok_stepped [OF h(2) assms(3)] show ?thesis by (simp add: b)
  qed
qed

lemma startQueryTimer_ok: "timer_ok (fst (startQueryTimer d))"
  by (simp add: startQueryTimer_def timer_ok_def)

section \<open>Reachable states\<close>

text \<open>
  What can happen to a directory, each time with its own clock reading: a packet arrives, the timer
  fires or is cancelled, a send completes, and the local node adds, observes, unobserves and (if
  \<open>rm\<close>) removes topics.
\<close>

inductive dir_reach :: "bool \<Rightarrow> env \<Rightarrow> directory \<Rightarrow> directory \<Rightarrow> bool" for rm env d0 where
  start: "dir_reach rm env d0 d0"
| packet: "\<lbrakk>dir_reach rm env d0 d; length p \<le> EVENT_BUFFER_SIZE;
    dir_event (env\<lparr>en_now := now\<rparr>) ec p d = Some (Inr (d', out))\<rbrakk> \<Longrightarrow> dir_reach rm env d0 d'"
| timer: "\<lbrakk>dir_reach rm env d0 d; queryMissingTopics env ec d = Inr (d', out)\<rbrakk> \<Longrightarrow> dir_reach rm env d0 d'"
| complete: "\<lbrakk>dir_reach rm env d0 d; dir_sent buf ec bytes d = (d', out)\<rbrakk> \<Longrightarrow> dir_reach rm env d0 d'"
| add: "\<lbrakk>dir_reach rm env d0 d;
    dir_add (env\<lparr>en_now := now\<rparr>) name type address ins outs (d_guid d) d = Inr (d', out, mine)\<rbrakk>
    \<Longrightarrow> dir_reach rm env d0 d'"
| remove: "\<lbrakk>dir_reach rm env d0 d; rm; dir_remove env name d = Inr (d', out)\<rbrakk> \<Longrightarrow> dir_reach rm env d0 d'"
| observe: "\<lbrakk>dir_reach rm env d0 d; dir_observe uuid name h d = (d', out, ref)\<rbrakk> \<Longrightarrow> dir_reach rm env d0 d'"
| unobserve: "\<lbrakk>dir_reach rm env d0 d; dir_unobserve name ref d = (d', out)\<rbrakk> \<Longrightarrow> dir_reach rm env d0 d'"

lemma env_now [simp]: "dir_ok (env\<lparr>en_now := now\<rparr>) d = dir_ok env d"
  "send_inv (env\<lparr>en_now := now\<rparr>) d = send_inv env d" "env_ok (env\<lparr>en_now := now\<rparr>) d = env_ok env d"
  by (simp_all add: dir_ok_def send_inv_def env_ok_def)

text \<open>A successful send changes pool, counter and pending sends only.\<close>

lemma dir_send_sent:
  assumes "send_inv env d" and "env_ok env d" and "dir_send env command args d = Inr (d', out)"
  shows "sent env d d' out [packet_text (d_guid d) command args] \<and>
    length (packet_text (d_guid d) command args) < EVENT_BUFFER_SIZE"
proof -
  have "length (packet_text (d_guid d) command args) < EVENT_BUFFER_SIZE"
    using assms(3) dir_malloc_guid [of env d]
    by (auto simp: dir_send_def Let_def split: prod.splits if_splits)
  with dir_send_ok [OF assms(1,2) this] assms(3) show ?thesis by auto
qed

lemma dir_add_reach:
  assumes "dir_ok env d" and "topics_fit d"
    and "dir_add env name type address ins outs (d_guid d) d = Inr (d', out, mine)"
  shows "dir_ok env d' \<and> topics_fit d' \<and> (timer_ok d \<longrightarrow> timer_ok d')"
proof -
  obtain info where info: "buildTopicInfo name type address ins outs = Inr info"
    using assms(3) by (auto simp: dir_add_def)
  let ?t = "\<lparr>dt_name = name, dt_timestamp = en_now env, dt_socketType = type, dt_address = address,
    dt_inputTypes = ins, dt_outputTypes = outs, dt_guid = d_guid d, dt_info = info\<rparr>"
  have ok: "store_ok (d_topics d)" and me: "ts_my_guid (d_topics d) = d_guid d"
    using assms(1) by (auto simp: dir_ok_def)
  obtain s' cs m where add: "ts_add ?t (d_topics d) = Inr (s', cs, m)"
    using assms(3) by (cases "ts_add ?t (d_topics d)") (auto simp: dir_add_def info)
  note r = ts_add_result [OF ok add] and ok' = ts_add_ok [OF ok add]
  let ?d = "d\<lparr>d_topics := s'\<rparr>"
  have m: m using r(5) me by simp
  then obtain out' where send: "dir_send env DISCOVERY_AVAILABLE info ?d = Inr (d', out')"
    using assms(3) by (auto simp: dir_add_def info add)
  have inv: "send_inv env ?d" "env_ok env ?d"
    using assms(1) by (auto simp: dir_ok_def send_inv_def env_ok_def)
  note s = dir_send_sent [OF inv send]
  have "topics_fit ?d"
    using assms(2) s set_omap_put [of name ?t "ts_local_topics (d_topics d)"] r(6) m
    by (fastforce simp: topics_fit_def)
  then have "topics_fit d'" using topics_fit_sent s by blast
  moreover have "dir_ok env d'" using s assms(1) ok' r(3) me by (auto simp: dir_ok_def sent_def)
  moreover have "timer_ok d \<longrightarrow> timer_ok d'"
    using s ts_add_missing [OF ok add] by (auto simp: timer_ok_def sent_def)
  ultimately show ?thesis by blast
qed

lemma dir_remove_reach:
  assumes "dir_ok env d" and "topics_fit d" and "dir_remove env name d = Inr (d', out)"
  shows "dir_ok env d' \<and> topics_fit d'"
proof -
  obtain s' cs m where r: "ts_remove (d_guid d) name (d_topics d) = (s', cs, m)"
    using prod_cases3 by blast
  have ok: "store_ok (d_topics d)" and me: "ts_my_guid (d_topics d) = d_guid d"
    using assms(1) by (auto simp: dir_ok_def)
  note rr = ts_remove_result [OF ok r] and ok' = ts_remove_ok [OF ok r]
  let ?d = "d\<lparr>d_topics := s'\<rparr>"
  have inv: "send_inv env ?d" "env_ok env ?d"
    using assms(1) by (auto simp: dir_ok_def send_inv_def env_ok_def)
  have fit: "topics_fit ?d"
    using assms(2) set_omap_del [of name "ts_local_topics (d_topics d)"] rr(6)
    by (auto simp: topics_fit_def split: if_splits)
  have dok: "dir_ok env ?d" using assms(1) inv ok' rr(3) me by (simp add: dir_ok_def)
  show ?thesis
  proof (cases m)
    case True
    then obtain out' where send: "dir_send env DISCOVERY_REMOVE name ?d = Inr (d', out')"
      using assms(3) by (auto simp: dir_remove_def r)
    note s = conjunct1 [OF dir_send_sent [OF inv send]]
    have "dir_ok env d'" using s dok by (auto simp: dir_ok_def sent_def)
    with topics_fit_sent [OF s fit] show ?thesis by blast
  next
    case False
    with assms(3) dok fit show ?thesis by (simp add: dir_remove_def r)
  qed
qed

lemma queryMissing_reach:
  assumes "dir_ok env d" and "topics_fit d" and "queryMissingTopics env ec d = Inr (d', out)"
  shows "dir_ok env d' \<and> topics_fit d' \<and> (timer_ok d \<longrightarrow> timer_ok d')"
proof (cases "ec \<or> ts_getMissing (d_topics d) = []")
  case True
  with assms show ?thesis
    by (auto simp: queryMissingTopics_def dir_ok_def topics_fit_def timer_ok_def send_inv_def env_ok_def
      split: if_splits)
next
  case False
  then obtain i q where q: "query_loop env None 0 (ts_getMissing (d_topics d)) (d\<lparr>d_interval := i\<rparr>) = Inr (d', q)"
    using assms(3) by (auto simp: queryMissingTopics_def Let_def)
  let ?d = "d\<lparr>d_interval := i\<rparr>"
  have inv: "send_inv env ?d" "env_ok env ?d"
    using assms(1) by (auto simp: dir_ok_def send_inv_def env_ok_def)
  have "\<forall>n \<in> set (ts_getMissing (d_topics d)). length (query_text (d_guid ?d) [n]) < EVENT_BUFFER_SIZE"
    using query_loop_fits [OF q] by simp
  then obtain texts where "sent env ?d d' q texts"
    using query_loop_groups [OF inv, of "ts_getMissing (d_topics d)"] False q by auto
  with assms(1,2) show ?thesis by (auto simp: dir_ok_def topics_fit_def timer_ok_def sent_def)
qed

lemma dir_ok_observers:
  assumes "dir_ok env d" and "topics_fit d" and "store_ok s'" and "ts_my_guid s' = ts_my_guid (d_topics d)"
    and "ts_local_topics s' = ts_local_topics (d_topics d)"
  shows "dir_ok env (fst (startQueryTimer (d\<lparr>d_topics := s'\<rparr>))) \<and>
    topics_fit (fst (startQueryTimer (d\<lparr>d_topics := s'\<rparr>)))"
  using assms by (simp add: startQueryTimer_def dir_ok_def topics_fit_def send_inv_def env_ok_def)

lemma dir_reach_inv:
  assumes "dir_reach rm env d0 d" and "dir_ok env d0" and "topics_fit d0"
  shows "dir_ok env d \<and> topics_fit d \<and> (\<not> rm \<and> timer_ok d0 \<longrightarrow> timer_ok d)"
  using assms(1)
proof induction
  case start
  with assms show ?case by simp
next
  case (packet d p now ec d' out)
  then have inv: "dir_ok (env\<lparr>en_now := now\<rparr>) d" "topics_fit d" by simp_all
  have "\<not> rm \<and> timer_ok d0 \<longrightarrow> timer_ok d'"
    using packet handleEvent_timer [OF inv] by blast
  with dir_event_safe [OF inv packet(2), of ec] packet(3) show ?case by auto
next
  case (timer d ec d' out)
  then show ?case using queryMissing_reach by blast
next
  case (complete d buf ec bytes d' out)
  have "send_inv env d \<and> env_ok env d" using complete(3) by (simp add: dir_ok_def)
  then have "send_inv env d' \<and> env_ok env d'" using dir_sent_inv complete(2) by blast
  moreover have "d_topics d' = d_topics d \<and> d_guid d' = d_guid d \<and> d_buffer d' = d_buffer d \<and>
      d_timer_active d' = d_timer_active d"
    using complete(2) by (cases "map_of (d_sends d) buf")
      (auto simp: dir_sent_def dir_async_send_def Let_def split: if_splits)
  ultimately show ?case
    using complete(3) by (simp add: dir_ok_def topics_fit_def timer_ok_def)
next
  case (add d now name type address ins outs d' out mine)
  then show ?case using dir_add_reach [of "env\<lparr>en_now := now\<rparr>" d] by auto
next
  case (remove d name d' out)
  then show ?case using dir_remove_reach by blast
next
  case (observe d uuid name h d' out ref)
  let ?s = "fst (ts_observe uuid name h (d_topics d))"
  have d': "d' = fst (startQueryTimer (d\<lparr>d_topics := ?s\<rparr>))"
    using observe(2) by (auto simp: dir_observe_def ts_observe_def split: prod.splits)
  have "store_ok ?s" using observe(3) by (intro ts_observe_ok) (simp add: dir_ok_def)
  with observe(3) show ?case
    unfolding d' using startQueryTimer_ok dir_ok_observers [of env d ?s] by (simp add: ts_observe_def)
next
  case (unobserve d name ref d' out)
  let ?s = "ts_unobserve name ref (d_topics d)"
  have d': "d' = fst (startQueryTimer (d\<lparr>d_topics := ?s\<rparr>))"
    using unobserve(2) by (auto simp: dir_unobserve_def)
  have "store_ok ?s" using unobserve(3) by (intro ts_unobserve_ok) (simp add: dir_ok_def)
  with unobserve(3) show ?case
    unfolding d' using startQueryTimer_ok dir_ok_observers [of env d ?s] by (simp add: ts_unobserve_def)
qed

lemma make_directory_ok:
  assumes "make_directory env name uuid mem buffer opened joined_group next_port = Inr (d, next', out)"
    and "length buffer = EVENT_BUFFER_SIZE + 1" and "0 < mem" and "inj (en_os env)" and "0 \<notin> range (en_os env)"
    and "range (en_os env) \<inter> {mem..<mem + 64 * EVENT_BUFFER_SIZE} = {}"
  shows "dir_ok env d" and "topics_fit d" and "timer_ok d"
proof -
  let ?guid = "name @ ''_'' @ own_address (en_own env) @ ''_'' @ uuid"
  have d: "d_topics d = DirectoryTopicStore ?guid" "d_guid d = ?guid" "d_buffer d = buffer" "d_sends d = []"
    "d_pool d = BufferPool mem EVENT_BUFFER_SIZE 64 True"
    using assms(1) by (auto simp: make_directory_def Let_def split: if_splits)
  have "pool_inv (d_pool d) {}" unfolding d by (rule BufferPool_inv) simp
  then have "send_inv env d" by (auto simp: send_inv_def d)
  moreover have "env_ok env d" using assms by (simp add: env_ok_def d pool_region_def BufferPool_def)
  ultimately show "dir_ok env d" using assms(2) by (simp add: dir_ok_def d) (simp add: DirectoryTopicStore_def)
  show "topics_fit d" "timer_ok d"
    by (simp_all add: topics_fit_def timer_ok_def d DirectoryTopicStore_def ts_getMissing_def)
qed

section \<open>Properties\<close>

text \<open>
  C10: in every state a directory can reach from its construction, whatever packets, timer events,
  completed sends and local calls come, its topic store is well formed, no two pending sends share
  a buffer, announcements of its topics fit a packet, and the next packet, whatever its bytes,
  is handled without a fault.
\<close>

theorem reachable_directory_safe:
  assumes "make_directory env name uuid mem buffer opened joined_group next_port = Inr (d0, next', out0)"
    and "length buffer = EVENT_BUFFER_SIZE + 1" and "0 < mem" and "inj (en_os env)" and "0 \<notin> range (en_os env)"
    and "range (en_os env) \<inter> {mem..<mem + 64 * EVENT_BUFFER_SIZE} = {}"
    and "dir_reach rm env d0 d"
  shows "store_ok (d_topics d) \<and> distinct (map fst (d_sends d)) \<and> topics_fit d \<and>
    (length packet \<le> EVENT_BUFFER_SIZE \<longrightarrow>
      (\<exists>d' out. dir_event env ec packet d = Some (Inr (d', out)) \<and> last out = Receive))"
proof (intro conjI impI)
  note init = make_directory_ok [OF assms(1-6)]
  have inv: "dir_ok env d" "topics_fit d" using dir_reach_inv [OF assms(7) init(1,2)] by auto
  then show "store_ok (d_topics d)" "distinct (map fst (d_sends d))" "topics_fit d"
    by (auto simp: dir_ok_def send_inv_def)
  show "\<exists>d' out. dir_event env ec packet d = Some (Inr (d', out)) \<and> last out = Receive"
    if "length packet \<le> EVENT_BUFFER_SIZE"
    using dir_event_safe [OF inv that] by blast
qed

theorem reachable_directory_safe_witness:
  "\<exists>d0 next' out0 d' out.
     make_directory example_env ''n'' ''u'' 1000 (replicate (EVENT_BUFFER_SIZE + 1) NUL) True True None
       = Inr (d0, next', out0) \<and>
     dir_event example_env False ''DISPATCH a S *'' d0 = Some (Inr (d', out))"
proof -
  obtain d0 next' out0 where m:
    "make_directory example_env ''n'' ''u'' 1000 (replicate (EVENT_BUFFER_SIZE + 1) NUL) True True None
       = Inr (d0, next', out0)" by (simp add: make_directory_def Let_def)
  moreover have "length (replicate (EVENT_BUFFER_SIZE + 1) NUL) = EVENT_BUFFER_SIZE + 1" "inj (en_os example_env)"
    "0 \<notin> range (en_os example_env)" "range (en_os example_env) \<inter> {1000..<1000 + 64 * EVENT_BUFFER_SIZE} = {}"
    by (auto simp: example_env_def inj_def)
  note safe = reachable_directory_safe [OF m this(1) _ this(2-4) dir_reach.start,
      where packet = "''DISPATCH a S *''" and ec = False]
  have "\<exists>d' out. dir_event example_env False ''DISPATCH a S *'' d0 = Some (Inr (d', out))"
    using safe by auto
  ultimately show ?thesis by blast
qed


lemma example_observing:
  assumes "d = fst (dir_observe ''u'' ''t'' 3 (example_dir g))"
  shows "dir_ok example_env d" "ts_getMissing (d_topics d) = [''t'']" "d_interval d = QUERY_INTERVAL"
    "d_guid d = g" "topics_fit d" "timer_ok d"
proof -
  have "dir_reach False example_env (example_dir g) d"
    using dir_reach.observe [OF dir_reach.start] assms by (metis prod.collapse)
  from dir_reach_inv [OF this example_dir_ok] show "dir_ok example_env d" "topics_fit d" by auto
  show "ts_getMissing (d_topics d) = [''t'']" "d_interval d = QUERY_INTERVAL" "d_guid d = g" "timer_ok d"
    by (simp_all add: assms dir_observe_def ts_observe_def startQueryTimer_def example_dir_def
      DirectoryTopicStore_def ts_getMissing_def mmap_emplace_def insort_insert_key_def timer_ok_def)
qed


text \<open>
  While topics stay missing, the query timer backs off exponentially from one second to the
  maximum of sixteen: the k-th round waits min(16 s, 2^k s).
\<close>

theorem query_backoff:
  assumes "dir_ok env d" and "ts_getMissing (d_topics d) \<noteq> []"
    and "\<forall>n \<in> set (ts_getMissing (d_topics d)). length (query_text (d_guid d) [n]) < EVENT_BUFFER_SIZE"
  shows "\<exists>d' out. query_rounds env k (fst (startQueryTimer d)) = Inr (d', out) \<and>
    waits out = map (\<lambda>i. min 16000 (1000 * 2 ^ i)) [0..<k]"
proof -
  have "dir_ok env (fst (startQueryTimer d))"
    using assms(1) by (simp add: startQueryTimer_def dir_ok_def send_inv_def env_ok_def)
  then show ?thesis
    using query_rounds_waits [of env "fst (startQueryTimer d)" 0 k] assms(2,3)
    by (simp add: startQueryTimer_def)
qed

theorem query_backoff_witness:
  "\<exists>d' out. query_rounds example_env 6
      (fst (startQueryTimer (fst (dir_observe ''u'' ''t'' 3 (example_dir ''me''))))) = Inr (d', out) \<and>
    waits out = [1000, 2000, 4000, 8000, 16000, 16000]"
proof -
  note e = example_observing [OF refl, where g = "''me''"]
  show ?thesis
    using query_backoff [OF e(1), of 6] by (simp add: e query_text_def packet_text_def DISPATCH_def upt_rec)
qed



text \<open>
  When a node removes the only registration of a topic that it observes itself while no query
  timer runs, the topic is missing and still no timer is started: \<open>remove\<close> lacks the
  \<open>startQueryTimer\<close> of \<open>discoveryRemove\<close>.
\<close>

theorem own_removal_starts_no_query:
  assumes "dir_ok env d" and "\<not> d_timer_active d" and "n \<in> fst ` set (ts_observers (d_topics d))"
    and "\<forall>g. g \<noteq> d_guid d \<longrightarrow> registered (d_topics d) n g = None"
    and "dir_remove env n d = Inr (d', out)"
  shows "n \<in> set (ts_getMissing (d_topics d')) \<and> \<not> d_timer_active d' \<and> waits out = []"
proof (intro conjI)
  obtain s' cs m where r: "ts_remove (d_guid d) n (d_topics d) = (s', cs, m)" using prod_cases3 by blast
  have ok: "store_ok (d_topics d)" using assms(1) by (simp add: dir_ok_def)
  note rr = ts_remove_result [OF ok r]
  have inv: "send_inv env (d\<lparr>d_topics := s'\<rparr>)" "env_ok env (d\<lparr>d_topics := s'\<rparr>)"
    using assms(1) by (auto simp: dir_ok_def send_inv_def env_ok_def)
  have calls: "waits (map Called cs @ o') = waits o'" for o' by (induction cs) auto
  have d': "d_topics d' = s' \<and> d_timer_active d' = d_timer_active d \<and> waits out = []"
  proof (cases m)
    case True
    then obtain o' where s: "dir_send env DISCOVERY_REMOVE n (d\<lparr>d_topics := s'\<rparr>) = Inr (d', o')"
      "out = map Called cs @ o'" using assms(5) by (auto simp: dir_remove_def r)
    from dir_send_sent [OF inv s(1)] sent_waits show ?thesis by (auto simp: s(2) calls sent_def)
  next
    case False
    with assms(5) calls [of "[]"] show ?thesis by (auto simp: dir_remove_def r)
  qed
  have "registered s' n g = None" for g
    using assms(4) rr(1) by (cases "g = d_guid d") (auto simp: registered_def omap_simps)
  then have "\<not> ts_hasTopic n s'" using hasTopic_iff [OF ts_remove_ok [OF ok r]] by simp
  with d' assms(2,3) rr(4) show "n \<in> set (ts_getMissing (d_topics d'))" "\<not> d_timer_active d'" "waits out = []"
    by (auto simp: getMissing_set)
qed

definition example_offering :: directory where
  "example_offering = (example_dir ''me'')\<lparr>d_topics :=
     \<lparr>ts_my_guid = ''me'', ts_local_topics = [(''node/pose'', example_topic)],
      ts_network_topics = [(''node/pose'', [(''me'', example_topic)])],
      ts_observers = [(''node/pose'', \<lparr>ob_handler = 3, ob_ref = ''u''\<rparr>)]\<rparr>\<rparr>"

lemma example_offering_ok: "dir_ok example_env example_offering"
proof -
  have "store_ok (d_topics example_offering)"
    by (auto simp: store_ok_def example_offering_def net_ok_def entries_of_def registered_def net_get_def
      example_topic_def)
  then show ?thesis
    using example_dir_ok(1) [of "''me''"]
    by (simp add: dir_ok_def example_offering_def send_inv_def env_ok_def) (simp add: example_dir_def)
qed

theorem own_removal_starts_no_query_witness:
  "\<exists>d' out. dir_remove example_env ''node/pose'' example_offering = Inr (d', out) \<and>
     ''node/pose'' \<in> set (ts_getMissing (d_topics d')) \<and> \<not> d_timer_active d'"
proof -
  have g: "d_guid example_offering = ''me''" "\<not> d_timer_active example_offering"
    "''node/pose'' \<in> fst ` set (ts_observers (d_topics example_offering))"
    "\<forall>g. g \<noteq> d_guid example_offering \<longrightarrow> registered (d_topics example_offering) ''node/pose'' g = None"
    by (auto simp: example_offering_def example_dir_def registered_def net_get_def)
  have inv: "send_inv example_env (example_offering\<lparr>d_topics := s\<rparr>)"
    "env_ok example_env (example_offering\<lparr>d_topics := s\<rparr>)" for s
    using example_offering_ok by (auto simp: dir_ok_def send_inv_def env_ok_def)
  have send: "\<exists>r. dir_send example_env DISCOVERY_REMOVE ''node/pose'' (example_offering\<lparr>d_topics := s\<rparr>) = Inr r" for s
    using dir_send_ok [OF inv [of s], of DISCOVERY_REMOVE "''node/pose''"]
    by (auto simp: g packet_text_def DISPATCH_def)
  obtain s' cs m where r: "ts_remove ''me'' ''node/pose'' (d_topics example_offering) = (s', cs, m)"
    using prod_cases3 by blast
  obtain d' out where "dir_remove example_env ''node/pose'' example_offering = Inr (d', out)"
    using send [of s'] by (cases m) (auto simp: dir_remove_def g r Let_def)
  with own_removal_starts_no_query [OF example_offering_ok g(2-4) this] show ?thesis by blast
qed

lemma exit_event:
  assumes "wire_word g" and "list_all isprint (packet_text g DISCOVERY_EXIT [])"
    and "length (packet_text g DISCOVERY_EXIT []) < EVENT_BUFFER_SIZE" and "dir_ok env d" and "d_guid d \<noteq> g"
  shows "\<exists>d' out. dir_event env False (packet_text g DISCOVERY_EXIT []) d = Some (Inr (d', out)) \<and>
    registered (d_topics d') = (\<lambda>n h. if h = g then None else registered (d_topics d) n h) \<and>
    d_timer_active d' \<and> waits out = [QUERY_ZERO] \<and> packets out = []"
proof -
  let ?p = "packet_text g DISCOVERY_EXIT []"
  have p: "?p = DISPATCH @ g @ '' '' @ [DISCOVERY_EXIT]" by (simp add: packet_text_def)
  define rest where "rest = drop (Suc (length ?p)) (d_buffer d)"
  obtain s' cs where e: "ts_evict g (d_topics d) = (s', cs)" by fastforce
  have ok: "store_ok (d_topics d)" and buf: "length (d_buffer d) = EVENT_BUFFER_SIZE + 1"
    using assms(4) by (auto simp: dir_ok_def)
  let ?d = "d\<lparr>d_topics := s', d_timer_active := True, d_interval := QUERY_INTERVAL\<rparr>"
  let ?out = "map Called cs @ (if d_timer_active d then [Timer_Cancel] else []) @ [Timer_Wait QUERY_ZERO]"
  have "length DISPATCH + length g + 2 < EVENT_BUFFER_SIZE" using assms(3) by (simp add: p)
  then have "handleEvent env (?p @ NUL # rest) d
      = Some (Inr (DISPATCH @ g @ [NUL] @ [DISCOVERY_EXIT] @ NUL # rest, ?d, ?out))"
    using handleEvent_packet(2) [OF assms(1) assms(5) [symmetric], of DISCOVERY_EXIT env rest]
    by (simp add: p wire_word_def handle_command_def discoveryExit_def e startQueryTimer_def)
  note ev = dir_event_packet [OF assms(2,3) buf this [unfolded rest_def]]
  have "waits (map Called cs @ o') = waits o'" "packets (map Called cs @ o') = packets o'" for o'
    by (induction cs) auto
  then have "waits (?out @ [Receive]) = [QUERY_ZERO]" "packets (?out @ [Receive]) = []" by (simp_all add: waits_append)
  moreover have "registered s' = (\<lambda>n h. if h = g then None else registered (d_topics d) n h)"
    using ts_evict_result(1) [OF ok e] by (auto simp: registered_def omap_simps fun_eq_iff)
  ultimately show ?thesis using ev by simp
qed

text \<open>
  A node that leaves the network is forgotten: the packet its destructor sends makes every other
  directory drop all topics of that node and only those, and restart its query timer.
\<close>

theorem exit_understood:
  assumes "dir_destroy d1 = [Send_Now packet]" and "wire_word (d_guid d1)" and "list_all isprint packet"
    and "length packet < EVENT_BUFFER_SIZE" and "dir_ok env d2" and "d_guid d2 \<noteq> d_guid d1"
  shows "\<exists>d2' out. dir_event env False packet d2 = Some (Inr (d2', out)) \<and>
    registered (d_topics d2') = (\<lambda>n g. if g = d_guid d1 then None else registered (d_topics d2) n g) \<and>
    d_timer_active d2' \<and> waits out = [QUERY_ZERO]"
proof -
  have "packet = packet_text (d_guid d1) DISCOVERY_EXIT []"
    using assms(1) by (simp add: dir_destroy_def packet_text_def)
  with exit_event [OF assms(2), of env d2] assms(3-6) show ?thesis by fastforce
qed

theorem exit_understood_witness:
  "\<exists>d' out. dir_event example_env False ''DISPATCH a X'' (example_dir ''b'') = Some (Inr (d', out)) \<and>
     waits out = [50]"
proof -
  have "dir_destroy (example_dir ''a'') = [Send_Now ''DISPATCH a X'']"
    by (simp add: dir_destroy_def example_dir_def DISPATCH_def)
  from exit_understood [OF this _ _ _ example_dir_ok(1) [of "''b''"]] show ?thesis
    by (auto simp: example_dir_def wire_word_def isprint_def)
qed

text \<open>
  What happens to a send buffer: after a complete send it goes back to the end of the pool's
  queue, after a partial send exactly the remaining bytes are sent from the same buffer, but after
  an error it is neither pending nor returned to the pool, so it is lost.
\<close>

theorem send_completion:
  assumes "dir_ok env d" and "map_of (d_sends d) buf = Some data" and "buf \<in> pool_region (d_pool d)"
    and "dir_sent buf ec bytes d = (d', out)"
  shows "(if ec then buf \<notin> fst ` set (d_sends d') \<and> d_pool d' = d_pool d \<and>
        buf \<notin> set (free_list (d_pool d'))
      else if bytes < length data then map_of (d_sends d') buf = Some (drop bytes data) \<and>
        out = [Send_To buf (drop bytes data)]
      else buf \<notin> fst ` set (d_sends d') \<and> free_list (d_pool d') = free_list (d_pool d) @ [buf]) \<and>
    dir_ok env d'"
proof -
  have inv: "send_inv env d" "env_ok env d" using assms(1) by (auto simp: dir_ok_def)
  then obtain used where used: "pool_inv (d_pool d) used"
    "\<forall>p \<in> fst ` set (d_sends d). p \<in> used \<or> p \<in> en_os env ` {..<d_mallocs d}"
    by (auto simp: send_inv_def)
  moreover have "buf \<in> fst ` set (d_sends d)" using assms(2) by (force dest: map_of_SomeD)
  ultimately have buf: "buf \<in> used" using inv(2) assms(3) by (auto simp: env_ok_def)
  have full: "buf \<notin> fst ` set (d_sends d') \<and> free_list (d_pool d') = free_list (d_pool d) @ [buf]"
    if "\<not> ec" "\<not> bytes < length data"
    using that bp_free_inv [OF used(1) buf] assms(2,4) by (auto simp: dir_sent_def)
  have partial: "map_of (d_sends d') buf = Some (drop bytes data) \<and> out = [Send_To buf (drop bytes data)]"
    if "\<not> ec" "bytes < length data"
    using that assms(2,4) by (auto simp: dir_sent_def dir_async_send_def map_add_def map_of_eq_None_iff
      split: option.splits dest!: map_of_SomeD)
  have lost: "buf \<notin> fst ` set (d_sends d') \<and> d_pool d' = d_pool d \<and> buf \<notin> set (free_list (d_pool d'))"
    if ec using that assms(2,4) used(1) buf by (auto simp: dir_sent_def pool_inv_def)
  have "d_topics d' = d_topics d \<and> d_guid d' = d_guid d \<and> d_buffer d' = d_buffer d"
    using assms(2,4) by (auto simp: dir_sent_def dir_async_send_def Let_def split: if_splits)
  with dir_sent_inv [OF inv assms(4)] assms(1) have "dir_ok env d'" by (simp add: dir_ok_def)
  with full partial lost show ?thesis by (cases ec; cases "bytes < length data") simp_all
qed

theorem send_completion_witness:
  "\<exists>d buf d'. dir_send example_env DISCOVERY_EXIT [] (example_dir ''me'') = Inr (d, [Send_To buf ''DISPATCH me X'']) \<and>
     dir_sent buf False 13 d = (d', []) \<and> free_list (d_pool d') = free_list (d_pool d) @ [buf]"
proof -
  let ?d0 = "example_dir ''me''"
  have inv: "send_inv example_env ?d0" "env_ok example_env ?d0"
    using example_dir_ok(1) by (auto simp: dir_ok_def)
  have p: "packet_text (d_guid ?d0) DISCOVERY_EXIT [] = ''DISPATCH me X''"
    by (simp add: packet_text_def DISPATCH_def example_dir_def)
  have m: "dir_malloc example_env ?d0 = (?d0\<lparr>d_pool := (d_pool ?d0)\<lparr>bp_head := 1\<rparr>\<rparr>, 1000)"
    by (simp add: dir_malloc_def bp_malloc_def bp_empty_def example_dir_def BufferPool_def bp_next_def nth_append)
  have none: "d_sends ?d0 = []" by (simp add: example_dir_def)
  obtain d out where s: "dir_send example_env DISCOVERY_EXIT [] ?d0 = Inr (d, out)"
    "sent example_env ?d0 d out [''DISPATCH me X'']"
    using dir_send_ok [OF inv, of DISCOVERY_EXIT "[]"] unfolding p by auto
  have out: "out = [Send_To 1000 ''DISPATCH me X'']" "d_sends d = [(1000, ''DISPATCH me X'')]"
    "d_pool d = (d_pool ?d0)\<lparr>bp_head := 1\<rparr>"
    using s(1) none by (auto simp: dir_send_def m p dir_async_send_def Let_def)
  have ok: "dir_ok example_env d" using s(2) example_dir_ok(1) [of "''me''"] by (auto simp: dir_ok_def sent_def)
  have "1000 \<in> pool_region (d_pool d)"
    by (simp add: out pool_region_def example_dir_def BufferPool_def)
  moreover have "map_of (d_sends d) 1000 = Some ''DISPATCH me X''" by (simp add: out)
  moreover obtain d' where d': "dir_sent 1000 False 13 d = (d', [])"
    by (simp add: dir_sent_def out)
  ultimately have "free_list (d_pool d') = free_list (d_pool d) @ [1000]"
    using send_completion [OF ok _ _ d'] by simp
  with s(1) out(1) d' show ?thesis by blast
qed

end
