(* ===== verification/Replication.thy ===== *)
theory Replication
  imports Main
begin

text \<open>
  What a discovery protocol has to provide so that nodes learn of each other's offers: every node
  keeps a view of the offers of every node, changes its own with its actions, and tells the others by
  notices which arrive in the order they were sent. The locale states what actions and the handling
  of notices must keep; its lemmas follow the views through actions, deliveries, joins and departures.
\<close>

text \<open>A channel for every sender and receiver; a notice goes to everybody present.\<close>

definition post :: "('g \<rightharpoonup> 'd) \<Rightarrow> 'g \<Rightarrow> 'm list \<Rightarrow> ('g \<Rightarrow> 'g \<Rightarrow> 'm list) \<Rightarrow> 'g \<Rightarrow> 'g \<Rightarrow> 'm list" where
  "post dirs g ms chan = (\<lambda>a b. if a = g \<and> dirs b \<noteq> None then chan a b @ ms else chan a b)"

definition set_chan :: "'g \<Rightarrow> 'g \<Rightarrow> 'm list \<Rightarrow> ('g \<Rightarrow> 'g \<Rightarrow> 'm list) \<Rightarrow> 'g \<Rightarrow> 'g \<Rightarrow> 'm list" where
  "set_chan g h ms chan = (\<lambda>a b. if a = g \<and> b = h then ms else chan a b)"

definition cut_off :: "'g \<Rightarrow> ('g \<Rightarrow> 'g \<Rightarrow> 'm list) \<Rightarrow> 'g \<Rightarrow> 'g \<Rightarrow> 'm list" where
  "cut_off g chan = (\<lambda>a b. if b = g then [] else chan a b)"

lemmas chan_defs = post_def set_chan_def cut_off_def

lemma map_post: "post dirs g (map f ms) (\<lambda>a b. map (F a) (chan a b)) = (\<lambda>a b. map (F a) (post dirs g ms chan a b))"
  if "F g = f"
  using that by (auto simp: post_def fun_eq_iff)

locale replication =
  fixes effect :: "'m \<Rightarrow> ('k \<rightharpoonup> 'o) \<Rightarrow> ('k \<rightharpoonup> 'o)"
    and bye :: 'm
    and ok :: "'g \<Rightarrow> 'd \<Rightarrow> bool"
    and view :: "'d \<Rightarrow> 'g \<Rightarrow> 'k \<rightharpoonup> 'o"
    and act :: "'g \<Rightarrow> 'd \<Rightarrow> 'm list \<Rightarrow> 'd \<Rightarrow> bool"
    and handle :: "'g \<Rightarrow> 'd \<Rightarrow> 'g \<Rightarrow> 'm \<Rightarrow> 'm list \<Rightarrow> 'd \<Rightarrow> bool"
  assumes effect_mono: "v \<subseteq>\<^sub>m w \<Longrightarrow> effect m v \<subseteq>\<^sub>m effect m w"
    and effect_bye: "effect bye v = Map.empty"
    and act_ok: "ok g d \<Longrightarrow> act g d ms d' \<Longrightarrow> ok g d'"
    and act_own: "ok g d \<Longrightarrow> act g d ms d' \<Longrightarrow> view d' g = fold effect ms (view d g)"
    and act_others: "ok g d \<Longrightarrow> act g d ms d' \<Longrightarrow> a \<noteq> g \<Longrightarrow> view d' a = view d a"
    and handle_ok: "ok h d \<Longrightarrow> handle h d g m ms d' \<Longrightarrow> ok h d'"
    and handle_sender: "ok h d \<Longrightarrow> handle h d g m ms d' \<Longrightarrow> g \<noteq> h \<Longrightarrow> view d' g = effect m (view d g)"
    and handle_others: "ok h d \<Longrightarrow> handle h d g m ms d' \<Longrightarrow> a \<noteq> g \<or> g = h \<Longrightarrow> view d' a = view d a"
    and handle_answers: "ok h d \<Longrightarrow> handle h d g m ms d' \<Longrightarrow> fold effect ms (view d h) = view d h"
begin

text \<open>What a node offers; a node that is not there offers nothing.\<close>

definition own :: "('g \<rightharpoonup> 'd) \<Rightarrow> 'g \<Rightarrow> 'k \<rightharpoonup> 'o" where
  "own dirs g = (case dirs g of None \<Rightarrow> Map.empty | Some d \<Rightarrow> view d g)"

text \<open>What \<open>h\<close> will know of \<open>g\<close> once it has handled what \<open>g\<close> has sent.\<close>

definition prospect :: "('g \<Rightarrow> 'g \<Rightarrow> 'm list) \<Rightarrow> 'g \<Rightarrow> 'g \<Rightarrow> 'd \<Rightarrow> 'k \<rightharpoonup> 'o" where
  "prospect chan g h d = fold effect (chan g h) (view d g)"

text \<open>Nobody will know of anything that is not offered, and those in \<open>full\<close> will know of everything.\<close>

definition agrees :: "('g \<Rightarrow> 'g \<Rightarrow> bool) \<Rightarrow> ('g \<rightharpoonup> 'd) \<Rightarrow> ('g \<Rightarrow> 'g \<Rightarrow> 'm list) \<Rightarrow> bool" where
  "agrees full dirs chan \<longleftrightarrow> (\<forall>h d g. dirs h = Some d \<longrightarrow> ok h d \<and> (g \<noteq> h \<longrightarrow>
     prospect chan g h d \<subseteq>\<^sub>m own dirs g \<and> (full h g \<longrightarrow> prospect chan g h d = own dirs g)))"

lemma agreesD:
  assumes "agrees full dirs chan" and "dirs h = Some d"
  shows "ok h d" and "g \<noteq> h \<Longrightarrow> prospect chan g h d \<subseteq>\<^sub>m own dirs g"
    and "g \<noteq> h \<Longrightarrow> full h g \<Longrightarrow> prospect chan g h d = own dirs g"
  using assms unfolding agrees_def by blast+

lemma fold_effect_mono: "v \<subseteq>\<^sub>m w \<Longrightarrow> fold effect ms v \<subseteq>\<^sub>m fold effect ms w"
  by (induction ms arbitrary: v w) (auto intro: effect_mono)

text \<open>A node does something and tells the others.\<close>

lemma agrees_act:
  assumes inv: "agrees full dirs chan" and g: "dirs g = Some d" and act: "act g d ms d'"
  shows "agrees full (dirs(g \<mapsto> d')) (post (dirs(g \<mapsto> d')) g ms chan)"
proof -
  note gok = agreesD(1) [OF inv g]
  have own: "own (dirs(g \<mapsto> d')) a = (if a = g then fold effect ms (own dirs g) else own dirs a)" for a
    using act_own [OF gok act] g by (simp add: own_def)
  have step: "prospect (post (dirs(g \<mapsto> d')) g ms chan) a h e' =
      (if a = g then fold effect ms (prospect chan g h e) else prospect chan a h e)"
    if "a \<noteq> h" "dirs h = Some e" "e' = (if h = g then d' else e)" for a h e e'
    using that act_others [OF gok act, of a] g by (auto simp: prospect_def post_def)
  show ?thesis
    unfolding agrees_def
  proof (intro allI impI conjI)
    fix h e' a
    assume h: "(dirs(g \<mapsto> d')) h = Some e'"
    then obtain e where e: "dirs h = Some e" "e' = (if h = g then d' else e)"
      using g by (cases "h = g") auto
    show "ok h e'" using agreesD(1) [OF inv e(1)] act_ok [OF gok act] e(2) by auto
    assume a: "a \<noteq> h"
    show "prospect (post (dirs(g \<mapsto> d')) g ms chan) a h e' \<subseteq>\<^sub>m own (dirs(g \<mapsto> d')) a"
      using agreesD(2) [OF inv e(1) a] by (auto simp: own step [OF a e] intro: fold_effect_mono)
    assume "full h a"
    then show "prospect (post (dirs(g \<mapsto> d')) g ms chan) a h e' = own (dirs(g \<mapsto> d')) a"
      using agreesD(3) [OF inv e(1) a] by (auto simp: own step [OF a e])
  qed
qed

text \<open>A node handles the next notice of another one and answers.\<close>

lemma own_handle:
  assumes "ok h d" and "dirs h = Some d" and "handle h d g m rs d'"
  shows "own (dirs(h \<mapsto> d')) a = own dirs a"
  using handle_others [OF assms(1,3), of h] assms(2) by (cases "g = h") (auto simp: own_def)

lemma prospect_handle:
  assumes hok: "ok h d" and h: "dirs h = Some d" and first: "chan g h = m # ms" and handle: "handle h d g m rs d'"
    and "a \<noteq> b" and "dirs b = Some e" and "e' = (if b = h then d' else e)"
  shows "prospect (post (dirs(h \<mapsto> d')) h rs (set_chan g h ms chan)) a b e' =
      (if a = h then fold effect rs (prospect chan h b e) else prospect chan a b e)"
proof (cases "a = g \<and> b = h")
  case True
  then have "g \<noteq> h" using assms(5) by simp
  with True assms(6,7) h first handle_sender [OF hok handle] show ?thesis
    by (auto simp: prospect_def post_def set_chan_def)
next
  case False
  then have "view e' a = view e a"
    using assms(5-7) h handle_others [OF hok handle, of a] by (cases "b = h") auto
  with assms(5-7) False show ?thesis by (auto simp: prospect_def post_def set_chan_def)
qed

lemma agrees_handle:
  assumes inv: "agrees full dirs chan" and h: "dirs h = Some d" and first: "chan g h = m # ms"
    and handle: "handle h d g m rs d'"
  shows "agrees full (dirs(h \<mapsto> d')) (post (dirs(h \<mapsto> d')) h rs (set_chan g h ms chan))"
proof -
  let ?dirs = "dirs(h \<mapsto> d')" and ?chan = "set_chan g h ms chan"
  note hok = agreesD(1) [OF inv h]
  note own = own_handle [of h d dirs, OF hok h handle] and step = prospect_handle [of h d dirs chan, OF hok h first handle]
  have answers: "fold effect rs (own dirs h) = own dirs h"
    using handle_answers [OF hok handle] h by (simp add: own_def)
  show ?thesis
    unfolding agrees_def
  proof (intro allI impI conjI)
    fix b e' a
    assume b: "?dirs b = Some e'"
    then obtain e where e: "dirs b = Some e" "e' = (if b = h then d' else e)"
      using h by (cases "b = h") auto
    show "ok b e'" using agreesD(1) [OF inv e(1)] handle_ok [OF hok handle] e(2) by auto
    assume a: "a \<noteq> b"
    note le = agreesD(2) [OF inv e(1) a]
    show "prospect (post ?dirs h rs ?chan) a b e' \<subseteq>\<^sub>m own ?dirs a"
    proof (cases "a = h")
      case True
      with fold_effect_mono [OF le, of rs] show ?thesis unfolding own step [OF a e] by (simp add: answers)
    qed (simp add: own step [OF a e] le)
    assume "full b a"
    then show "prospect (post ?dirs h rs ?chan) a b e' = own ?dirs a"
      using agreesD(3) [OF inv e(1) a] answers by (auto simp: own step [OF a e])
  qed
qed

text \<open>A node joins that knows nothing yet; it need only be told of nodes that come after it.\<close>

lemma agrees_join:
  assumes inv: "agrees full dirs chan" and g: "dirs g = None" and d: "ok g d" "\<And>a. view d a = Map.empty"
    and full: "\<And>h a. h \<noteq> g \<Longrightarrow> full' h a \<Longrightarrow> full h a"
    and later: "\<And>a. a \<noteq> g \<Longrightarrow> full' g a \<Longrightarrow> dirs a = None"
  shows "agrees full' (dirs(g \<mapsto> d)) (cut_off g chan)"
proof -
  have own: "own (dirs(g \<mapsto> d)) a = own dirs a" for a using g d(2) by (simp add: own_def)
  show ?thesis
    unfolding agrees_def
  proof (intro allI impI conjI)
    fix h e a
    assume h: "(dirs(g \<mapsto> d)) h = Some e"
    show "ok h e" using h agreesD(1) [OF inv] d(1) by (cases "h = g") auto
    assume a: "a \<noteq> h"
    show "prospect (cut_off g chan) a h e \<subseteq>\<^sub>m own (dirs(g \<mapsto> d)) a"
      using h agreesD(2) [OF inv _ a] d(2) by (cases "h = g") (auto simp: own prospect_def cut_off_def)
    assume f: "full' h a"
    show "prospect (cut_off g chan) a h e = own (dirs(g \<mapsto> d)) a"
    proof (cases "h = g")
      case True
      with later [of a] f a h d(2) show ?thesis by (simp add: prospect_def cut_off_def own) (simp add: own_def)
    next
      case False
      with full [OF False f] h agreesD(3) [OF inv _ a] show ?thesis
        by (auto simp: own prospect_def cut_off_def)
    qed
  qed
qed

text \<open>A node says goodbye and leaves.\<close>

lemma agrees_leave:
  assumes inv: "agrees full dirs chan" and g: "dirs g = Some d"
  shows "agrees full (dirs(g := None)) (cut_off g (post dirs g [bye] chan))"
proof -
  have own: "own (dirs(g := None)) a = (if a = g then Map.empty else own dirs a)" for a by (simp add: own_def)
  have step: "prospect (cut_off g (post dirs g [bye] chan)) a h e = (if a = g then Map.empty else prospect chan a h e)"
    if "h \<noteq> g" "dirs h = Some e" for a h e
    using that by (auto simp: prospect_def chan_defs effect_bye)
  show ?thesis
    unfolding agrees_def
  proof (intro allI impI conjI)
    fix h e a
    assume "(dirs(g := None)) h = Some e"
    then have h: "h \<noteq> g" "dirs h = Some e" by (auto split: if_splits)
    show "ok h e" by (rule agreesD(1) [OF inv h(2)])
    assume a: "a \<noteq> h"
    show "prospect (cut_off g (post dirs g [bye] chan)) a h e \<subseteq>\<^sub>m own (dirs(g := None)) a"
      using agreesD(2) [OF inv h(2) a] by (simp add: own step [OF h])
    assume "full h a"
    then show "prospect (cut_off g (post dirs g [bye] chan)) a h e = own (dirs(g := None)) a"
      using agreesD(3) [OF inv h(2) a] by (simp add: own step [OF h])
  qed
qed

text \<open>With nothing on its way, the view itself agrees.\<close>

lemma agrees_quiet:
  assumes "agrees full dirs chan" and "dirs h = Some d" and "chan g h = []" and "g \<noteq> h"
  shows "view d g \<subseteq>\<^sub>m own dirs g" and "full h g \<Longrightarrow> view d g = own dirs g"
  using agreesD(2,3) [OF assms(1,2,4)] assms(3) by (simp_all add: prospect_def)

end

end
