(* ===== verification/Discovery_Network.thy ===== *)
theory Discovery_Network
  imports Discovery_Queries Replication
begin

text \<open>
  Many directories (\<open>src/a17/dispatch/directory.cpp\<close>) on one multicast group. Every packet goes to all
  members of the group, the sender included, and waits in a channel until the receiver's event loop
  takes it up. Nodes join, call their directory, have their timers fire and their sends completed, receive
  packets and leave, in any order; a lossy network may also drop, repeat and reorder packets.
\<close>

section \<open>Calls of a directory\<close>

datatype dir_call =
    Call_Add string int string "string list" "string list"
  | Call_Remove string
  | Call_Observe string string nat
  | Call_Unobserve string string
  | Call_Timer bool
  | Call_Sent nat bool nat

fun do_call :: "env \<Rightarrow> dir_call \<Rightarrow> directory \<Rightarrow> dir_step" where
  "do_call env (Call_Add name type address ins outs) d =
     and_then (dir_add env name type address ins outs (d_guid d) d) (\<lambda>(d, out, mine). Inr (d, out))"
| "do_call env (Call_Remove name) d = dir_remove env name d"
| "do_call env (Call_Observe uuid name handler) d = (let (d, out, ref) = dir_observe uuid name handler d in Inr (d, out))"
| "do_call env (Call_Unobserve name ref) d = Inr (dir_unobserve name ref d)"
| "do_call env (Call_Timer ec) d = queryMissingTopics env ec d"
| "do_call env (Call_Sent buf ec bytes) d = Inr (dir_sent buf ec bytes d)"

section \<open>The network\<close>

text \<open>
  The members by their guid, the packets on their way by sender and receiver, the guids in the order they
  joined, also of nodes that have left, and every triple of guid, name and address that was ever offered.
\<close>

record network =
  net_dir :: "string \<rightharpoonup> directory"
  net_chan :: "string \<Rightarrow> string \<Rightarrow> string list"
  net_joined :: "string list"
  net_offered :: "(string \<times> string \<times> string) set"

definition net_empty :: network where
  "net_empty = \<lparr>net_dir = Map.empty, net_chan = (\<lambda>_ _. []), net_joined = [], net_offered = {}\<rparr>"

definition offers :: "directory \<Rightarrow> (string \<times> string \<times> string) set" where
  "offers d = {(d_guid d, n, dt_address t) | n t. ts_findLocal n (d_topics d) = Some t}"

definition multicast :: "string \<Rightarrow> dir_out list \<Rightarrow> network \<Rightarrow> network" where
  "multicast g out s = s\<lparr>net_chan := post (net_dir s) g (packets out) (net_chan s)\<rparr>"

text \<open>
  What packets can carry: a guid and names are printable and contain no blanks, and so do addresses and types, and all
  members take the addresses for ones of their network. A datagram is sent as a whole (no rest of it is sent
  again), and its sending fails only on a lossy network.
\<close>

definition printable_word :: "string \<Rightarrow> bool" where
  "printable_word w \<longleftrightarrow> wire_word w \<and> list_all isprint w"

definition types_fine :: "string list \<Rightarrow> bool" where
  "types_fine ts \<longleftrightarrow> types_ok ts \<and> list_all isprint (writeTypes ts)"

definition near :: "(string \<Rightarrow> env) \<Rightarrow> string \<Rightarrow> bool" where
  "near envs address \<longleftrightarrow> (\<forall>h. onNetwork (en_inet_addr (envs h)) (en_own (envs h)) (ad_ip (Address_parse address)))"

fun call_ok :: "bool \<Rightarrow> (string \<Rightarrow> env) \<Rightarrow> dir_call \<Rightarrow> dir_out list \<Rightarrow> bool" where
  "call_ok lossy envs (Call_Add name type address ins outs) out \<longleftrightarrow>
     printable_word name \<and> name \<noteq> [] \<and> printable_word address \<and> address \<noteq> [] \<and> near envs address \<and>
     types_fine ins \<and> types_fine outs"
| "call_ok lossy envs (Call_Observe uuid name handler) out \<longleftrightarrow> printable_word name"
| "call_ok lossy envs (Call_Sent buf ec bytes) out \<longleftrightarrow> packets out = [] \<and> (ec \<longrightarrow> lossy)"
| "call_ok lossy envs _ out \<longleftrightarrow> True"

definition boots :: "env \<Rightarrow> directory \<Rightarrow> bool" where
  "boots env d \<longleftrightarrow> (\<exists>name uuid mem buffer next_port next' out.
     make_directory env name uuid mem buffer True True next_port = Inr (d, next', out) \<and>
     length buffer = EVENT_BUFFER_SIZE + 1 \<and> 0 < mem \<and> inj (en_os env) \<and> 0 \<notin> range (en_os env) \<and>
     range (en_os env) \<inter> {mem..<mem + 64 * EVENT_BUFFER_SIZE} = {}) \<and>
     printable_word (d_guid d) \<and> length (packet_text (d_guid d) DISCOVERY_EXIT []) < EVENT_BUFFER_SIZE"

inductive net_deliver :: "(string \<Rightarrow> env) \<Rightarrow> network \<Rightarrow> network \<Rightarrow> bool" for envs where
  deliver: "\<lbrakk>net_dir s h = Some d; net_chan s g h = p # ps;
    dir_event ((envs h)\<lparr>en_now := now\<rparr>) False p d = Some (Inr (d', out))\<rbrakk> \<Longrightarrow> net_deliver envs s
      (multicast h out (s\<lparr>net_dir := (net_dir s)(h \<mapsto> d'), net_chan := set_chan g h ps (net_chan s)\<rparr>))"

inductive net_step :: "bool \<Rightarrow> (string \<Rightarrow> env) \<Rightarrow> network \<Rightarrow> network \<Rightarrow> bool" for lossy envs where
  join: "\<lbrakk>d_guid d \<notin> set (net_joined s); boots (envs (d_guid d)) d\<rbrakk> \<Longrightarrow> net_step lossy envs s
    (s\<lparr>net_dir := (net_dir s)(d_guid d \<mapsto> d), net_chan := cut_off (d_guid d) (net_chan s),
       net_joined := net_joined s @ [d_guid d]\<rparr>)"
| leave: "\<lbrakk>net_dir s g = Some d; dir_destroy d = [Send_Now p]\<rbrakk> \<Longrightarrow> net_step lossy envs s
    (s\<lparr>net_dir := (net_dir s)(g := None),
       net_chan := cut_off g (post (net_dir s) g [p] (net_chan s))\<rparr>)"
| call: "\<lbrakk>net_dir s g = Some d; do_call ((envs g)\<lparr>en_now := now\<rparr>) c d = Inr (d', out); call_ok lossy envs c out\<rbrakk>
    \<Longrightarrow> net_step lossy envs s
      (multicast g out (s\<lparr>net_dir := (net_dir s)(g \<mapsto> d'), net_offered := net_offered s \<union> offers d'\<rparr>))"
| delivery: "net_deliver envs s s' \<Longrightarrow> net_step lossy envs s s'"
| disturb: "\<lbrakk>lossy; set ps \<subseteq> set (net_chan s g h)\<rbrakk> \<Longrightarrow> net_step lossy envs s
    (s\<lparr>net_chan := set_chan g h ps (net_chan s)\<rparr>)"

section \<open>Notices\<close>

text \<open>What the packets say, and what they make a receiver believe of the sender.\<close>

datatype notice =
    Available string string string "string list" "string list"
  | Removed string
  | Searched "string list"
  | Gone

fun notice_text :: "string \<Rightarrow> notice \<Rightarrow> string" where
  "notice_text g (Available name type address ins outs) =
     packet_text g DISCOVERY_AVAILABLE (topic_info name type address ins outs)"
| "notice_text g (Removed name) = packet_text g DISCOVERY_REMOVE name"
| "notice_text g (Searched names) = query_text g names"
| "notice_text g Gone = packet_text g DISCOVERY_EXIT []"

fun notice_effect :: "notice \<Rightarrow> (string \<rightharpoonup> string) \<Rightarrow> (string \<rightharpoonup> string)" where
  "notice_effect (Available name type address ins outs) v = v(name \<mapsto> address)"
| "notice_effect (Removed name) v = v(name := None)"
| "notice_effect (Searched names) v = v"
| "notice_effect Gone v = Map.empty"

fun notice_words :: "(string \<Rightarrow> env) \<Rightarrow> notice \<Rightarrow> bool" where
  "notice_words envs (Available name tname address ins outs) \<longleftrightarrow>
     printable_word name \<and> name \<noteq> [] \<and> printable_word address \<and> address \<noteq> [] \<and> near envs address \<and>
     types_fine ins \<and> types_fine outs \<and> (\<exists>type. fromType type = Inr tname)"
| "notice_words envs (Removed name) \<longleftrightarrow> printable_word name \<and> name \<noteq> []"
| "notice_words envs (Searched names) \<longleftrightarrow> names \<noteq> [] \<and> (\<forall>n \<in> set names. printable_word n)"
| "notice_words envs Gone \<longleftrightarrow> True"

definition notice_ok :: "(string \<Rightarrow> env) \<Rightarrow> string \<Rightarrow> notice \<Rightarrow> bool" where
  "notice_ok envs g m \<longleftrightarrow> printable_word g \<and> notice_words envs m \<and> length (notice_text g m) < EVENT_BUFFER_SIZE"

definition view :: "directory \<Rightarrow> string \<Rightarrow> string \<rightharpoonup> string" where
  "view d g = (\<lambda>n. map_option dt_address (registered (d_topics d) n g))"

definition notice_of :: "string \<Rightarrow> DirectoryTopic \<Rightarrow> notice" where
  "notice_of n t = Available n (socket_types ! nat (dt_socketType t)) (dt_address t) (dt_inputTypes t) (dt_outputTypes t)"

lemma fromType_name: "fromType type = Inr tname \<Longrightarrow> tname = socket_types ! nat type"
  by (auto simp: fromType_def split: if_splits)

lemma printable_DISPATCH: "list_all isprint DISPATCH"
  by (simp add: DISPATCH_def isprint_def)

lemma printable_type: "fromType type = Inr tname \<Longrightarrow> list_all isprint tname"
  using fromType_chars by (fastforce simp: list_all_iff isprint_def)

lemma isprint_commands [simp]: "isprint DISCOVERY_AVAILABLE" "isprint DISCOVERY_REMOVE" "isprint DISCOVERY_SEARCH"
  "isprint DISCOVERY_EXIT" "isprint (CHR '' '')"
  by (simp_all add: isprint_def)

lemma notice_printable: "notice_ok envs g m \<Longrightarrow> list_all isprint (notice_text g m)"
proof (cases m)
  case (Searched names)
  moreover assume "notice_ok envs g m"
  ultimately have "list_all isprint (concat (map (\<lambda>n. CHR '' '' # n) names))" "list_all isprint g"
    by (auto simp: notice_ok_def printable_word_def list_all_iff)
  with Searched show ?thesis by (simp add: query_text_def packet_text_def printable_DISPATCH)
qed (auto simp: notice_ok_def printable_word_def types_fine_def packet_text_def topic_info_def
      printable_DISPATCH dest: printable_type)

section \<open>What calls do\<close>

text \<open>The invariant of a member: its topics have been announced, what it observes can be asked for.\<close>

definition topic_fine :: "(string \<Rightarrow> env) \<Rightarrow> string \<Rightarrow> string \<Rightarrow> DirectoryTopic \<Rightarrow> bool" where
  "topic_fine envs g n t \<longleftrightarrow> notice_ok envs g (notice_of n t) \<and>
     packet_text g DISCOVERY_AVAILABLE (dt_info t) = notice_text g (notice_of n t)"

definition dir_fine :: "(string \<Rightarrow> env) \<Rightarrow> string \<Rightarrow> directory \<Rightarrow> bool" where
  "dir_fine envs g d \<longleftrightarrow> dir_ok (envs g) d \<and> topics_fit d \<and> d_guid d = g \<and> notice_ok envs g Gone \<and>
     (\<forall>(n, t) \<in> set (ts_local_topics (d_topics d)). topic_fine envs g n t) \<and>
     (\<forall>(n, ob) \<in> set (ts_observers (d_topics d)). printable_word n)"

lemma dir_fineD:
  assumes "dir_fine envs g d"
  shows "dir_ok (envs g) d" "topics_fit d" "d_guid d = g" "notice_ok envs g Gone" "printable_word g"
    "(n, t) \<in> set (ts_local_topics (d_topics d)) \<Longrightarrow> topic_fine envs g n t"
    "(n, ob) \<in> set (ts_observers (d_topics d)) \<Longrightarrow> printable_word n"
    "ts_my_guid (d_topics d) = g" "store_ok (d_topics d)"
  using assms by (auto simp: dir_fine_def notice_ok_def dir_ok_def)

text \<open>The own offers are the view of oneself.\<close>

lemma own_view: "dir_fine envs g d \<Longrightarrow> registered (d_topics d) n g = ts_findLocal n (d_topics d)"
  using store_okD(5) [OF dir_fineD(9)] dir_fineD(8) by (metis ts_findLocal_def)

lemma dir_fine_same:
  assumes "dir_fine envs g d" and "dir_ok (envs g) d'" and "topics_fit d'" and "d_guid d' = d_guid d"
    and "ts_local_topics (d_topics d') = ts_local_topics (d_topics d)"
    and "ts_observers (d_topics d') = ts_observers (d_topics d)"
  shows "dir_fine envs g d'"
  using assms by (simp add: dir_fine_def)

lemma dir_add_offer:
  assumes "dir_ok env d" and "topics_fit d"
    and "dir_add env name type address ins outs (d_guid d) d = Inr (d', out, mine)"
  defines "tname \<equiv> socket_types ! nat type"
  defines "t \<equiv> \<lparr>dt_name = name, dt_timestamp = en_now env, dt_socketType = type, dt_address = address, dt_inputTypes = ins,
      dt_outputTypes = outs, dt_guid = d_guid d, dt_info = topic_info name tname address ins outs\<rparr>"
  shows "fromType type = Inr tname"
    and "ts_local_topics (d_topics d') = omap_put name t (ts_local_topics (d_topics d))"
    and "ts_observers (d_topics d') = ts_observers (d_topics d)" and "d_guid d' = d_guid d"
    and "registered (d_topics d') = (\<lambda>n h. if n = name \<and> h = d_guid d then Some t else registered (d_topics d) n h)"
    and "packets out = [packet_text (d_guid d) DISCOVERY_AVAILABLE (dt_info t)]"
    and "length (packet_text (d_guid d) DISCOVERY_AVAILABLE (dt_info t)) < EVENT_BUFFER_SIZE"
proof -
  have type: "fromType type = Inr tname"
    using assms(3) fromType_name [of type] by (auto simp: dir_add_def buildTopicInfo_def tname_def)
  let ?info = "topic_info name tname address ins outs"
  have info: "buildTopicInfo name type address ins outs = Inr ?info"
    by (simp add: buildTopicInfo_def type topic_info_def)
  have ok: "store_ok (d_topics d)" and me: "ts_my_guid (d_topics d) = d_guid d"
    using assms(1) by (auto simp: dir_ok_def)
  obtain s' cs m where add: "ts_add t (d_topics d) = Inr (s', cs, m)"
    using assms(3) by (cases "ts_add t (d_topics d)") (auto simp: dir_add_def info t_def)
  note r = ts_add_result [OF ok add] and own = ts_add_own [OF ok _ add]
  let ?d = "d\<lparr>d_topics := s'\<rparr>"
  obtain out' where send: "dir_send env DISCOVERY_AVAILABLE ?info ?d = Inr (d', out')" "out = map Called cs @ out'"
    using assms(3) own me by (auto simp: dir_add_def info add [unfolded t_def] t_def)
  have inv: "send_inv env ?d" "env_ok env ?d" using assms(1) by (auto simp: dir_ok_def send_inv_def env_ok_def)
  note s = dir_send_sent [OF inv send(1)]
  have "packets (map Called cs @ out') = packets out'" by (induction cs) auto
  then have "packets out = [packet_text (d_guid d) DISCOVERY_AVAILABLE ?info]"
    using s send(2) sent_packets by fastforce
  with type s r(3-6) own me show "fromType type = Inr tname"
    "ts_local_topics (d_topics d') = omap_put name t (ts_local_topics (d_topics d))"
    "ts_observers (d_topics d') = ts_observers (d_topics d)" "d_guid d' = d_guid d"
    "registered (d_topics d') = (\<lambda>n h. if n = name \<and> h = d_guid d then Some t else registered (d_topics d) n h)"
    "packets out = [packet_text (d_guid d) DISCOVERY_AVAILABLE (dt_info t)]"
    "length (packet_text (d_guid d) DISCOVERY_AVAILABLE (dt_info t)) < EVENT_BUFFER_SIZE"
    by (auto simp: sent_def t_def)
qed

lemma dir_remove_offer:
  assumes "dir_ok env d" and "topics_fit d" and "dir_remove env name d = Inr (d', out)"
  shows "ts_local_topics (d_topics d') = omap_del name (ts_local_topics (d_topics d))"
    and "ts_observers (d_topics d') = ts_observers (d_topics d)" and "d_guid d' = d_guid d"
    and "registered (d_topics d') = (\<lambda>n h. if n = name \<and> h = d_guid d then None else registered (d_topics d) n h)"
    and "packets out = (if ts_findLocal name (d_topics d) = None then []
      else [packet_text (d_guid d) DISCOVERY_REMOVE name])"
    and "ts_findLocal name (d_topics d) \<noteq> None \<Longrightarrow> length (packet_text (d_guid d) DISCOVERY_REMOVE name) < EVENT_BUFFER_SIZE"
proof -
  obtain s' cs m where r: "ts_remove (d_guid d) name (d_topics d) = (s', cs, m)" using prod_cases3 by blast
  have ok: "store_ok (d_topics d)" and me: "ts_my_guid (d_topics d) = d_guid d"
    using assms(1) by (auto simp: dir_ok_def)
  note rr = ts_remove_result [OF ok r]
  let ?d = "d\<lparr>d_topics := s'\<rparr>"
  have inv: "send_inv env ?d" "env_ok env ?d" using assms(1) by (auto simp: dir_ok_def send_inv_def env_ok_def)
  have m: "m \<longleftrightarrow> ts_findLocal name (d_topics d) \<noteq> None" using rr(5) me by (simp add: ts_findLocal_def)
  have called: "packets (map Called cs @ o') = packets o'" for o' by (induction cs) auto
  have d': "d_topics d' = s'" "d_guid d' = d_guid d"
    "packets out = (if m then [packet_text (d_guid d) DISCOVERY_REMOVE name] else [])"
    "m \<Longrightarrow> length (packet_text (d_guid d) DISCOVERY_REMOVE name) < EVENT_BUFFER_SIZE"
  proof -
    have "d_topics d' = s' \<and> d_guid d' = d_guid d \<and>
      packets out = (if m then [packet_text (d_guid d) DISCOVERY_REMOVE name] else []) \<and>
      (m \<longrightarrow> length (packet_text (d_guid d) DISCOVERY_REMOVE name) < EVENT_BUFFER_SIZE)"
    proof (cases m)
      case True
      then obtain out' where send: "dir_send env DISCOVERY_REMOVE name ?d = Inr (d', out')" "out = map Called cs @ out'"
        using assms(3) by (auto simp: dir_remove_def r)
      note s = dir_send_sent [OF inv send(1)]
      from s sent_packets [of env ?d d' out'] True show ?thesis by (auto simp: send(2) called sent_def)
    next
      case False
      with assms(3) called [of "[]"] show ?thesis by (auto simp: dir_remove_def r)
    qed
    then show "d_topics d' = s'" "d_guid d' = d_guid d"
      "packets out = (if m then [packet_text (d_guid d) DISCOVERY_REMOVE name] else [])"
      "m \<Longrightarrow> length (packet_text (d_guid d) DISCOVERY_REMOVE name) < EVENT_BUFFER_SIZE" by auto
  qed
  show "ts_local_topics (d_topics d') = omap_del name (ts_local_topics (d_topics d))"
    "ts_observers (d_topics d') = ts_observers (d_topics d)" "d_guid d' = d_guid d" using d' rr me by auto
  show "registered (d_topics d') = (\<lambda>n h. if n = name \<and> h = d_guid d then None else registered (d_topics d) n h)"
    unfolding d' using rr(1) by (auto simp: registered_def omap_simps fun_eq_iff)
  show "packets out = (if ts_findLocal name (d_topics d) = None then [] else [packet_text (d_guid d) DISCOVERY_REMOVE name])"
    "ts_findLocal name (d_topics d) \<noteq> None \<Longrightarrow> length (packet_text (d_guid d) DISCOVERY_REMOVE name) < EVENT_BUFFER_SIZE"
    using d'(3,4) m by auto
qed

lemma query_offer:
  assumes "dir_ok env d" and "queryMissingTopics env ec d = Inr (d', out)"
  shows "d_topics d' = d_topics d" and "d_guid d' = d_guid d"
    and "\<exists>groups. packets out = map (query_text (d_guid d)) groups \<and>
      (\<not> ec \<longrightarrow> set (concat groups) = set (ts_getMissing (d_topics d))) \<and> (\<forall>g \<in> set groups. g \<noteq> [] \<and>
      set g \<subseteq> set (ts_getMissing (d_topics d)) \<and> length (query_text (d_guid d) g) < EVENT_BUFFER_SIZE)"
proof -
  have "d_topics d' = d_topics d \<and> d_guid d' = d_guid d \<and>
    (\<exists>groups. packets out = map (query_text (d_guid d)) groups \<and>
      (\<not> ec \<longrightarrow> set (concat groups) = set (ts_getMissing (d_topics d))) \<and> (\<forall>g \<in> set groups. g \<noteq> [] \<and>
      set g \<subseteq> set (ts_getMissing (d_topics d)) \<and> length (query_text (d_guid d) g) < EVENT_BUFFER_SIZE))"
  proof (cases "ec \<or> ts_getMissing (d_topics d) = []")
    case True
    with assms show ?thesis by (auto simp: queryMissingTopics_def split: if_splits intro!: exI [of _ "[]"])
  next
    case False
    then obtain i w q where q: "query_loop env None 0 (ts_getMissing (d_topics d)) (d\<lparr>d_interval := i\<rparr>) = Inr (d', q)"
      "out = Timer_Wait w # q"
      using assms(2) by (auto simp: queryMissingTopics_def Let_def)
    let ?d = "d\<lparr>d_interval := i\<rparr>"
    have inv: "send_inv env ?d" "env_ok env ?d" using assms(1) by (auto simp: dir_ok_def send_inv_def env_ok_def)
    have "\<forall>n \<in> set (ts_getMissing (d_topics d)). length (query_text (d_guid ?d) [n]) < EVENT_BUFFER_SIZE"
      using query_loop_fits [OF q(1)] by simp
    then obtain groups where s: "sent env ?d d' q (map (query_text (d_guid d)) groups)"
      "grouped (d_guid d) (ts_getMissing (d_topics d)) groups"
      using query_loop_groups [OF inv, of "ts_getMissing (d_topics d)"] False q(1) by auto
    have all: "set (concat groups) = set (ts_getMissing (d_topics d))" using s(2) by (simp add: grouped_def)
    then have "set g \<subseteq> set (ts_getMissing (d_topics d))" if "g \<in> set groups" for g using that by auto
    with s(2) have "\<forall>g \<in> set groups. g \<noteq> [] \<and> set g \<subseteq> set (ts_getMissing (d_topics d)) \<and>
        length (query_text (d_guid d) g) < EVENT_BUFFER_SIZE"
      by (fastforce simp: grouped_def)
    moreover have "packets out = map (query_text (d_guid d)) groups" using sent_packets [OF s(1)] q(2) by simp
    ultimately show ?thesis using sent_same(1,2) [OF s(1)] all by (auto intro!: exI [of _ groups])
  qed
  then show "d_topics d' = d_topics d" and "d_guid d' = d_guid d"
    and "\<exists>groups. packets out = map (query_text (d_guid d)) groups \<and>
      (\<not> ec \<longrightarrow> set (concat groups) = set (ts_getMissing (d_topics d))) \<and> (\<forall>g \<in> set groups. g \<noteq> [] \<and>
      set g \<subseteq> set (ts_getMissing (d_topics d)) \<and> length (query_text (d_guid d) g) < EVENT_BUFFER_SIZE)"
    by blast+
qed

text \<open>What a call says to the others, and that its packets say just that.\<close>

fun call_says :: "dir_call \<Rightarrow> directory \<Rightarrow> notice list \<Rightarrow> bool" where
  "call_says (Call_Add name type address ins outs) d ms \<longleftrightarrow>
     ms = [Available name (socket_types ! nat type) address ins outs]"
| "call_says (Call_Remove name) d ms \<longleftrightarrow> ms = (if ts_findLocal name (d_topics d) = None then [] else [Removed name])"
| "call_says (Call_Timer ec) d ms \<longleftrightarrow> (\<exists>groups. ms = map Searched groups)"
| "call_says _ d ms \<longleftrightarrow> ms = []"

lemma fold_searched: "fold notice_effect (map Searched groups) v = v"
  by (induction groups) auto

lemma dir_observe_fields:
  assumes "dir_observe uuid name h d = (d', out, ref)"
  shows "d_topics d' = fst (ts_observe uuid name h (d_topics d))" "d_guid d' = d_guid d" "packets out = []"
    "d' = fst (startQueryTimer (d\<lparr>d_topics := fst (ts_observe uuid name h (d_topics d))\<rparr>))"
  using assms by (auto simp: dir_observe_def ts_observe_def startQueryTimer_def split: prod.splits if_splits)

lemma dir_unobserve_fields:
  assumes "dir_unobserve name ref d = (d', out)"
  shows "d_topics d' = ts_unobserve name ref (d_topics d)" "d_guid d' = d_guid d" "packets out = []"
    "d' = fst (startQueryTimer (d\<lparr>d_topics := ts_unobserve name ref (d_topics d)\<rparr>))"
  using assms by (auto simp: dir_unobserve_def startQueryTimer_def split: if_splits)

lemma dir_sent_fields:
  assumes "dir_sent buf ec bytes d = (d', out)"
  shows "d_topics d' = d_topics d" "d_guid d' = d_guid d" "d_buffer d' = d_buffer d"
  using assms by (cases "map_of (d_sends d) buf"; auto simp: dir_sent_def dir_async_send_def Let_def split: if_splits)+

lemma call_view:
  assumes "dir_fine envs g d" and "do_call ((envs g)\<lparr>en_now := now\<rparr>) c d = Inr (d', out)" and "call_says c d ms"
  shows "view d' g = fold notice_effect ms (view d g)" and "a \<noteq> g \<Longrightarrow> view d' a = view d a" and "d_guid d' = g"
proof -
  note fine = dir_fineD [OF assms(1)]
  have ok: "dir_ok ((envs g)\<lparr>en_now := now\<rparr>) d" using fine(1) by simp
  have "view d' g = fold notice_effect ms (view d g) \<and> (a \<noteq> g \<longrightarrow> view d' a = view d a) \<and> d_guid d' = g"
  proof (cases c)
    case (Call_Add name type address ins outs)
    with assms(2) obtain mine where add: "dir_add ((envs g)\<lparr>en_now := now\<rparr>) name type address ins outs (d_guid d) d
        = Inr (d', out, mine)" by auto
    from dir_add_offer(4,5) [OF ok fine(2) add] assms(3) Call_Add fine(3) show ?thesis
      by (auto simp: view_def fun_eq_iff)
  next
    case (Call_Remove name)
    note r = dir_remove_offer [OF ok fine(2)] assms(2) [unfolded Call_Remove do_call.simps]
    show ?thesis
      using r(3,4) [OF r(7)] assms(3) Call_Remove fine(3) own_view [OF assms(1), of name]
      by (auto simp: view_def fun_eq_iff)
  next
    case (Call_Observe uuid name h)
    with assms(2,3) show ?thesis
      using dir_observe_fields [of uuid name h d d' out] fine(3)
      by (auto simp: view_def ts_observe_def registered_def split: prod.splits)
  next
    case (Call_Unobserve name ref)
    with assms(2,3) show ?thesis
      using dir_unobserve_fields [of name ref d d' out] fine(3) by (auto simp: view_def ts_unobserve_def registered_def)
  next
    case (Call_Timer ec)
    from query_offer(1,2) [OF ok assms(2) [unfolded Call_Timer do_call.simps]] assms(3) fine(3) Call_Timer show ?thesis by (auto simp: view_def fold_searched)
  next
    case (Call_Sent buf ec bytes)
    with assms(2,3) show ?thesis using dir_sent_fields [of buf ec bytes d d' out] fine(3) by (auto simp: view_def)
  qed
  then show "view d' g = fold notice_effect ms (view d g)" "a \<noteq> g \<Longrightarrow> view d' a = view d a" "d_guid d' = g" by auto
qed

lemma add_fine:
  assumes "dir_fine envs g d" and add: "dir_add ((envs g)\<lparr>en_now := now\<rparr>) name type address ins outs (d_guid d) d = Inr (d', out, mine)"
    and "call_ok lossy envs (Call_Add name type address ins outs) out"
  shows "dir_fine envs g d'"
proof -
  note fine = dir_fineD [OF assms(1)]
  have ok: "dir_ok ((envs g)\<lparr>en_now := now\<rparr>) d" using fine(1) by simp
  note o = dir_add_offer [OF ok fine(2) add]
  let ?t = "\<lparr>dt_name = name, dt_timestamp = en_now ((envs g)\<lparr>en_now := now\<rparr>), dt_socketType = type, dt_address = address,
      dt_inputTypes = ins, dt_outputTypes = outs, dt_guid = d_guid d,
      dt_info = topic_info name (socket_types ! nat type) address ins outs\<rparr>"
  have "topic_fine envs g name ?t"
    using assms(3) fine(3,5) o(1,7) by (auto simp: topic_fine_def notice_ok_def notice_of_def)
  then show ?thesis
    using assms(1) dir_add_reach [OF ok fine(2) add] o(2-4) set_omap_put [of name ?t "ts_local_topics (d_topics d)"]
    by (auto simp: dir_fine_def)
qed

lemma sent_fine:
  assumes "dir_fine envs g d" and c: "dir_sent buf ec bytes d = (d', out)"
  shows "dir_fine envs g d'"
proof -
  note fine = dir_fineD [OF assms(1)] and f = dir_sent_fields [OF c]
  have "send_inv (envs g) d' \<and> env_ok (envs g) d'"
    using dir_sent_inv [OF _ _ c] fine(1) by (auto simp: dir_ok_def)
  with fine(1,2) f have "dir_ok (envs g) d'" "topics_fit d'" by (auto simp: dir_ok_def topics_fit_def)
  with f show ?thesis by (intro dir_fine_same [OF assms(1)]) auto
qed

lemma call_fine:
  assumes "dir_fine envs g d" and "do_call ((envs g)\<lparr>en_now := now\<rparr>) c d = Inr (d', out)" and "call_ok lossy envs c out"
  shows "dir_fine envs g d'"
proof -
  note fine = dir_fineD [OF assms(1)]
  have ok: "dir_ok ((envs g)\<lparr>en_now := now\<rparr>) d" using fine(1) by simp
  show ?thesis
  proof (cases c)
    case (Call_Add name type address ins outs)
    with assms show ?thesis by (auto intro: add_fine)
  next
    case (Call_Remove name)
    note r = assms(2) [unfolded Call_Remove do_call.simps]
    show ?thesis
      using assms(1) dir_remove_reach [OF ok fine(2) r] dir_remove_offer(1-3) [OF ok fine(2) r]
        set_omap_del [of name "ts_local_topics (d_topics d)"]
      by (auto simp: dir_fine_def)
  next
    case (Call_Observe uuid name h)
    then obtain ref where o: "dir_observe uuid name h d = (d', out, ref)"
      using assms(2) by (auto split: prod.splits)
    note f = dir_observe_fields [OF o]
    have "dir_ok (envs g) d' \<and> topics_fit d'"
      unfolding f(4) by (rule dir_ok_observers [OF fine(1,2) ts_observe_ok [OF fine(9)]]) (simp_all add: ts_observe_def)
    with assms(1,3) Call_Observe f(1,2) show ?thesis
      by (auto simp: dir_fine_def ts_observe_def set_mmap_emplace)
  next
    case (Call_Unobserve name ref)
    then have u: "dir_unobserve name ref d = (d', out)" using assms(2) by simp
    note f = dir_unobserve_fields [OF u]
    have "dir_ok (envs g) d' \<and> topics_fit d'"
      unfolding f(4) by (rule dir_ok_observers [OF fine(1,2) ts_unobserve_ok [OF fine(9)]]) (simp_all add: ts_unobserve_def)
    with assms(1) f(1,2) show ?thesis by (auto simp: dir_fine_def ts_unobserve_def)
  next
    case (Call_Timer ec)
    note q = assms(2) [unfolded Call_Timer do_call.simps]
    from query_offer(1,2) [OF ok q] queryMissing_reach [OF ok fine(2) q] show ?thesis by (intro dir_fine_same [OF assms(1)]) auto
  next
    case (Call_Sent buf ec bytes)
    then show ?thesis using sent_fine [OF assms(1)] assms(2) by simp
  qed
qed

lemma call_sends:
  assumes "dir_fine envs g d" and "do_call ((envs g)\<lparr>en_now := now\<rparr>) c d = Inr (d', out)" and "call_ok lossy envs c out"
  shows "\<exists>ms. call_says c d ms \<and> packets out = map (notice_text g) ms \<and> (\<forall>m \<in> set ms. notice_ok envs g m)"
proof -
  note fine = dir_fineD [OF assms(1)]
  have ok: "dir_ok ((envs g)\<lparr>en_now := now\<rparr>) d" using fine(1) by simp
  show ?thesis
  proof (cases c)
    case (Call_Add name type address ins outs)
    with assms(2) obtain mine where add: "dir_add ((envs g)\<lparr>en_now := now\<rparr>) name type address ins outs (d_guid d) d
        = Inr (d', out, mine)" by auto
    from dir_add_offer(1,6,7) [OF ok fine(2) add] assms(3) fine(3,5) show ?thesis
      by (auto simp: Call_Add notice_ok_def)
  next
    case (Call_Remove name)
    note r = dir_remove_offer(5,6) [OF ok fine(2) assms(2) [unfolded Call_Remove do_call.simps]]
    have "printable_word name \<and> name \<noteq> []" if "ts_findLocal name (d_topics d) = Some t" for t
      using fine(6) [of name t] that
      by (auto simp: ts_findLocal_def topic_fine_def notice_ok_def notice_of_def dest: map_of_SomeD)
    with r fine(3,5) show ?thesis by (auto simp: Call_Remove notice_ok_def)
  next
    case (Call_Timer ec)
    obtain groups where q: "packets out = map (query_text (d_guid d)) groups"
      "\<forall>q \<in> set groups. q \<noteq> [] \<and> set q \<subseteq> set (ts_getMissing (d_topics d)) \<and> length (query_text (d_guid d) q) < EVENT_BUFFER_SIZE"
      using query_offer(3) [OF ok assms(2) [unfolded Call_Timer do_call.simps]] by blast
    have "printable_word n" if "n \<in> set (ts_getMissing (d_topics d))" for n
      using that fine(7) by (auto simp: getMissing_set)
    with q fine(3,5) show ?thesis
      by (intro exI [of _ "map Searched groups"]) (auto simp: Call_Timer notice_ok_def)
  next
    case (Call_Observe uuid name h)
    with assms(2) show ?thesis using dir_observe_fields(3) [of uuid name h d d' out] by (auto split: prod.splits)
  next
    case (Call_Unobserve name ref)
    with assms(2) show ?thesis using dir_unobserve_fields(3) [of name ref d d' out] by auto
  next
    case (Call_Sent buf ec bytes)
    with assms(3) show ?thesis by auto
  qed
qed

section \<open>What packets do\<close>

lemma packets_Called: "packets (map Called cs @ out) = packets out"
  by (induction cs) auto

text \<open>A packet changes neither the own topics nor the observers.\<close>

lemma dir_event_fine:
  assumes "dir_fine envs h d" and "length p \<le> EVENT_BUFFER_SIZE"
    and "dir_event ((envs h)\<lparr>en_now := now\<rparr>) False p d = Some (Inr (d', out))"
  shows "dir_fine envs h d'"
proof -
  let ?env = "(envs h)\<lparr>en_now := now\<rparr>" and ?buf = "p @ drop (length p) (d_buffer d)"
  note fine = dir_fineD [OF assms(1)]
  have ok: "dir_ok ?env d" using fine(1) by simp
  have lt: "length p < length ?buf" using ok assms(2) by (simp add: dir_ok_def)
  obtain buf' d1 o1 where ev: "handleEvent ?env (?buf[length p := NUL]) d = Some (Inr (buf', d1, o1))" "stepped ?env d d1"
    using dir_event_handled [OF ok fine(2) assms(2)] by blast
  have "ts_local_topics (d_topics d') = ts_local_topics (d_topics d) \<and>
      ts_observers (d_topics d') = ts_observers (d_topics d)"
    using assms(3) ev lt by (auto simp: dir_event_def Let_def stepped_def split: if_splits)
  moreover have "dir_ok (envs h) d'" "topics_fit d'" "d_guid d' = d_guid d"
    using dir_event_safe [OF ok fine(2) assms(2), of False] assms(3) by auto
  ultimately show ?thesis by (intro dir_fine_same [OF assms(1)]) auto
qed

lemma removal_event:
  assumes "dir_ok env d" and "g \<noteq> d_guid d" and "wire_word g" and "wire_word name" and "name \<noteq> []"
    and "list_all isprint (packet_text g DISCOVERY_REMOVE name)"
    and "length (packet_text g DISCOVERY_REMOVE name) < EVENT_BUFFER_SIZE"
  shows "\<exists>d' out. dir_event env False (packet_text g DISCOVERY_REMOVE name) d = Some (Inr (d', out)) \<and>
    registered (d_topics d') = (\<lambda>n h. if n = name \<and> h = g then None else registered (d_topics d) n h) \<and>
    packets out = []"
proof -
  let ?p = "packet_text g DISCOVERY_REMOVE name"
  have p: "?p = DISPATCH @ g @ '' '' @ [DISCOVERY_REMOVE] @ '' '' @ name" using assms(5) by (simp add: packet_text_def)
  define rest where "rest = drop (Suc (length ?p)) (d_buffer d)"
  let ?pre = "DISPATCH @ g @ [NUL] @ [DISCOVERY_REMOVE] @ [NUL]"
  let ?buf = "?pre @ name @ NUL # rest"
  obtain s' cs m where r: "ts_remove g name (d_topics d) = (s', cs, m)" using prod_cases3 by blast
  have ok: "store_ok (d_topics d)" and buf: "length (d_buffer d) = EVENT_BUFFER_SIZE + 1"
    using assms(1) by (auto simp: dir_ok_def)
  let ?d = "d\<lparr>d_topics := s', d_timer_active := True, d_interval := QUERY_INTERVAL\<rparr>"
  let ?out = "map Called cs @ (if d_timer_active d then [Timer_Cancel] else []) @ [Timer_Wait QUERY_ZERO]"
  have len: "length DISPATCH + length g + 2 < EVENT_BUFFER_SIZE" "length name < EVENT_BUFFER_SIZE"
    using assms(7) by (simp_all add: p)
  have t: "nextToken ?buf (length ?pre) 0 = Inr (?buf, length name)"
    using nextToken_last [OF assms(4), of "length ?pre" 0 ?pre rest] len by simp
  have c: "cstr ?buf (length ?pre) = Inr name"
    using cstr_token [of name "length ?pre" ?pre rest] assms(4) by (simp add: wire_word_def)
  have "handleEvent env (?p @ NUL # rest) d = handle_command env DISCOVERY_REMOVE g ?buf (length ?pre) d"
    using handleEvent_packet(1) [OF assms(3,2), of DISCOVERY_REMOVE env name rest] len
    unfolding p by (simp add: wire_word_def numeral_3_eq_3)
  also have "\<dots> = Some (Inr (?buf, ?d, ?out))"
    using t c by (simp add: handle_command_def discoveryRemove_def r startQueryTimer_def)
  finally have ev: "dir_event env False ?p d = Some (Inr (?d\<lparr>d_buffer := ?buf\<rparr>, ?out @ [Receive]))"
    unfolding rest_def by (rule dir_event_packet [OF assms(6,7) buf])
  have "registered s' = (\<lambda>n h. if n = name \<and> h = g then None else registered (d_topics d) n h)"
    using ts_remove_result(1) [OF ok r] by (auto simp: registered_def omap_simps fun_eq_iff)
  with ev show ?thesis by (simp add: packets_Called)
qed

text \<open>A node ignores its own packets.\<close>

lemma own_packet_ignored:
  assumes "dir_ok env d" and "wire_word (d_guid d)" and "p = DISPATCH @ d_guid d @ '' '' @ body"
    and "list_all isprint p" and "length p < EVENT_BUFFER_SIZE"
  shows "\<exists>b. dir_event env False p d = Some (Inr (d\<lparr>d_buffer := b\<rparr>, [Receive]))"
proof -
  define rest where "rest = drop (Suc (length p)) (d_buffer d)"
  let ?g = "d_guid d"
  have buf: "length (d_buffer d) = EVENT_BUFFER_SIZE + 1" using assms(1) by (simp add: dir_ok_def)
  have "handleEvent env (p @ NUL # rest) d = Some (Inr (DISPATCH @ ?g @ NUL # body @ NUL # rest, d, []))"
    using nextToken_word [OF assms(2), of 0 "length DISPATCH" DISPATCH "body @ NUL # rest"] assms(2,5)
      cstr_token [of ?g "length DISPATCH" DISPATCH "body @ NUL # rest"]
    by (simp add: handleEvent_def assms(3) wire_word_def)
  from dir_event_packet [OF assms(4,5) buf this [unfolded rest_def]] show ?thesis by auto
qed

lemma notice_text_form: "\<exists>body. notice_text g m = DISPATCH @ g @ '' '' @ body"
  by (cases m) (auto simp: packet_text_def query_text_def)

text \<open>What a node answers.\<close>

definition local_notices :: "directory \<Rightarrow> string \<Rightarrow> notice list" where
  "local_notices d name =
     (if name = [] then []
      else if name = ''*'' then map (\<lambda>(n, t). notice_of n t) (ts_local_topics (d_topics d))
      else case ts_findLocal name (d_topics d) of None \<Rightarrow> [] | Some t \<Rightarrow> [notice_of name t])"

fun replies :: "directory \<Rightarrow> string \<Rightarrow> notice \<Rightarrow> notice list" where
  "replies d g (Searched names) = (if g = d_guid d then [] else concat (map (local_notices d) names))"
| "replies d g _ = []"

lemma local_notices_local:
  "m \<in> set (local_notices d name) \<Longrightarrow> \<exists>(n, t) \<in> set (ts_local_topics (d_topics d)). m = notice_of n t"
  by (cases "map_of (ts_local_topics (d_topics d)) name")
    (auto simp: local_notices_def ts_findLocal_def split: if_splits dest!: map_of_SomeD)

lemma replies_local: "m \<in> set (replies d g q) \<Longrightarrow> \<exists>(n, t) \<in> set (ts_local_topics (d_topics d)). m = notice_of n t"
  by (cases q) (auto dest: local_notices_local split: if_splits)

lemma answers_notices:
  assumes "dir_fine envs h d"
  shows "answers d name = map (notice_text h) (local_notices d name)"
proof -
  have "packet_text h DISCOVERY_AVAILABLE (dt_info t) = notice_text h (notice_of n t)"
    if "(n, t) \<in> set (ts_local_topics (d_topics d))" for n t
    using dir_fineD(6) [OF assms that] by (simp add: topic_fine_def)
  then show ?thesis
    using dir_fineD(3) [OF assms]
    by (auto simp: answers_def local_notices_def ts_findLocal_def split: option.splits dest: map_of_SomeD)
qed

lemma fold_fixed: "(\<And>m. m \<in> set ms \<Longrightarrow> f m v = v) \<Longrightarrow> fold f ms v = v"
  by (induction ms) auto

lemma replies_kept:
  assumes "dir_fine envs h d"
  shows "fold notice_effect (replies d g q) (view d h) = view d h"
proof -
  have "notice_effect m (view d h) = view d h" if m: "m \<in> set (replies d g q)" for m
  proof -
    obtain n t where t: "(n, t) \<in> set (ts_local_topics (d_topics d))" "m = notice_of n t"
      using replies_local [OF m] by blast
    have "map_of (ts_local_topics (d_topics d)) n = Some t"
      using t(1) store_okD(2) [OF dir_fineD(9) [OF assms]] omap_ok_distinct by (intro map_of_is_SomeI) auto
    then have "view d h n = Some (dt_address t)"
      using own_view [OF assms, of n] by (simp add: view_def ts_findLocal_def)
    then show ?thesis by (auto simp: t(2) notice_of_def)
  qed
  then show ?thesis by (rule fold_fixed)
qed

lemma own_notice_event:
  assumes "dir_fine envs g d" and "notice_ok envs g m"
  shows "\<exists>b. dir_event ((envs g)\<lparr>en_now := now\<rparr>) False (notice_text g m) d = Some (Inr (d\<lparr>d_buffer := b\<rparr>, [Receive]))"
proof -
  note fine = dir_fineD [OF assms(1)]
  obtain body where "notice_text g m = DISPATCH @ d_guid d @ '' '' @ body"
    using notice_text_form [of g m] fine(3) by auto
  then show ?thesis
    using own_packet_ignored [of "(envs g)\<lparr>en_now := now\<rparr>" d "notice_text g m" body] fine(1,3,5)
      notice_printable [OF assms(2)] assms(2) by (auto simp: printable_word_def notice_ok_def)
qed

lemma available_notice_event:
  assumes "dir_fine envs h d" and ok: "notice_ok envs g m" and "g \<noteq> h" and m: "m = Available name tname address ins outs"
  shows "\<exists>d' out. dir_event ((envs h)\<lparr>en_now := now\<rparr>) False (notice_text g m) d = Some (Inr (d', out)) \<and>
    view d' g = (view d g)(name \<mapsto> address) \<and> (\<forall>a. a \<noteq> g \<longrightarrow> view d' a = view d a) \<and> packets out = []"
proof -
  let ?env = "(envs h)\<lparr>en_now := now\<rparr>"
  have d: "dir_ok ?env d" "g \<noteq> d_guid d" using dir_fineD(1,3) [OF assms(1)] assms(3) by auto
  obtain type where type: "fromType type = Inr tname" and words: "wire_word g" "wire_word name" "name \<noteq> []" "wire_word address"
    "address \<noteq> []" "types_ok ins" "types_ok outs" and near: "near envs address"
    using ok by (auto simp: m notice_ok_def printable_word_def types_fine_def)
  have net: "onNetwork (en_inet_addr ?env) (en_own ?env) (ad_ip (Address_parse address))"
    using near by (simp add: near_def)
  have short: "length (notice_text g m) < EVENT_BUFFER_SIZE" using ok by (simp add: notice_ok_def)
  obtain d' out t where "dir_event ?env False (notice_text g m) d = Some (Inr (d', out))"
    "dt_name t = name" "dt_address t = address" "dt_guid t = g"
    "registered (d_topics d') = (\<lambda>n h. if n = name \<and> h = g \<and> \<not> unchanged t (d_topics d) then Some t
      else registered (d_topics d) n h)"
    "packets out = []"
    using available_event [OF d words type net] notice_printable [OF ok] short
    by (fastforce simp: m packets_Called)
  then show ?thesis by (auto simp: view_def fun_eq_iff unchanged_def)
qed

lemma notice_event:
  assumes "dir_fine envs h d" and "notice_ok envs g m"
  shows "\<exists>d' out. dir_event ((envs h)\<lparr>en_now := now\<rparr>) False (notice_text g m) d = Some (Inr (d', out)) \<and>
    view d' g = (if g = h then view d g else notice_effect m (view d g)) \<and> (\<forall>a. a \<noteq> g \<longrightarrow> view d' a = view d a) \<and>
    packets out = map (notice_text h) (replies d g m)"
proof (cases "g = h")
  case True
  have "\<exists>b. dir_event ((envs h)\<lparr>en_now := now\<rparr>) False (notice_text g m) d = Some (Inr (d\<lparr>d_buffer := b\<rparr>, [Receive]))"
    using own_notice_event [of envs g d m now] assms True by simp
  moreover have "replies d g m = []" using True dir_fineD(3) [OF assms(1)] by (cases m) auto
  ultimately show ?thesis using True by (auto simp: view_def)
next
  case False
  let ?env = "(envs h)\<lparr>en_now := now\<rparr>"
  note fine = dir_fineD [OF assms(1)]
  have ok: "dir_ok ?env d" and g: "g \<noteq> d_guid d" using fine(1,3) False by auto
  have word: "wire_word g" and short: "length (notice_text g m) < EVENT_BUFFER_SIZE"
    using assms(2) by (auto simp: notice_ok_def printable_word_def)
  note printable = notice_printable [OF assms(2)]
  show ?thesis
  proof (cases m)
    case (Available name tname address ins outs)
    with available_notice_event [OF assms False Available] False show ?thesis by auto
  next
    case (Removed name)
    then have "wire_word name" "name \<noteq> []" using assms(2) by (auto simp: notice_ok_def printable_word_def)
    from removal_event [OF ok g word this] printable short obtain d' out where
      "dir_event ?env False (notice_text g m) d = Some (Inr (d', out))" "packets out = []"
      "registered (d_topics d') = (\<lambda>n h. if n = name \<and> h = g then None else registered (d_topics d) n h)"
      by (auto simp: Removed)
    with False show ?thesis by (auto simp: Removed view_def fun_eq_iff)
  next
    case (Searched names)
    then have "\<forall>n \<in> set names. wire_word n" "names \<noteq> []" using assms(2) by (auto simp: notice_ok_def printable_word_def)
    from search_event [OF ok fine(2) word g this] printable short obtain d' out where
      "dir_event ?env False (notice_text g m) d = Some (Inr (d', out))" "d_topics d' = d_topics d"
      "packets out = concat (map (answers d) names)"
      by (auto simp: Searched)
    moreover have "answers d = (\<lambda>n. map (notice_text h) (local_notices d n))"
      using answers_notices [OF assms(1)] by (simp add: fun_eq_iff)
    ultimately show ?thesis using g by (auto simp: Searched view_def map_concat comp_def)
  next
    case Gone
    from exit_event [OF word _ _ ok] g printable short obtain d' out where
      "dir_event ?env False (notice_text g m) d = Some (Inr (d', out))" "packets out = []"
      "registered (d_topics d') = (\<lambda>n h. if h = g then None else registered (d_topics d) n h)"
      by (auto simp: Gone)
    with False show ?thesis by (auto simp: Gone view_def fun_eq_iff)
  qed
qed

section \<open>The network keeps its members informed\<close>

definition net_act :: "bool \<Rightarrow> (string \<Rightarrow> env) \<Rightarrow> string \<Rightarrow> directory \<Rightarrow> notice list \<Rightarrow> directory \<Rightarrow> bool" where
  "net_act lossy envs g d ms d' \<longleftrightarrow> (\<exists>now c out. do_call ((envs g)\<lparr>en_now := now\<rparr>) c d = Inr (d', out) \<and>
     call_ok lossy envs c out \<and> call_says c d ms)"

definition net_handle :: "(string \<Rightarrow> env) \<Rightarrow> string \<Rightarrow> directory \<Rightarrow> string \<Rightarrow> notice \<Rightarrow> notice list \<Rightarrow> directory \<Rightarrow> bool" where
  "net_handle envs h d g m ms d' \<longleftrightarrow> notice_ok envs g m \<and> ms = replies d g m \<and>
     (\<exists>now out. dir_event ((envs h)\<lparr>en_now := now\<rparr>) False (notice_text g m) d = Some (Inr (d', out)))"

lemma notice_effect_mono: "v \<subseteq>\<^sub>m w \<Longrightarrow> notice_effect m v \<subseteq>\<^sub>m notice_effect m w"
  by (cases m) (auto simp: map_le_def)

lemma net_handle_view:
  assumes "dir_fine envs h d" and "net_handle envs h d g m ms d'"
  shows "dir_fine envs h d'" and "g \<noteq> h \<Longrightarrow> view d' g = notice_effect m (view d g)"
    and "a \<noteq> g \<or> g = h \<Longrightarrow> view d' a = view d a"
proof -
  obtain now out where ev: "notice_ok envs g m"
    "dir_event ((envs h)\<lparr>en_now := now\<rparr>) False (notice_text g m) d = Some (Inr (d', out))"
    using assms(2) by (auto simp: net_handle_def)
  then have "length (notice_text g m) \<le> EVENT_BUFFER_SIZE" by (simp add: notice_ok_def)
  from dir_event_fine [OF assms(1) this ev(2)] show "dir_fine envs h d'" .
  from notice_event [OF assms(1) ev(1), of now] ev(2)
  show "g \<noteq> h \<Longrightarrow> view d' g = notice_effect m (view d g)" "a \<noteq> g \<or> g = h \<Longrightarrow> view d' a = view d a"
    by (auto split: if_splits)
qed

interpretation disco: replication notice_effect Gone "dir_fine envs" view "net_act lossy envs" "net_handle envs"
  for lossy envs
proof unfold_locales
  show "dir_fine envs g d'" if "dir_fine envs g d" "net_act lossy envs g d ms d'" for g d ms d'
    using that by (auto simp: net_act_def intro: call_fine)
  show "view d' g = fold notice_effect ms (view d g)" if "dir_fine envs g d" "net_act lossy envs g d ms d'" for g d ms d'
    using that by (auto simp: net_act_def intro: call_view)
  show "view d' a = view d a" if "dir_fine envs g d" "net_act lossy envs g d ms d'" "a \<noteq> g" for g d ms d' a
    using that by (auto simp: net_act_def intro: call_view)
  show "fold notice_effect ms (view d h) = view d h" if "dir_fine envs h d" "net_handle envs h d g m ms d'" for h d g m ms d'
    using that by (auto simp: net_handle_def intro: replies_kept)
qed (auto simp: notice_effect_mono net_handle_view)

text \<open>
  The packets of a network as notices: every notice is well formed and what it announces was offered, and so
  was everything a member knows.
\<close>

definition known :: "(string \<times> string \<times> string) set \<Rightarrow> string \<Rightarrow> (string \<rightharpoonup> string) \<Rightarrow> bool" where
  "known offered g v \<longleftrightarrow> (\<forall>n a. v n = Some a \<longrightarrow> (g, n, a) \<in> offered)"

fun announces :: "(string \<times> string \<times> string) set \<Rightarrow> string \<Rightarrow> notice \<Rightarrow> bool" where
  "announces offered g (Available name type address ins outs) \<longleftrightarrow> (g, name, address) \<in> offered"
| "announces offered g _ \<longleftrightarrow> True"

definition carried :: "(string \<Rightarrow> env) \<Rightarrow> network \<Rightarrow> (string \<Rightarrow> string \<Rightarrow> notice list) \<Rightarrow> bool" where
  "carried envs s chan \<longleftrightarrow> net_chan s = (\<lambda>g h. map (notice_text g) (chan g h)) \<and>
     (\<forall>g h. \<forall>m \<in> set (chan g h). notice_ok envs g m \<and> announces (net_offered s) g m \<and> g \<in> set (net_joined s)) \<and>
     (\<forall>h d. net_dir s h = Some d \<longrightarrow>
        dir_fine envs h d \<and> h \<in> set (net_joined s) \<and> (\<forall>g. known (net_offered s) g (view d g)))"

lemma carriedD:
  assumes "carried envs s chan"
  shows "net_chan s = (\<lambda>g h. map (notice_text g) (chan g h))"
    and "m \<in> set (chan g h) \<Longrightarrow> notice_ok envs g m \<and> announces (net_offered s) g m \<and> g \<in> set (net_joined s)"
    and "net_dir s h = Some d \<Longrightarrow> dir_fine envs h d \<and> h \<in> set (net_joined s) \<and> known (net_offered s) g (view d g)"
  using assms by (auto simp: carried_def)

lemma carriedI:
  assumes "net_chan s = (\<lambda>g h. map (notice_text g) (chan g h))"
    and "\<And>g h m. m \<in> set (chan g h) \<Longrightarrow> notice_ok envs g m \<and> announces (net_offered s) g m \<and> g \<in> set (net_joined s)"
    and "\<And>h d g. net_dir s h = Some d \<Longrightarrow> dir_fine envs h d \<and> h \<in> set (net_joined s) \<and> known (net_offered s) g (view d g)"
  shows "carried envs s chan"
  using assms unfolding carried_def by blast

lemma announces_mono: "announces A g m \<Longrightarrow> A \<subseteq> B \<Longrightarrow> announces B g m"
  by (cases m) auto

lemma known_mono: "known A g v \<Longrightarrow> A \<subseteq> B \<Longrightarrow> known B g v"
  by (auto simp: known_def)

lemma known_effect: "known A g v \<Longrightarrow> announces A g m \<Longrightarrow> known A g (notice_effect m v)"
  by (cases m) (auto simp: known_def)

lemma offers_view: "dir_fine envs g d \<Longrightarrow> offers d = {(g, n, a) | n a. view d g n = Some a}"
  using own_view [of envs g d] dir_fineD(3) [of envs g d] by (auto simp: offers_def view_def)

lemma carried_empty: "carried envs net_empty (\<lambda>_ _. [])"
  by (simp add: carried_def net_empty_def)

lemma make_directory_topics:
  "make_directory env name uuid mem buffer opened joined_group next_port = Inr (d, next', out) \<Longrightarrow>
     d_topics d = DirectoryTopicStore (d_guid d)"
  by (auto simp: make_directory_def Let_def split: if_splits)

lemma boots_fine:
  assumes "boots (envs (d_guid d)) d"
  shows "dir_fine envs (d_guid d) d" and "view d g = Map.empty"
proof -
  obtain name uuid mem buffer next_port next' out where
    m: "make_directory (envs (d_guid d)) name uuid mem buffer True True next_port = Inr (d, next', out)"
    and c: "length buffer = EVENT_BUFFER_SIZE + 1" "0 < mem" "inj (en_os (envs (d_guid d)))" "0 \<notin> range (en_os (envs (d_guid d)))"
      "range (en_os (envs (d_guid d))) \<inter> {mem..<mem + 64 * EVENT_BUFFER_SIZE} = {}"
    and g: "printable_word (d_guid d)" "length (packet_text (d_guid d) DISCOVERY_EXIT []) < EVENT_BUFFER_SIZE"
    using assms unfolding boots_def by blast
  note t = make_directory_topics [OF m]
  have e: "ts_local_topics (d_topics d) = []" "ts_observers (d_topics d) = []"
    unfolding t by (simp_all add: DirectoryTopicStore_def)
  show "dir_fine envs (d_guid d) d"
    using make_directory_ok(1,2) [OF m c] g by (auto simp: dir_fine_def notice_ok_def e)
  show "view d g = Map.empty" unfolding view_def t by (simp add: DirectoryTopicStore_def registered_def net_get_def)
qed

lemma carried_join:
  assumes "carried envs s chan" and "boots (envs (d_guid d)) d"
  shows "carried envs (s\<lparr>net_dir := (net_dir s)(d_guid d \<mapsto> d), net_chan := cut_off (d_guid d) (net_chan s),
       net_joined := net_joined s @ [d_guid d]\<rparr>) (cut_off (d_guid d) chan)"
  using carriedD [OF assms(1)] boots_fine [of envs d, OF assms(2)]
  by (intro carriedI) (auto simp: cut_off_def known_def fun_eq_iff split: if_splits)

lemma carried_leave:
  assumes "carried envs s chan" and "net_dir s g = Some d" and "dir_destroy d = [Send_Now p]"
  shows "carried envs (s\<lparr>net_dir := (net_dir s)(g := None), net_chan := cut_off g (post (net_dir s) g [p] (net_chan s))\<rparr>)
    (cut_off g (post (net_dir s) g [Gone] chan))"
proof -
  note c = carriedD [OF assms(1)]
  have fine: "dir_fine envs g d" "g \<in> set (net_joined s)" using c(3) [OF assms(2)] by auto
  have "p = notice_text g Gone" using assms(3) dir_fineD(3) [OF fine(1)] by (simp add: dir_destroy_def packet_text_def)
  with c fine dir_fineD(4) [OF fine(1)] show ?thesis
    by (intro carriedI) (auto simp: cut_off_def post_def fun_eq_iff split: if_splits)
qed

lemma carried_call:
  assumes "carried envs s chan" and "net_dir s g = Some d"
    and "do_call ((envs g)\<lparr>en_now := now\<rparr>) c d = Inr (d', out)" and "call_ok lossy envs c out"
    and ms: "call_says c d ms" "packets out = map (notice_text g) ms" "\<forall>m \<in> set ms. notice_ok envs g m"
  shows "net_act lossy envs g d ms d'" and "carried envs
    (multicast g out (s\<lparr>net_dir := (net_dir s)(g \<mapsto> d'), net_offered := net_offered s \<union> offers d'\<rparr>))
    (post ((net_dir s)(g \<mapsto> d')) g ms chan)"
proof -
  note c = carriedD [OF assms(1)]
  have fine: "dir_fine envs g d" "g \<in> set (net_joined s)" using c(3) [OF assms(2)] by auto
  note fine' = call_fine [OF fine(1) assms(3,4)]
  note v = call_view [OF fine(1) assms(3) ms(1)]
  let ?off = "net_offered s \<union> offers d'"
  have own: "known ?off g (view d' g)" using offers_view [OF fine'] by (auto simp: known_def)
  have "announces ?off g m" if "m \<in> set ms" for m
  proof (cases c)
    case (Call_Add name type address ins outs)
    then have "view d' g name = Some address" using v(1) ms(1) by simp
    with own that ms(1) Call_Add show ?thesis by (auto simp: known_def)
  qed (use that ms(1) in \<open>auto split: if_splits\<close>)
  moreover have "known ?off a (view d' a)" for a
    using own v(2) [of a] c(3) [OF assms(2), of a] known_mono [of "net_offered s" a "view d' a" ?off] by (cases "a = g") auto
  ultimately show "carried envs
    (multicast g out (s\<lparr>net_dir := (net_dir s)(g \<mapsto> d'), net_offered := ?off\<rparr>)) (post ((net_dir s)(g \<mapsto> d')) g ms chan)"
    using c fine' fine(2) ms(3)
    by (intro carriedI) (auto simp: multicast_def post_def ms(2) fun_eq_iff split: if_splits
        intro: announces_mono [of "net_offered s"] known_mono [of "net_offered s"])
  show "net_act lossy envs g d ms d'" using assms(3,4) ms(1) by (auto simp: net_act_def)
qed

lemma carried_deliver:
  assumes "carried envs s chan" and "net_dir s h = Some d" and "net_chan s g h = p # ps"
    and "dir_event ((envs h)\<lparr>en_now := now\<rparr>) False p d = Some (Inr (d', out))"
  shows "\<exists>m ms. chan g h = m # ms \<and> net_handle envs h d g m (replies d g m) d' \<and> carried envs
    (multicast h out (s\<lparr>net_dir := (net_dir s)(h \<mapsto> d'), net_chan := set_chan g h ps (net_chan s)\<rparr>))
    (post ((net_dir s)(h \<mapsto> d')) h (replies d g m) (set_chan g h ms chan))"
proof -
  note c = carriedD [OF assms(1)]
  have fine: "dir_fine envs h d" "h \<in> set (net_joined s)" using c(3) [OF assms(2)] by auto
  obtain m ms where m: "chan g h = m # ms" "p = notice_text g m" "ps = map (notice_text g) ms"
    using assms(3) unfolding c(1) by (cases "chan g h") auto
  have ok: "notice_ok envs g m" "announces (net_offered s) g m" using c(2) [of m g h] m(1) by auto
  have handle: "net_handle envs h d g m (replies d g m) d'" using ok(1) assms(4) by (auto simp: net_handle_def m(2))
  note v = net_handle_view [OF fine(1) handle]
  have out: "packets out = map (notice_text h) (replies d g m)"
    using notice_event [OF fine(1) ok(1), of now] assms(4) by (auto simp: m(2))
  have "known (net_offered s) a (view d' a)" for a
    using v(2) v(3) [of a] c(3) [OF assms(2), of a] known_effect [OF _ ok(2)] by (cases "a = g \<and> g \<noteq> h") auto
  moreover have "notice_ok envs h r \<and> announces (net_offered s) h r" if r: "r \<in> set (replies d g m)" for r
  proof -
    obtain n t where t: "(n, t) \<in> set (ts_local_topics (d_topics d))" "r = notice_of n t"
      using replies_local [OF r] by blast
    have "map_of (ts_local_topics (d_topics d)) n = Some t"
      using t(1) store_okD(2) [OF dir_fineD(9) [OF fine(1)]] omap_ok_distinct by (intro map_of_is_SomeI) auto
    then have "view d h n = Some (dt_address t)"
      using own_view [OF fine(1), of n] by (simp add: view_def ts_findLocal_def)
    with c(3) [OF assms(2), of h] dir_fineD(6) [OF fine(1) t(1)] t(2) show ?thesis
      by (auto simp: known_def topic_fine_def notice_of_def)
  qed
  moreover have "notice_ok envs g r \<and> announces (net_offered s) g r \<and> g \<in> set (net_joined s)" if "r \<in> set ms" for r
    using c(2) [of r g h] m(1) that by simp
  ultimately have "carried envs
    (multicast h out (s\<lparr>net_dir := (net_dir s)(h \<mapsto> d'), net_chan := set_chan g h ps (net_chan s)\<rparr>))
    (post ((net_dir s)(h \<mapsto> d')) h (replies d g m) (set_chan g h ms chan))"
    using c v(1) fine(2) m(1)
    by (intro carriedI) (auto simp: multicast_def post_def set_chan_def out m(3) fun_eq_iff split: if_splits)
  with handle m(1) show ?thesis by blast
qed

lemma map_sub: "set ps \<subseteq> f ` set ms \<Longrightarrow> \<exists>ms'. ps = map f ms' \<and> set ms' \<subseteq> set ms"
proof (induction ps)
  case (Cons p ps)
  then obtain ms' x where "ps = map f ms'" "set ms' \<subseteq> set ms" "p = f x" "x \<in> set ms" by auto
  then show ?case by (intro exI [of _ "x # ms'"]) simp
qed simp

lemma carried_disturb:
  assumes "carried envs s chan" and "set ps \<subseteq> set (net_chan s g h)"
  shows "\<exists>ms. carried envs (s\<lparr>net_chan := set_chan g h ps (net_chan s)\<rparr>) (set_chan g h ms chan)"
proof -
  note c = carriedD [OF assms(1)]
  obtain ms where ms: "ps = map (notice_text g) ms" "set ms \<subseteq> set (chan g h)"
    using assms(2) map_sub [of ps "notice_text g" "chan g h"] unfolding c(1) by auto
  have "carried envs (s\<lparr>net_chan := set_chan g h ps (net_chan s)\<rparr>) (set_chan g h ms chan)"
    using c(2) [of _ g h] c ms by (intro carriedI) (auto simp: set_chan_def fun_eq_iff split: if_splits)
  then show ?thesis by blast
qed

text \<open>\<open>h\<close> joined before \<open>g\<close>, or \<open>g\<close> never did.\<close>

definition before :: "'a list \<Rightarrow> 'a \<Rightarrow> 'a \<Rightarrow> bool" where
  "before xs h g \<longleftrightarrow> (\<exists>ys zs. xs = ys @ zs \<and> h \<in> set ys \<and> g \<notin> set ys)"

lemma before_snoc:
  assumes "g \<notin> set xs"
  shows "h \<noteq> g \<Longrightarrow> before (xs @ [g]) h a \<Longrightarrow> before xs h a" and "before (xs @ [g]) g a \<Longrightarrow> a \<notin> set xs"
proof -
  assume *: "h \<noteq> g" "before (xs @ [g]) h a"
  then obtain ys zs where "xs @ [g] = ys @ zs" "h \<in> set ys" "a \<notin> set ys" by (auto simp: before_def)
  then show "before xs h a"
    using *(1) unfolding before_def by (cases zs rule: rev_cases) (auto intro: exI [of _ xs])
next
  assume "before (xs @ [g]) g a"
  then obtain ys zs where z: "xs @ [g] = ys @ zs" "g \<in> set ys" "a \<notin> set ys" by (auto simp: before_def)
  with assms have "zs = []" by (cases zs rule: rev_cases) auto
  with z show "a \<notin> set xs" by auto
qed

definition informed :: "(string \<Rightarrow> env) \<Rightarrow> network \<Rightarrow> (string \<Rightarrow> string \<Rightarrow> notice list) \<Rightarrow> bool" where
  "informed envs s chan \<longleftrightarrow> disco.agrees envs (before (net_joined s)) (net_dir s) chan"

lemma net_step_carried:
  assumes "net_step lossy envs s s'" and c: "carried envs s chan"
  shows "\<exists>chan'. carried envs s' chan' \<and> (\<not> lossy \<longrightarrow> informed envs s chan \<longrightarrow> informed envs s' chan')"
  using assms(1)
proof cases
  case (join d)
  let ?g = "d_guid d"
  have out: "net_dir s a = None" if "a \<notin> set (net_joined s)" for a
    using that carriedD(3) [OF c, of a] by (cases "net_dir s a") auto
  have "disco.agrees envs (before (net_joined s @ [?g])) ((net_dir s)(?g \<mapsto> d)) (cut_off ?g chan)"
    if "informed envs s chan"
    by (rule disco.agrees_join [OF that [unfolded informed_def] out [OF join(2)]])
      (use boots_fine [of envs d, OF join(3)] before_snoc [OF join(2)] out in auto)
  then have "informed envs s' (cut_off ?g chan)" if "informed envs s chan" using that by (simp add: informed_def join(1))
  with carried_join [of envs s chan d, OF c join(3)] show ?thesis unfolding join(1) by blast
next
  case (leave g d p)
  have "informed envs s' (cut_off g (post (net_dir s) g [Gone] chan))" if "informed envs s chan"
    using disco.agrees_leave [OF that [unfolded informed_def] leave(2)] by (simp add: informed_def leave(1))
  with carried_leave [OF c leave(2,3)] show ?thesis unfolding leave(1) by blast
next
  case (call g d now k d' out)
  have "dir_fine envs g d" using carriedD(3) [OF c call(2)] by blast
  from call_sends [OF this call(3,4)]
  obtain ms where ms: "net_act lossy envs g d ms d'" "carried envs s' (post ((net_dir s)(g \<mapsto> d')) g ms chan)"
    using carried_call [OF c call(2-4)] unfolding call(1) by blast
  have "informed envs s' (post ((net_dir s)(g \<mapsto> d')) g ms chan)" if "informed envs s chan"
    using disco.agrees_act [OF that [unfolded informed_def] call(2) ms(1)]
    by (simp add: informed_def call(1) multicast_def)
  with ms(2) show ?thesis by blast
next
  case delivery
  then show ?thesis
  proof cases
    case (deliver h d g p ps now d' out)
    obtain m ms where m: "chan g h = m # ms" "net_handle envs h d g m (replies d g m) d'"
      "carried envs s' (post ((net_dir s)(h \<mapsto> d')) h (replies d g m) (set_chan g h ms chan))"
      using carried_deliver [OF c deliver(2-4)] unfolding deliver(1) by blast
    have "informed envs s' (post ((net_dir s)(h \<mapsto> d')) h (replies d g m) (set_chan g h ms chan))" if "informed envs s chan"
      using disco.agrees_handle [OF that [unfolded informed_def] deliver(2) m(1,2)]
      by (simp add: informed_def deliver(1) multicast_def)
    with m(3) show ?thesis by blast
  qed
next
  case (disturb ps g h)
  with carried_disturb [OF c disturb(3)] show ?thesis by auto
qed

lemma net_reach_carried:
  assumes "(net_step lossy envs)\<^sup>*\<^sup>* net_empty s"
  shows "\<exists>chan. carried envs s chan \<and> (\<not> lossy \<longrightarrow> informed envs s chan)"
  using assms
proof induction
  case base
  have "informed envs net_empty (\<lambda>_ _. [])" by (simp add: informed_def disco.agrees_def net_empty_def)
  with carried_empty show ?case by blast
next
  case (step s s')
  then show ?case using net_step_carried by blast
qed

section \<open>Deliveries come to an end\<close>

fun is_search :: "notice \<Rightarrow> bool" where
  "is_search (Searched names) \<longleftrightarrow> True"
| "is_search _ \<longleftrightarrow> False"

text \<open>Searches on their way, which cause answers, and notices on their way.\<close>

definition burden :: "string list \<Rightarrow> (string \<Rightarrow> string \<Rightarrow> notice list) \<Rightarrow> nat \<times> nat" where
  "burden members chan =
     (\<Sum>(a, b) \<in> set members \<times> set members. length (filter is_search (chan a b)),
      \<Sum>(a, b) \<in> set members \<times> set members. length (chan a b))"

lemma sum_less_at:
  fixes f f' :: "'a \<Rightarrow> nat"
  assumes "finite S" and "x \<in> S" and "f' x < f x" and "\<And>y. y \<in> S \<Longrightarrow> f' y \<le> f y"
  shows "sum f' S < sum f S"
  using assms by (intro sum_strict_mono_ex1) auto

lemma replies_no_search: "filter is_search (replies d g m) = []"
  using replies_local [of _ d g m] by (fastforce simp: filter_empty_conv notice_of_def)

lemma deliver_burden:
  assumes "chan g h = m # ms" and "g \<in> set members" and "h \<in> set members"
  shows "(burden members (post dirs h (replies d g m) (set_chan g h ms chan)), burden members chan)
    \<in> less_than <*lex*> less_than"
proof (cases "is_search m")
  case True
  have "(\<Sum>(a, b) \<in> set members \<times> set members. length (filter is_search (post dirs h (replies d g m) (set_chan g h ms chan) a b)))
      < (\<Sum>(a, b) \<in> set members \<times> set members. length (filter is_search (chan a b)))"
    by (rule sum_less_at [of _ "(g, h)"])
      (use assms True replies_no_search [of d g m] in \<open>auto simp: post_def set_chan_def\<close>)
  then show ?thesis by (simp add: burden_def)
next
  case False
  then have "replies d g m = []" by (cases m) auto
  then have p: "post dirs h (replies d g m) (set_chan g h ms chan) = set_chan g h ms chan" by (auto simp: post_def fun_eq_iff)
  have "(\<Sum>(a, b) \<in> set members \<times> set members. length (filter is_search (set_chan g h ms chan a b)))
      = (\<Sum>(a, b) \<in> set members \<times> set members. length (filter is_search (chan a b)))"
    using assms False by (intro sum.cong) (auto simp: set_chan_def)
  moreover have "(\<Sum>(a, b) \<in> set members \<times> set members. length (set_chan g h ms chan a b))
      < (\<Sum>(a, b) \<in> set members \<times> set members. length (chan a b))"
    by (rule sum_less_at [of _ "(g, h)"]) (use assms in \<open>auto simp: set_chan_def\<close>)
  ultimately show ?thesis by (simp add: burden_def p)
qed

lemma net_deliver_carried:
  assumes "net_deliver envs s s'" and c: "carried envs s chan"
  shows "\<exists>chan'. carried envs s' chan' \<and>
    (burden (net_joined s') chan', burden (net_joined s) chan) \<in> less_than <*lex*> less_than"
  using assms(1)
proof cases
  case (deliver h d g p ps now d' out)
  obtain m ms where m: "chan g h = m # ms"
    "carried envs s' (post ((net_dir s)(h \<mapsto> d')) h (replies d g m) (set_chan g h ms chan))"
    using carried_deliver [OF c deliver(2-4)] unfolding deliver(1) by blast
  have "g \<in> set (net_joined s)" "h \<in> set (net_joined s)"
    using carriedD(2) [OF c, of m g h] carriedD(3) [OF c deliver(2)] m(1) by auto
  moreover have "net_joined s' = net_joined s" by (simp add: deliver(1) multicast_def)
  ultimately show ?thesis using m(2) deliver_burden [of chan g h m ms] m(1) by metis
qed

lemma deliveries_end:
  assumes "carried envs s chan"
  shows "\<nexists>f. f 0 = s \<and> (\<forall>i. net_deliver envs (f i) (f (Suc i)))"
  using assms
proof (induction "burden (net_joined s) chan" arbitrary: s chan rule: wf_induct_rule [OF wf_lex_prod [OF wf_less_than wf_less_than]])
  case 1
  show ?case
  proof
    assume "\<exists>f. f 0 = s \<and> (\<forall>i. net_deliver envs (f i) (f (Suc i)))"
    then obtain f where f: "f 0 = s" "\<And>i. net_deliver envs (f i) (f (Suc i))" by blast
    then obtain chan' where "carried envs (f 1) chan'"
      "(burden (net_joined (f 1)) chan', burden (net_joined s) chan) \<in> less_than <*lex*> less_than"
      using net_deliver_carried [of envs s "f 1" chan] 1(2) f(2) [of 0] by auto
    from 1(1) [OF this(2,1)] f(2) show False by (auto dest!: spec [of _ "\<lambda>i. f (Suc i)"])
  qed
qed

text \<open>The next packet of a channel can always be delivered.\<close>

lemma can_deliver:
  assumes c: "carried envs s chan" and "net_dir s h = Some d" and "net_chan s g h \<noteq> []"
  shows "\<exists>s'. net_deliver envs s s'"
proof -
  obtain m ms where m: "chan g h = m # ms" using assms(3) carriedD(1) [OF c] by (cases "chan g h") auto
  have "dir_fine envs h d" "notice_ok envs g m" using carriedD(2) [OF c, of m g h] carriedD(3) [OF c assms(2)] m by auto
  from notice_event [OF this, of 0] obtain d' out where
    "dir_event ((envs h)\<lparr>en_now := 0\<rparr>) False (notice_text g m) d = Some (Inr (d', out))" by blast
  with net_deliver.deliver [of s h d g "notice_text g m" "map (notice_text g) ms"] assms(2)
  show ?thesis using carriedD(1) [OF c] m by fastforce
qed

text \<open>What a node offers.\<close>

definition net_own :: "network \<Rightarrow> string \<Rightarrow> string \<rightharpoonup> string" where
  "net_own s g = (case net_dir s g of None \<Rightarrow> Map.empty
     | Some d \<Rightarrow> (\<lambda>n. map_option dt_address (ts_findLocal n (d_topics d))))"

lemma net_own_own:
  assumes "carried envs s chan"
  shows "net_own s g = disco.own (net_dir s) g"
proof (cases "net_dir s g")
  case (Some d)
  with carriedD(3) [OF assms Some] own_view [of envs g d] show ?thesis
    by (simp add: net_own_def disco.own_def view_def)
qed (simp add: net_own_def disco.own_def)

section \<open>An example network\<close>

definition example_guid :: "string \<Rightarrow> string" where
  "example_guid uuid = ''n_10.0.0.7_'' @ uuid"

definition example_pair :: network where
  "example_pair = (let u = example_guid ''u''; v = example_guid ''v'' in
     \<lparr>net_dir = [v \<mapsto> example_dir v, u \<mapsto> example_dir u], net_chan = (\<lambda>_ _. []), net_joined = [v, u], net_offered = {}\<rparr>)"

lemma example_guids: "example_guid ''u'' \<noteq> example_guid ''v''" "d_guid (example_dir g) = g"
  by (simp_all add: example_guid_def example_dir_def)

lemma example_boots:
  assumes "uuid \<in> {''u'', ''v''}"
  shows "boots example_env (example_dir (example_guid uuid))"
proof -
  have "make_directory example_env ''n'' uuid 1000 (replicate (EVENT_BUFFER_SIZE + 1) NUL) True True None
      = Inr (example_dir (example_guid uuid), None, [Receive])"
    by (simp add: make_directory_def Let_def example_dir_def example_guid_def example_env_def)
  moreover have "length (replicate (EVENT_BUFFER_SIZE + 1) NUL) = EVENT_BUFFER_SIZE + 1" "inj (en_os example_env)"
    "0 \<notin> range (en_os example_env)" "range (en_os example_env) \<inter> {1000..<1000 + 64 * EVENT_BUFFER_SIZE} = {}"
    by (auto simp: example_env_def inj_def)
  moreover have "printable_word (example_guid uuid)"
    using assms by (auto simp: printable_word_def wire_word_def example_guid_def isprint_def)
  moreover have "length (packet_text (example_guid uuid) DISCOVERY_EXIT []) < EVENT_BUFFER_SIZE"
    using assms by (auto simp: packet_text_def example_guid_def DISPATCH_def)
  ultimately show ?thesis unfolding boots_def example_guids(2) by (metis zero_less_numeral)
qed

lemma example_pair_reached: "(net_step lossy (\<lambda>_. example_env))\<^sup>*\<^sup>* net_empty example_pair"
proof -
  let ?u = "example_guid ''u''" and ?v = "example_guid ''v''"
  let ?s = "net_empty\<lparr>net_dir := [?v \<mapsto> example_dir ?v], net_joined := [?v]\<rparr>"
  have "net_step lossy (\<lambda>_. example_env) net_empty ?s"
    using net_step.join [of "example_dir ?v" net_empty "\<lambda>_. example_env" lossy] example_boots [of "''v''"]
    by (simp add: example_guids(2) net_empty_def cut_off_def)
  moreover have "net_step lossy (\<lambda>_. example_env) ?s example_pair"
    using net_step.join [of "example_dir ?u" ?s "\<lambda>_. example_env" lossy] example_boots [of "''u''"] example_guids(1)
    by (simp add: example_guids(2) net_empty_def cut_off_def example_pair_def Let_def)
  ultimately show ?thesis by (meson converse_rtranclp_into_rtranclp rtranclp.rtrancl_refl)
qed

lemma example_fine:
  assumes "uuid \<in> {''u'', ''v''}"
  shows "dir_fine (\<lambda>_. example_env) (example_guid uuid) (example_dir (example_guid uuid))"
  using boots_fine(1) [of "\<lambda>_. example_env" "example_dir (example_guid uuid)"] example_boots [OF assms]
  by (simp add: example_guids(2))

definition example_notice :: notice where
  "example_notice = Available ''t'' ''PUB'' ''tcp://x:1'' [] [''42'']"

text \<open>Node \<open>u\<close> offers a topic, and its packet is on the way to \<open>v\<close>.\<close>

lemma example_offered:
  defines "u \<equiv> example_guid ''u''" and "v \<equiv> example_guid ''v''"
  shows "notice_ok (\<lambda>_. example_env) u example_notice"
    and "\<exists>s. (net_step lossy (\<lambda>_. example_env))\<^sup>*\<^sup>* net_empty s \<and> net_dir s v = Some (example_dir v) \<and>
      net_own s u ''t'' = Some ''tcp://x:1'' \<and> net_joined s = [v, u] \<and> net_chan s u v = [notice_text u example_notice] \<and>
      net_chan s u u \<noteq> []"
proof -
  let ?E = "\<lambda>_ :: string. example_env" and ?c = "Call_Add ''t'' 1 ''tcp://x:1'' [] [''42'']"
  have uv: "u \<noteq> v" "d_guid (example_dir g) = g" for g using example_guids by (auto simp: u_def v_def)
  have fine: "dir_fine ?E u (example_dir u)" using example_fine [of "''u''"] by (simp add: u_def)
  have type: "fromType 1 = Inr ''PUB''" by (simp add: fromType_def socket_types_def)
  have short: "length (packet_text u DISCOVERY_AVAILABLE (topic_info ''t'' ''PUB'' ''tcp://x:1'' [] [''42''])) < EVENT_BUFFER_SIZE"
    by (simp add: packet_text_def topic_info_def DISPATCH_def writeTypes_def NO_TYPES_def u_def example_guid_def)
  have cok: "call_ok lossy ?E ?c out" for out
    by (auto simp: printable_word_def wire_word_def isprint_def near_def types_fine_def types_ok_def NO_TYPES_def
        writeTypes_def onNetwork_def example_env_def)
  show "notice_ok ?E u example_notice"
    using cok short dir_fineD(5) [OF fine] type by (auto simp: notice_ok_def example_notice_def)
  have "ts_findLocal ''t'' (d_topics (example_dir u)) = None"
    by (simp add: ts_findLocal_def example_dir_def DirectoryTopicStore_def)
  from dir_add_own_ok [OF example_dir_ok(1) this type, unfolded uv(2), OF short refl]
  obtain d1 cs buf t where add: "dir_add example_env ''t'' 1 ''tcp://x:1'' [] [''42''] u (example_dir u)
      = Inr (d1, map Called cs @ [Send_To buf (notice_text u example_notice)], True)"
    "ts_findLocal ''t'' (d_topics d1) = Some t" "dt_address t = ''tcp://x:1''"
    by (auto simp: uv(2) example_notice_def)
  let ?out = "map Called cs @ [Send_To buf (notice_text u example_notice)]"
  have out: "packets ?out = [notice_text u example_notice]" by (induction cs) auto
  have "example_env\<lparr>en_now := 7\<rparr> = example_env" by (simp add: example_env_def)
  then have call: "do_call ((?E u)\<lparr>en_now := 7\<rparr>) ?c (example_dir u) = Inr (d1, ?out)" by (simp add: uv(2) add(1))
  have pair: "net_dir example_pair = [v \<mapsto> example_dir v, u \<mapsto> example_dir u]" "net_chan example_pair = (\<lambda>_ _. [])"
    "net_joined example_pair = [v, u]"
    by (simp_all add: example_pair_def Let_def u_def v_def)
  let ?s = "multicast u ?out (example_pair\<lparr>net_dir := (net_dir example_pair)(u \<mapsto> d1),
      net_offered := net_offered example_pair \<union> offers d1\<rparr>)"
  have "net_step lossy ?E example_pair ?s"
    by (rule net_step.call [OF _ call cok]) (simp add: pair)
  with example_pair_reached have "(net_step lossy ?E)\<^sup>*\<^sup>* net_empty ?s" by (meson rtranclp.rtrancl_into_rtrancl)
  moreover have "net_dir ?s v = Some (example_dir v)" "net_chan ?s u v = [notice_text u example_notice]"
    "net_own ?s u ''t'' = Some ''tcp://x:1''" "net_joined ?s = [v, u]" "net_chan ?s u u \<noteq> []"
    using uv(1) out add(2,3) by (simp_all add: multicast_def pair post_def net_own_def)
  ultimately show "\<exists>s. (net_step lossy (\<lambda>_. example_env))\<^sup>*\<^sup>* net_empty s \<and> net_dir s v = Some (example_dir v) \<and>
      net_own s u ''t'' = Some ''tcp://x:1'' \<and> net_joined s = [v, u] \<and> net_chan s u v = [notice_text u example_notice] \<and>
      net_chan s u u \<noteq> []" by blast
qed

text \<open>The packet arrives.\<close>

lemma example_network:
  defines "u \<equiv> example_guid ''u''" and "v \<equiv> example_guid ''v''"
  shows "\<exists>s d t. (net_step lossy (\<lambda>_. example_env))\<^sup>*\<^sup>* net_empty s \<and> net_dir s v = Some d \<and> net_chan s u v = [] \<and>
    registered (d_topics d) ''t'' u = Some t \<and> dt_address t = ''tcp://x:1'' \<and> before (net_joined s) v u \<and>
    net_dir s u \<noteq> None \<and> net_chan s u u \<noteq> [] \<and> net_joined s = [v, u]"
proof -
  let ?E = "\<lambda>_ :: string. example_env"
  have uv: "u \<noteq> v" using example_guids by (auto simp: u_def v_def)
  have fine: "dir_fine ?E v (example_dir v)" using example_fine [of "''v''"] by (simp add: v_def)
  note m = example_offered(1) [folded u_def]
  obtain s where s: "(net_step lossy ?E)\<^sup>*\<^sup>* net_empty s" "net_dir s v = Some (example_dir v)"
    "net_own s u ''t'' = Some ''tcp://x:1''" "net_joined s = [v, u]" "net_chan s u v = [notice_text u example_notice]"
    "net_chan s u u \<noteq> []" using example_offered(2) [folded u_def v_def] by blast
  from notice_event [OF fine m, of 7] obtain d2 out2 where ev:
    "dir_event ((?E v)\<lparr>en_now := 7\<rparr>) False (notice_text u example_notice) (example_dir v) = Some (Inr (d2, out2))"
    "view d2 u = notice_effect example_notice (view (example_dir v) u)" using uv by auto
  let ?s' = "multicast v out2 (s\<lparr>net_dir := (net_dir s)(v \<mapsto> d2), net_chan := set_chan u v [] (net_chan s)\<rparr>)"
  have "net_step lossy ?E s ?s'" by (rule net_step.delivery [OF net_deliver.deliver [OF s(2,5) ev(1)]])
  with s(1) have "(net_step lossy ?E)\<^sup>*\<^sup>* net_empty ?s'" by (meson rtranclp.rtrancl_into_rtrancl)
  moreover obtain t where "registered (d_topics d2) ''t'' u = Some t" "dt_address t = ''tcp://x:1''"
    using fun_cong [OF ev(2), of "''t''"] by (auto simp: view_def example_notice_def)
  moreover have "before [v, u] v u" unfolding before_def using uv by (intro exI [of _ "[v]"] exI [of _ "[u]"]) simp
  moreover have "net_dir ?s' v = Some d2" "net_dir ?s' u \<noteq> None" "net_joined ?s' = [v, u]" "net_chan ?s' u v = []"
    "net_chan ?s' u u \<noteq> []"
    using uv s(3,4,6) by (auto simp: multicast_def post_def set_chan_def net_own_def split: option.splits)
  ultimately show ?thesis by metis
qed

section \<open>Properties\<close>

lemma quiet_agreement:
  assumes "(net_step False envs)\<^sup>*\<^sup>* net_empty s" and "net_dir s h = Some d" and "g \<noteq> h" and "net_chan s g h = []"
  shows "view d g \<subseteq>\<^sub>m net_own s g" and "before (net_joined s) h g \<Longrightarrow> view d g = net_own s g"
proof -
  obtain chan where c: "carried envs s chan" "informed envs s chan" using net_reach_carried [OF assms(1)] by blast
  have "chan g h = []" using carriedD(1) [OF c(1)] assms(4) by simp
  from disco.agrees_quiet [OF c(2) [unfolded informed_def] assms(2) this assms(3)]
  show "view d g \<subseteq>\<^sub>m net_own s g" "before (net_joined s) h g \<Longrightarrow> view d g = net_own s g"
    by (simp_all add: net_own_own [OF c(1)])
qed

text \<open>
  C1: The directories of a network agree on what is offered. However nodes join, leave, add and remove topics, observe,
  query and answer, in any interleaving: as soon as the packets from a node \<open>g\<close> to a member \<open>h\<close> have been
  handled, \<open>h\<close> knows of no topic of \<open>g\<close> that \<open>g\<close> does not offer at just this address, nothing at all if \<open>g\<close> has left,
  and it knows every topic \<open>g\<close> offers if it joined before \<open>g\<close>. (Nothing is lost, and packets from one node to another
  stay in order.)
\<close>

theorem network_agreement:
  assumes "(net_step False envs)\<^sup>*\<^sup>* net_empty s" and "net_dir s h = Some d" and "g \<noteq> h" and "net_chan s g h = []"
  shows "view d g \<subseteq>\<^sub>m net_own s g \<and> (before (net_joined s) h g \<longrightarrow> view d g = net_own s g)"
  using quiet_agreement [OF assms] by blast

theorem network_agreement_witness:
  "\<exists>s d. (net_step False (\<lambda>_. example_env))\<^sup>*\<^sup>* net_empty s \<and> net_dir s (example_guid ''v'') = Some d \<and>
     net_chan s (example_guid ''u'') (example_guid ''v'') = [] \<and> before (net_joined s) (example_guid ''v'') (example_guid ''u'') \<and>
     net_own s (example_guid ''u'') ''t'' = Some ''tcp://x:1''"
proof -
  obtain s d t where s: "(net_step False (\<lambda>_. example_env))\<^sup>*\<^sup>* net_empty s" "net_dir s (example_guid ''v'') = Some d"
    "net_chan s (example_guid ''u'') (example_guid ''v'') = []"
    "registered (d_topics d) ''t'' (example_guid ''u'') = Some t" "dt_address t = ''tcp://x:1''"
    "before (net_joined s) (example_guid ''v'') (example_guid ''u'')"
    using example_network by blast
  from network_agreement [OF s(1,2) example_guids(1) s(3)] s(6) have "view d (example_guid ''u'') = net_own s (example_guid ''u'')"
    by blast
  from fun_cong [OF this, of "''t''"] have "net_own s (example_guid ''u'') ''t'' = Some ''tcp://x:1''"
    using s(4,5) by (simp add: view_def)
  with s show ?thesis by blast
qed

text \<open>
  C2: What a directory knows is true, even on a network that drops, repeats and reorders packets: every address it has for a
  topic of a node was offered by that node under that name.
\<close>

theorem network_authentic:
  assumes "(net_step lossy envs)\<^sup>*\<^sup>* net_empty s" and "net_dir s h = Some d"
    and "registered (d_topics d) n g = Some t"
  shows "(g, n, dt_address t) \<in> net_offered s"
proof -
  obtain chan where "carried envs s chan" using net_reach_carried [OF assms(1)] by blast
  from carriedD(3) [OF this assms(2), of g] assms(3) show ?thesis by (auto simp: known_def view_def)
qed

theorem network_authentic_witness:
  "\<exists>s. (net_step True (\<lambda>_. example_env))\<^sup>*\<^sup>* net_empty s \<and> (example_guid ''u'', ''t'', ''tcp://x:1'') \<in> net_offered s"
proof -
  obtain s d t where s: "(net_step True (\<lambda>_. example_env))\<^sup>*\<^sup>* net_empty s" "net_dir s (example_guid ''v'') = Some d"
    "registered (d_topics d) ''t'' (example_guid ''u'') = Some t" "dt_address t = ''tcp://x:1''"
    using example_network by blast
  with network_authentic [OF s(1-3)] show ?thesis by auto
qed

text \<open>
  C3: Discovery comes to rest. From every reachable state the packets on their way, and those sent in answer to them, are used up
  after finitely many deliveries in whatever order they happen, and as long as there is a packet for a member it can be
  delivered: its handling neither fails nor loops.
\<close>

theorem network_settles:
  assumes "(net_step lossy envs)\<^sup>*\<^sup>* net_empty s"
  shows "(\<nexists>f. f 0 = s \<and> (\<forall>i. net_deliver envs (f i) (f (Suc i)))) \<and>
    (net_dir s h \<noteq> None \<longrightarrow> net_chan s g h \<noteq> [] \<longrightarrow> (\<exists>s'. net_deliver envs s s'))"
proof -
  obtain chan where c: "carried envs s chan" using net_reach_carried [OF assms] by blast
  show ?thesis
  proof (intro conjI impI)
    show "\<nexists>f. f 0 = s \<and> (\<forall>i. net_deliver envs (f i) (f (Suc i)))" by (rule deliveries_end [OF c])
    assume "net_dir s h \<noteq> None" and "net_chan s g h \<noteq> []"
    then show "\<exists>s'. net_deliver envs s s'" using can_deliver [OF c] by blast
  qed
qed

theorem network_settles_witness:
  "\<exists>s s'. (net_step True (\<lambda>_. example_env))\<^sup>*\<^sup>* net_empty s \<and> net_deliver (\<lambda>_. example_env) s s'"
proof -
  obtain s where s: "(net_step True (\<lambda>_. example_env))\<^sup>*\<^sup>* net_empty s"
    "net_dir s (example_guid ''u'') \<noteq> None" "net_chan s (example_guid ''u'') (example_guid ''u'') \<noteq> []"
    using example_network by blast
  with network_settles [OF s(1), of "example_guid ''u''" "example_guid ''u''"] show ?thesis by blast
qed

end
