(* ===== verification/Discovery_Search.thy ===== *)
theory Discovery_Search
  imports Discovery_Network
begin

text \<open>
  Nodes that come late: what a directory learns by the searches of its query timer
  (\<open>queryMissingTopics\<close> and \<open>discoverySearch\<close> of \<open>src/a17/dispatch/directory.cpp\<close>), on the network
  of \<open>Discovery_Network\<close>.
\<close>

section \<open>A search on its way\<close>

text \<open>
  A search for \<open>n\<close> is on its way from \<open>h\<close> to \<open>g\<close>, or \<open>h\<close> knows of \<open>n\<close> at \<open>g\<close> once it has handled what \<open>g\<close> has sent.
\<close>

definition learns :: "string \<Rightarrow> string \<Rightarrow> string \<Rightarrow> directory \<Rightarrow>
    (string \<Rightarrow> string \<Rightarrow> notice list) \<Rightarrow> bool" where
  "learns n g h d chan \<longleftrightarrow> (\<exists>names. Searched names \<in> set (chan h g) \<and> n \<in> set names) \<or>
     n \<in> dom (disco.prospect chan g h d)"

lemma available_dom: "dom v \<subseteq> dom (notice_effect (notice_of n t) v)" "n \<in> dom (notice_effect (notice_of n t) v)"
  by (auto simp: notice_of_def)

lemma fold_available_dom:
  assumes "set ms \<subseteq> range (case_prod notice_of)"
  shows "dom v \<subseteq> dom (fold notice_effect ms v)"
  using assms
proof (induction ms arbitrary: v)
  case (Cons m ms)
  then obtain n t where "m = notice_of n t" by auto
  with available_dom(1) [of v n t] have "dom v \<subseteq> dom (notice_effect m v)" by simp
  also have "\<dots> \<subseteq> dom (fold notice_effect ms (notice_effect m v))" using Cons by simp
  finally show ?case by simp
qed simp

lemma fold_available_knows:
  assumes "set ms \<subseteq> range (case_prod notice_of)" and "notice_of n t \<in> set ms"
  shows "n \<in> dom (fold notice_effect ms v)"
proof -
  obtain xs ys where ms: "ms = xs @ notice_of n t # ys" using assms(2) by (meson split_list)
  let ?v = "notice_effect (notice_of n t) (fold notice_effect xs v)"
  have "n \<in> dom ?v" by (rule available_dom(2))
  also have "dom ?v \<subseteq> dom (fold notice_effect ys ?v)" using assms(1) by (intro fold_available_dom) (simp add: ms)
  finally show ?thesis by (simp add: ms)
qed

lemma replies_available: "set (replies d g q) \<subseteq> range (case_prod notice_of)"
  using replies_local by fastforce

text \<open>A node answers a search for a topic it offers.\<close>

lemma replies_answer:
  assumes "ts_findLocal n (d_topics d) = Some t" and "n \<noteq> []" and "n \<in> set names" and "h \<noteq> d_guid d"
  shows "notice_of n t \<in> set (replies d h (Searched names))"
proof -
  have "notice_of n t \<in> set (local_notices d n)"
    using assms(1,2) by (force simp: local_notices_def ts_findLocal_def dest: map_of_SomeD)
  with assms(3,4) show ?thesis by auto
qed

lemma offered_name:
  assumes "dir_fine envs g d" and "ts_findLocal n (d_topics d) = Some t"
  shows "n \<noteq> []"
  using dir_fineD(6) [OF assms(1), of n t] assms(2)
  by (auto simp: ts_findLocal_def topic_fine_def notice_ok_def notice_of_def dest!: map_of_SomeD)

text \<open>Deliveries change nobody's offers and lose no search and no answer.\<close>

lemma learns_deliver:
  assumes "net_deliver envs s s'" and c: "carried envs s chan" and gh: "g \<noteq> h"
    and d: "net_dir s h = Some d" and own: "n \<in> dom (net_own s g)" and l: "learns n g h d chan"
  shows "\<exists>chan' d'. carried envs s' chan' \<and> net_dir s' h = Some d' \<and> net_own s' g = net_own s g \<and>
    learns n g h d' chan'"
  using assms(1)
proof cases
  case (deliver b e a p ps now e' out)
  obtain m ms where m: "chan a b = m # ms" "net_handle envs b e a m (replies e a m) e'"
    "carried envs s' (post ((net_dir s)(b \<mapsto> e')) b (replies e a m) (set_chan a b ms chan))"
    using carried_deliver [OF c deliver(2-4)] unfolding deliver(1) by blast
  let ?dirs = "(net_dir s)(b \<mapsto> e')" and ?chan = "post ((net_dir s)(b \<mapsto> e')) b (replies e a m) (set_chan a b ms chan)"
  define d' where "d' = (if h = b then e' else d)"
  have s': "net_dir s' = ?dirs" by (simp add: deliver(1) multicast_def)
  have fine: "dir_fine envs b e" using carriedD(3) [OF c deliver(2)] by blast
  have "net_own s' g = net_own s g"
    using disco.own_handle [of envs b e "net_dir s" a m "replies e a m" e', OF fine deliver(2) m(2)]
      net_own_own [OF c] net_own_own [OF m(3)] s' by simp
  moreover have "net_dir s' h = Some d'" using d by (simp add: s' d'_def)
  moreover have "learns n g h d' ?chan"
  proof -
    have pro: "disco.prospect ?chan g h d' =
        (if g = b then fold notice_effect (replies e a m) (disco.prospect chan b h d) else disco.prospect chan g h d)"
      using disco.prospect_handle [where dirs = "net_dir s" and chan = chan, OF fine deliver(2) m(1,2) gh d d'_def] by simp
    have kept: "n \<in> dom (disco.prospect ?chan g h d')" if "n \<in> dom (disco.prospect chan g h d)"
      using that fold_available_dom [OF replies_available [of e a m]] unfolding pro by (cases "g = b") auto
    show ?thesis
    proof (cases "n \<in> dom (disco.prospect chan g h d)")
      case False
      then obtain names where q: "Searched names \<in> set (chan h g)" "n \<in> set names" using l by (auto simp: learns_def)
      show ?thesis
      proof (cases "a = h \<and> b = g \<and> m = Searched names")
        case True
        obtain t where t: "ts_findLocal n (d_topics e) = Some t"
          using own deliver(2) True by (auto simp: net_own_def)
        have "notice_of n t \<in> set (replies e a m)"
          using replies_answer [OF t offered_name [OF fine t] q(2), of h] True gh dir_fineD(3) [OF fine] by auto
        with fold_available_knows [OF replies_available [of e a m], of n t] True show ?thesis unfolding learns_def pro by auto
      next
        case False
        then have "Searched names \<in> set (?chan h g)" using q(1) m(1) by (auto simp: post_def set_chan_def)
        with q(2) show ?thesis by (auto simp: learns_def)
      qed
    qed (use kept in \<open>auto simp: learns_def\<close>)
  qed
  ultimately show ?thesis using m(3) by blast
qed

lemma learns_deliveries:
  assumes "(net_deliver envs)\<^sup>*\<^sup>* s s'" and "carried envs s chan" and "g \<noteq> h"
    and "net_dir s h = Some d" and "n \<in> dom (net_own s g)" and "learns n g h d chan"
  shows "\<exists>chan' d'. carried envs s' chan' \<and> net_dir s' h = Some d' \<and> net_own s' g = net_own s g \<and>
    learns n g h d' chan'"
  using assms(1)
proof induction
  case base
  then show ?case using assms by blast
next
  case (step y z)
  then show ?case using learns_deliver [OF step(2) _ assms(3)] assms(5) by metis
qed

section \<open>The search\<close>

text \<open>The packets of the query timer say that all missing topics are searched.\<close>

lemma timer_searches:
  assumes "dir_fine envs h d" and "queryMissingTopics ((envs h)\<lparr>en_now := now\<rparr>) False d = Inr (d', out)"
  shows "\<exists>groups. packets out = map (notice_text h) (map Searched groups) \<and>
    set (concat groups) = set (ts_getMissing (d_topics d)) \<and> (\<forall>m \<in> set (map Searched groups). notice_ok envs h m)"
proof -
  note fine = dir_fineD [OF assms(1)]
  have "dir_ok ((envs h)\<lparr>en_now := now\<rparr>) d" using fine(1) by simp
  from query_offer(3) [OF this assms(2)] obtain groups where q: "packets out = map (query_text h) groups"
    "set (concat groups) = set (ts_getMissing (d_topics d))"
    "\<forall>q \<in> set groups. q \<noteq> [] \<and> set q \<subseteq> set (ts_getMissing (d_topics d)) \<and> length (query_text h q) < EVENT_BUFFER_SIZE"
    using fine(3) by auto
  have "printable_word n" if "n \<in> set (ts_getMissing (d_topics d))" for n
    using that fine(7) by (auto simp: getMissing_set)
  with q fine(5) show ?thesis by (intro exI [of _ groups]) (auto simp: notice_ok_def)
qed

text \<open>Deliveries lead to a state in which nothing is on its way to a member.\<close>

definition settled :: "network \<Rightarrow> bool" where
  "settled s \<longleftrightarrow> (\<forall>g h. net_dir s h \<noteq> None \<longrightarrow> net_chan s g h = [])"

lemma deliveries_settle:
  assumes "carried envs s chan"
  shows "\<exists>s'. (net_deliver envs)\<^sup>*\<^sup>* s s' \<and> settled s'"
  using assms
proof (induction "burden (net_joined s) chan" arbitrary: s chan rule: wf_induct_rule [OF wf_lex_prod [OF wf_less_than wf_less_than]])
  case 1
  show ?case
  proof (cases "settled s")
    case False
    then obtain g h e where "net_dir s h = Some e" "net_chan s g h \<noteq> []" by (auto simp: settled_def)
    then obtain s1 where s1: "net_deliver envs s s1" using can_deliver [OF 1(2)] by blast
    then obtain chan1 where "carried envs s1 chan1"
      "(burden (net_joined s1) chan1, burden (net_joined s) chan) \<in> less_than <*lex*> less_than"
      using net_deliver_carried [OF s1 1(2)] by blast
    with 1(1) obtain s' where "(net_deliver envs)\<^sup>*\<^sup>* s1 s'" "settled s'" by blast
    with s1 show ?thesis by (meson converse_rtranclp_into_rtranclp)
  qed blast
qed

lemma deliveries_reach: "(net_deliver envs)\<^sup>*\<^sup>* s s' \<Longrightarrow> (net_step lossy envs)\<^sup>*\<^sup>* s s'"
  by (induction rule: rtranclp_induct) (auto intro: net_step.delivery rtranclp.rtrancl_into_rtrancl)

lemma search_finds:
  assumes reach: "(net_step False envs)\<^sup>*\<^sup>* net_empty s" and h: "net_dir s h = Some d"
    and missing: "n \<in> set (ts_getMissing (d_topics d))"
    and timer: "queryMissingTopics ((envs h)\<lparr>en_now := now\<rparr>) False d = Inr (d', out)"
    and g: "g \<noteq> h" "net_own s g n = Some a"
  defines "s1 \<equiv> multicast h out (s\<lparr>net_dir := (net_dir s)(h \<mapsto> d'), net_offered := net_offered s \<union> offers d'\<rparr>)"
  shows "(\<exists>s'. (net_deliver envs)\<^sup>*\<^sup>* s1 s' \<and> settled s') \<and>
    (\<forall>s'. (net_deliver envs)\<^sup>*\<^sup>* s1 s' \<longrightarrow> net_chan s' h g = [] \<longrightarrow> net_chan s' g h = [] \<longrightarrow>
      (\<exists>e. net_dir s' h = Some e \<and> view e g n = Some a))"
proof (intro conjI allI impI)
  obtain chan where c: "carried envs s chan" using net_reach_carried [OF reach] by blast
  have fine: "dir_fine envs h d" using carriedD(3) [OF c h] by blast
  obtain groups where q: "packets out = map (notice_text h) (map Searched groups)"
    "set (concat groups) = set (ts_getMissing (d_topics d))" "\<forall>m \<in> set (map Searched groups). notice_ok envs h m"
    using timer_searches [OF fine timer] by blast
  let ?chan = "post ((net_dir s)(h \<mapsto> d')) h (map Searched groups) chan"
  have call: "do_call ((envs h)\<lparr>en_now := now\<rparr>) (Call_Timer False) d = Inr (d', out)" using timer by simp
  have ok: "call_ok False envs (Call_Timer False) out" by simp
  have says: "call_says (Call_Timer False) d (map Searched groups)" by auto
  have c1: "carried envs s1 ?chan" unfolding s1_def by (rule carried_call(2) [OF c h call ok says q(1,3)])
  then show "\<exists>s'. (net_deliver envs)\<^sup>*\<^sup>* s1 s' \<and> settled s'" by (rule deliveries_settle)
  have own: "net_own s1 g = net_own s g" using g(1) by (simp add: s1_def multicast_def net_own_def)
  have s1: "net_dir s1 h = Some d'" by (simp add: s1_def multicast_def)
  obtain group where "group \<in> set groups" "n \<in> set group" using missing q(2) by auto
  then have l: "learns n g h d' ?chan" using g by (auto simp: learns_def post_def net_own_def split: option.splits)
  fix s'
  assume s': "(net_deliver envs)\<^sup>*\<^sup>* s1 s'" and quiet: "net_chan s' h g = []" "net_chan s' g h = []"
  have dom: "n \<in> dom (net_own s1 g)" using own g(2) by auto
  obtain chan' e where e: "carried envs s' chan'" "net_dir s' h = Some e" "net_own s' g = net_own s1 g" "learns n g h e chan'"
    using learns_deliveries [OF s' c1 g(1) s1 dom l] by blast
  have "chan' h g = []" "chan' g h = []" using carriedD(1) [OF e(1)] quiet by auto
  then have "n \<in> dom (view e g)" using e(4) by (auto simp: learns_def disco.prospect_def)
  moreover have "(net_step False envs)\<^sup>*\<^sup>* net_empty s'"
    using reach net_step.call [OF h call ok, folded s1_def] deliveries_reach [OF s']
    by (meson rtranclp.rtrancl_into_rtrancl rtranclp_trans)
  then have "view e g \<subseteq>\<^sub>m net_own s' g" by (rule quiet_agreement(1) [OF _ e(2) g(1) quiet(2)])
  ultimately have "view e g n = Some a" using e(3) own g(2) by (auto simp: map_le_def)
  with e(2) show "\<exists>e. net_dir s' h = Some e \<and> view e g n = Some a" by blast
qed

text \<open>The timer of a node of the example network that observes a topic.\<close>

lemma example_timer:
  "\<exists>d' out. queryMissingTopics example_env False (fst (dir_observe ''u'' ''t'' 3 (example_dir (example_guid ''v'')))) = Inr (d', out)"
proof -
  note e = example_observing [OF refl, where g = "example_guid ''v''"]
  have "length (query_text (example_guid ''v'') [''t'']) < EVENT_BUFFER_SIZE"
    by (simp add: query_text_def packet_text_def DISPATCH_def example_guid_def)
  then show ?thesis using queryMissing_step [OF e(1)] by (auto simp: e)
qed

section \<open>Properties\<close>

text \<open>
  C9: A missing topic is found, also by a node that came late. When the query timer of a member \<open>h\<close> fires while it observes a topic
  nobody it knows of provides, and \<open>g\<close> offers that topic, then the packets on their way and those sent in answer are used up in finitely
  many deliveries, and whatever the order of these, as soon as nothing is left between the two nodes, \<open>h\<close> knows the topic of \<open>g\<close> at the address
  where \<open>g\<close> offers it. (Nothing is lost, and packets from one node to another stay in order.)
\<close>

theorem missing_topic_found:
  assumes reach: "(net_step False envs)\<^sup>*\<^sup>* net_empty s" and h: "net_dir s h = Some d"
    and missing: "n \<in> set (ts_getMissing (d_topics d))"
    and timer: "queryMissingTopics ((envs h)\<lparr>en_now := now\<rparr>) False d = Inr (d', out)"
    and g: "g \<noteq> h" "net_own s g n = Some a"
  defines "s1 \<equiv> multicast h out (s\<lparr>net_dir := (net_dir s)(h \<mapsto> d'), net_offered := net_offered s \<union> offers d'\<rparr>)"
  shows "(\<exists>s'. (net_deliver envs)\<^sup>*\<^sup>* s1 s' \<and> settled s') \<and>
    (\<forall>s'. (net_deliver envs)\<^sup>*\<^sup>* s1 s' \<longrightarrow> net_chan s' h g = [] \<longrightarrow> net_chan s' g h = [] \<longrightarrow>
      (\<exists>e. net_dir s' h = Some e \<and> view e g n = Some a))"
  unfolding s1_def by (rule search_finds [OF assms(1-6)])

theorem missing_topic_found_witness:
  "\<exists>s d' out s'. (net_step False (\<lambda>_. example_env))\<^sup>*\<^sup>* net_empty s \<and>
     net_dir s (example_guid ''v'') = Some (fst (dir_observe ''u'' ''t'' 3 (example_dir (example_guid ''v'')))) \<and>
     queryMissingTopics example_env False (fst (dir_observe ''u'' ''t'' 3 (example_dir (example_guid ''v'')))) = Inr (d', out) \<and>
     (net_deliver (\<lambda>_. example_env))\<^sup>*\<^sup>* (multicast (example_guid ''v'') out
       (s\<lparr>net_dir := (net_dir s)(example_guid ''v'' \<mapsto> d'), net_offered := net_offered s \<union> offers d'\<rparr>)) s' \<and> settled s'"
proof -
  let ?E = "\<lambda>_ :: string. example_env" and ?u = "example_guid ''u''" and ?v = "example_guid ''v''"
  let ?d = "fst (dir_observe ''u'' ''t'' 3 (example_dir ?v))"
  have env: "example_env\<lparr>en_now := 7\<rparr> = example_env" by (simp add: example_env_def)
  note e = example_observing [OF refl, where g = ?v]
  obtain s where s: "(net_step False ?E)\<^sup>*\<^sup>* net_empty s" "net_dir s ?v = Some (example_dir ?v)" "net_own s ?u ''t'' = Some ''tcp://x:1''"
    using example_offered(2) by blast
  obtain o1 ref where ob: "dir_observe ''u'' ''t'' 3 (example_dir ?v) = (?d, o1, ref)" by (metis prod.collapse)
  have call: "do_call ((?E ?v)\<lparr>en_now := 7\<rparr>) (Call_Observe ''u'' ''t'' 3) (example_dir ?v) = Inr (?d, o1)"
    by (subst do_call.simps, subst ob) simp
  have cok: "call_ok False ?E (Call_Observe ''u'' ''t'' 3) o1" by (simp add: printable_word_def wire_word_def isprint_def)
  let ?s = "multicast ?v o1 (s\<lparr>net_dir := (net_dir s)(?v \<mapsto> ?d), net_offered := net_offered s \<union> offers ?d\<rparr>)"
  have reach: "(net_step False ?E)\<^sup>*\<^sup>* net_empty ?s" using s(1) net_step.call [OF s(2) call cok] by (rule rtranclp.rtrancl_into_rtrancl)
  have dir: "net_dir ?s ?v = Some ?d" and own: "net_own ?s ?u ''t'' = Some ''tcp://x:1''"
    using s(3) example_guids(1) by (simp_all add: multicast_def net_own_def)
  obtain d' out where timer: "queryMissingTopics example_env False ?d = Inr (d', out)" using example_timer by blast
  from missing_topic_found [where envs = ?E and now = 7, unfolded env, OF reach dir _ timer example_guids(1) own] e(2)
  obtain s' where "(net_deliver ?E)\<^sup>*\<^sup>* (multicast ?v out
       (?s\<lparr>net_dir := (net_dir ?s)(?v \<mapsto> d'), net_offered := net_offered ?s \<union> offers d'\<rparr>)) s'" "settled s'" by auto
  with reach dir timer show ?thesis by blast
qed

end
