(* ===== verification/Observers.thy ===== *)
theory Observers
  imports Discovery_Search
begin

text \<open>
  The directory and its observers (\<open>callObservers\<close> and the operations that lead to it, in
  \<open>src/a17/dispatch/directory.cpp\<close>): whatever a directory does, a handler that is registered for a topic and remembers the
  last map it was called with has the current one, and it is called for no other topic.
\<close>

section \<open>Calls of observers\<close>

fun called :: "dir_out list \<Rightarrow> call list" where
  "called [] = []"
| "called (Called c # out) = c # called out"
| "called (_ # out) = called out"

fun posts :: "dir_out list \<Rightarrow> (string \<times> nat) list" where
  "posts [] = []"
| "posts (Posted n k # out) = (n, k) # posts out"
| "posts (_ # out) = posts out"

lemma called_append [simp]: "called (out @ out') = called out @ called out'"
  by (induction out rule: called.induct) auto

lemma called_Called [simp]: "called (map Called cs) = cs"
  by (induction cs) auto

lemma posts_append [simp]: "posts (out @ out') = posts out @ posts out'"
  by (induction out rule: posts.induct) auto

lemma posts_Called [simp]: "posts (map Called cs) = []"
  by (induction cs) auto

text \<open>
  A step from \<open>s\<close> to \<open>s'\<close> with the calls \<open>cs\<close> tells the observers of \<open>s\<close>: whoever watches a topic has its
  current map, and is called only for a topic it is registered for.
\<close>

definition tells :: "topic_store \<Rightarrow> call list \<Rightarrow> topic_store \<Rightarrow> bool" where
  "tells s cs s' \<longleftrightarrow> (\<forall>k n. watched s k n \<longrightarrow> seen k n cs (gmap s n) = gmap s' n) \<and>
     (\<forall>(k, n, m) \<in> set cs. \<exists>(n', ob) \<in> set (ts_observers s). ob_handler ob = k \<and> n' \<in> {n, []})"

lemma tells_same: "ts_network_topics s' = ts_network_topics s \<Longrightarrow> tells s [] s'"
  by (simp add: tells_def)

lemma callObservers_registered:
  assumes "(k, n, m) \<in> set (callObservers s n' m')"
  shows "\<exists>(a, ob) \<in> set (ts_observers s). ob_handler ob = k \<and> a \<in> {n, []}"
  using assms by (force simp: callObservers_def Let_def equal_range_def)

lemma tells_apply:
  assumes "store_ok s" and "ts_apply op s = Inr (s', cs)"
  shows "tells s cs s'"
proof -
  have "\<exists>n' m'. c \<in> set (callObservers s n' m')" if "c \<in> set cs" for c
  proof (cases op)
    case (Op_Add t)
    with assms(2) obtain mine where "ts_add t s = Inr (s', cs, mine)" by (auto split: prod.splits)
    from ts_add_result(2) [OF assms(1) this] that show ?thesis by (auto split: if_splits)
  next
    case (Op_Remove g n)
    with assms(2) obtain mine where "ts_remove g n s = (s', cs, mine)" by (auto split: prod.splits)
    from ts_remove_result(2) [OF assms(1) this] that show ?thesis by (auto split: if_splits)
  next
    case (Op_Evict g)
    with assms(2) have "ts_evict g s = (s', cs)" by simp
    from ts_evict_result(2) [OF assms(1) this] that show ?thesis by (auto split: if_splits)
  qed
  then have "\<exists>(n', ob) \<in> set (ts_observers s). ob_handler ob = k \<and> n' \<in> {n, []}" if "(k, n, m) \<in> set cs" for k n m
    using callObservers_registered that by metis
  with ts_apply_notifies [OF assms] show ?thesis unfolding tells_def by blast
qed

lemma tells_add: "store_ok s \<Longrightarrow> ts_add t s = Inr (s', cs, mine) \<Longrightarrow> tells s cs s'"
  using tells_apply [of s "Op_Add t"] by simp

lemma tells_remove: "store_ok s \<Longrightarrow> ts_remove g n s = (s', cs, mine) \<Longrightarrow> tells s cs s'"
  using tells_apply [of s "Op_Remove g n"] by simp

lemma tells_evict: "store_ok s \<Longrightarrow> ts_evict g s = (s', cs) \<Longrightarrow> tells s cs s'"
  using tells_apply [of s "Op_Evict g"] by simp

lemmas tells_intros = tells_add tells_remove tells_evict

section \<open>Every operation tells\<close>

definition silent :: "directory \<Rightarrow> directory \<Rightarrow> dir_out list \<Rightarrow> bool" where
  "silent d d' out \<longleftrightarrow> d_topics d' = d_topics d \<and> called out = [] \<and> posts out = []"

lemma silent_refl [simp]: "silent d d []"
  by (simp add: silent_def)

lemma silent_trans: "silent d d1 o1 \<Longrightarrow> silent d1 d2 o2 \<Longrightarrow> silent d d2 (o1 @ o2)"
  by (simp add: silent_def)

lemma dir_malloc_silent: "dir_malloc env d = (d', buf) \<Longrightarrow> silent d d' []"
  by (auto simp: silent_def dir_malloc_def split: prod.splits)

lemma dir_async_send_silent: "dir_async_send buf data d = (d', out) \<Longrightarrow> silent d d' out"
  by (auto simp: silent_def dir_async_send_def)

lemma dir_send_silent: "dir_send env c args d = Inr (d', out) \<Longrightarrow> silent d d' out"
  by (auto simp: dir_send_def Let_def split: prod.splits if_splits
      dest!: dir_malloc_silent dir_async_send_silent intro: silent_trans [of _ _ "[]", simplified])

lemma send_each_silent: "send_each env c infos d = Inr (d', out) \<Longrightarrow> silent d d' out"
  by (induction infos arbitrary: d out) (auto intro: silent_trans dest!: dir_send_silent)

lemma query_loop_silent: "query_loop env cur count names d = Inr (d', out) \<Longrightarrow> silent d d' out"
proof (induction names arbitrary: cur count d out)
  case Nil
  then show ?case by (cases cur) (auto dest: dir_async_send_silent split: if_splits)
next
  case (Cons name names)
  define flush where "flush = (case cur of None \<Rightarrow> True
    | Some (buf, text) \<Rightarrow> length text + 1 + length name \<ge> EVENT_BUFFER_SIZE \<or> count \<ge> 4)"
  obtain d1 o1 where 1: "(case cur of Some (buf, text) \<Rightarrow> if flush then dir_async_send buf text d else (d, [])
      | None \<Rightarrow> (d, [])) = (d1, o1)" by fastforce
  obtain d2 new where 2: "(if flush then dir_malloc env d1 else (d1, 0)) = (d2, new)" by fastforce
  obtain cur' count' o2 where 3: "query_loop env cur' count' names d2 = Inr (d', o2)" "out = o1 @ o2"
    using Cons.prems by (auto simp: Let_def flush_def [symmetric] 1 2 split: prod.splits if_splits)
  have "silent d d1 o1" using 1 by (auto split: option.splits if_splits dest: dir_async_send_silent)
  moreover have "silent d1 d2 []" using 2 by (auto split: if_splits dest: dir_malloc_silent)
  ultimately show ?case using Cons.IH [OF 3(1)] unfolding 3(2) by (metis append_Nil silent_trans)
qed

lemma query_silent: "queryMissingTopics env ec d = Inr (d', out) \<Longrightarrow> silent d d' out"
  by (auto simp: queryMissingTopics_def Let_def split: if_splits dest!: query_loop_silent) (auto simp: silent_def)

lemma dir_sent_silent: "dir_sent buf ec bytes d = (d', out) \<Longrightarrow> silent d d' out"
  by (auto simp: dir_sent_def Let_def silent_def dir_async_send_def split: option.splits if_splits)

lemma startQueryTimer_silent: "startQueryTimer d = (d', out) \<Longrightarrow> silent d d' out"
  by (auto simp: startQueryTimer_def silent_def)

lemma answer_search_silent: "answer_search env name d = Inr (d', out) \<Longrightarrow> silent d d' out"
  by (auto simp: answer_search_def dest: send_each_silent dir_send_silent split: if_splits option.splits)

lemma search_loop_silent:
  assumes "search_loop env buf base pos d out = Some r"
  shows "\<forall>buf' d' out'. r = Inr (buf', d', out') \<longrightarrow>
     d_topics d' = d_topics d \<and> called out' = called out \<and> posts out' = posts out"
proof (rule search_loop.raw_induct [where P = "\<lambda>_ _ _ _ d out r. \<forall>buf' d' out'. r = Inr (buf', d', out') \<longrightarrow>
     d_topics d' = d_topics d \<and> called out' = called out \<and> posts out' = posts out", OF _ assms], goal_cases)
  case (1 loop env buf base pos d out r)
  consider (err) e where "r = Inl e" | (stop) "r = Inr (buf, d, out)"
    | (on) buf1 pos1 name d1 o1 where "answer_search env name d = Inr (d1, o1)"
        "loop env buf1 base pos1 d1 (out @ o1) = Some r"
    using 1(2) by (fastforce split: sum.splits if_splits)
  then show ?case
  proof cases
    case on
    with 1(1) [OF on(2)] answer_search_silent [OF on(1)] show ?thesis by (simp add: silent_def)
  qed auto
qed

text \<open>The handlers of packets, read as sequences of tests and the change at the end.\<close>

definition event_tells :: "directory \<Rightarrow> event_step \<Rightarrow> bool" where
  "event_tells d r \<longleftrightarrow> (\<forall>buf' d' out. r = Inr (buf', d', out) \<longrightarrow>
     tells (d_topics d) (called out) (d_topics d') \<and> posts out = [] \<and> ts_observers (d_topics d') = ts_observers (d_topics d))"

lemma event_tells_stop: "event_tells d (Inr (buf, d, []))" "event_tells d (Inl e)"
  by (simp_all add: event_tells_def tells_same)

lemma event_tells_then: "(\<And>x. event_tells d (f x)) \<Longrightarrow> event_tells d (and_then r f)"
  by (cases r) (auto simp: event_tells_def)

lemma event_tells_pair: "(\<And>x y. event_tells d (f x y)) \<Longrightarrow> event_tells d (case p of (x, y) \<Rightarrow> f x y)"
  by (cases p) auto

lemma event_tells_if: "event_tells d a \<Longrightarrow> event_tells d b \<Longrightarrow> event_tells d (if c then a else b)"
  by simp

lemma dir_add_tells:
  assumes "store_ok (d_topics d)" and "dir_add env name type address ins outs g d = Inr (d', out, mine)"
  shows "tells (d_topics d) (called out) (d_topics d') \<and> posts out = [] \<and> ts_observers (d_topics d') = ts_observers (d_topics d)"
proof -
  obtain t s' cs where add: "ts_add t (d_topics d) = Inr (s', cs, mine)"
    and out: "\<exists>o'. out = map Called cs @ o' \<and> silent (d\<lparr>d_topics := s'\<rparr>) d' o'"
    using assms(2) by (auto simp: dir_add_def Let_def split: if_splits dest!: dir_send_silent)
  from out tells_add [OF assms(1) add] ts_add_result(4) [OF assms(1) add] show ?thesis by (auto simp: silent_def)
qed

lemma event_tells_add:
  assumes "store_ok (d_topics d)"
  shows "event_tells d (and_then (dir_add env name type address ins outs g d) (\<lambda>(d, out, _). Inr (buf, d, out)))"
  using dir_add_tells [OF assms] by (auto simp: event_tells_def)

lemma discoveryAvailable_tells:
  assumes "store_ok (d_topics d)"
  shows "event_tells d (discoveryAvailable env g buf base d)"
  unfolding discoveryAvailable_def Let_def
  by (rule event_tells_add [OF assms] event_tells_stop event_tells_if event_tells_pair event_tells_then)+

lemma discoveryRemove_tells:
  assumes "store_ok (d_topics d)"
  shows "event_tells d (discoveryRemove g buf base d)"
proof -
  have "event_tells d (let (topics, calls, _) = ts_remove g name (d_topics d);
      (d, out) = startQueryTimer (d\<lparr>d_topics := topics\<rparr>) in Inr (buf', d, map Called calls @ out))" for name buf'
    by (auto simp: event_tells_def silent_def split: prod.splits dest!: startQueryTimer_silent
        intro: tells_remove [OF assms] ts_remove_result(4) [OF assms])
  then show ?thesis unfolding discoveryRemove_def by (intro event_tells_then event_tells_pair)
qed

lemma discoveryExit_tells:
  assumes "store_ok (d_topics d)"
  shows "event_tells d (discoveryExit g buf d)"
  by (auto simp: event_tells_def silent_def discoveryExit_def split: prod.splits dest!: startQueryTimer_silent
      intro: tells_evict [OF assms] ts_evict_result(4) [OF assms])

lemma handle_command_tells:
  assumes "store_ok (d_topics d)" and "handle_command env c g buf base d = Some r"
  shows "event_tells d r"
proof (cases "c = DISCOVERY_SEARCH")
  case True
  then have "search_loop env buf base 0 d [] = Some r" using assms(2) by (simp add: handle_command_def discoverySearch_def)
  then show ?thesis using search_loop_silent [of env buf base 0 d "[]" r] by (auto simp: event_tells_def tells_same)
next
  case False
  with assms(2) show ?thesis
    by (auto simp: handle_command_def split: if_splits intro: discoveryAvailable_tells [OF assms(1)]
        discoveryRemove_tells [OF assms(1)] discoveryExit_tells [OF assms(1)] event_tells_stop)
qed

lemma handleEvent_tells:
  assumes "store_ok (d_topics d)" and "handleEvent env buf d = Some r"
  shows "event_tells d r"
  using assms(2) handle_command_tells [OF assms(1)]
  by (auto simp: handleEvent_def Let_def event_tells_stop split: if_splits sum.splits)

lemma dir_event_tells:
  assumes "store_ok (d_topics d)" and "dir_event env ec packet d = Some (Inr (d', out))"
  shows "tells (d_topics d) (called out) (d_topics d') \<and> posts out = [] \<and> ts_observers (d_topics d') = ts_observers (d_topics d)"
proof (cases "ec \<or> \<not> list_all isprint packet")
  case True
  with assms(2) show ?thesis by (auto simp: dir_event_def Let_def tells_same split: if_splits)
next
  case False
  then obtain buf buf' d1 o1 where "handleEvent env buf d = Some (Inr (buf', d1, o1))"
    "d' = d1\<lparr>d_buffer := buf'\<rparr>" "out = o1 @ [Receive]"
    using assms(2) by (auto simp: dir_event_def Let_def split: if_splits option.splits sum.splits)
  with handleEvent_tells [OF assms(1), of env buf] show ?thesis by (auto simp: event_tells_def)
qed

lemma do_call_tells:
  assumes "store_ok (d_topics d)" and "do_call env c d = Inr (d', out)"
  shows "tells (d_topics d) (called out) (d_topics d')" and "(n, k) \<in> set (posts out) \<Longrightarrow> watched (d_topics d') k n"
proof -
  have "tells (d_topics d) (called out) (d_topics d') \<and> ((n, k) \<in> set (posts out) \<longrightarrow> watched (d_topics d') k n)"
  proof (cases c)
    case (Call_Add name type address ins outs)
    with assms(2) dir_add_tells [OF assms(1)] show ?thesis by auto
  next
    case (Call_Remove name)
    then obtain s' cs mine where r: "ts_remove (d_guid d) name (d_topics d) = (s', cs, mine)"
      and out: "\<exists>o'. out = map Called cs @ o' \<and> silent (d\<lparr>d_topics := s'\<rparr>) d' o'"
      using assms(2) by (auto simp: dir_remove_def Let_def split: prod.splits if_splits dest!: dir_send_silent)
    from out tells_remove [OF assms(1) r] show ?thesis by (auto simp: silent_def)
  next
    case (Call_Observe uuid name handler)
    then obtain o' where o': "out = Posted name handler # o'"
      "silent (d\<lparr>d_topics := fst (ts_observe uuid name handler (d_topics d))\<rparr>) d' o'"
      using assms(2) by (auto simp: dir_observe_def Let_def split: prod.splits dest!: startQueryTimer_silent)
    have "watched (d_topics d') handler name"
      using o'(2) by (auto simp: silent_def ts_observe_def watched_def mmap_emplace_def equal_range_def)
    with o' show ?thesis by (auto simp: silent_def ts_observe_def intro: tells_same)
  next
    case (Call_Unobserve name ref)
    with assms(2) show ?thesis
      by (auto simp: dir_unobserve_def silent_def ts_unobserve_def tells_same dest!: startQueryTimer_silent)
  next
    case (Call_Timer ec)
    with assms(2) query_silent show ?thesis by (auto simp: silent_def intro: tells_same)
  next
    case (Call_Sent buf ec bytes)
    with assms(2) dir_sent_silent show ?thesis by (auto simp: silent_def intro: tells_same)
  qed
  then show "tells (d_topics d) (called out) (d_topics d')"
    "(n, k) \<in> set (posts out) \<Longrightarrow> watched (d_topics d') k n" by auto
qed

end
