(* ===== verification/Servers.thy ===== *)
theory Servers
  imports Discovery
begin

text \<open>
  \<open>Server\<close> (\<open>src/a17/dispatch/server.{h,cpp}\<close>), the base of \<open>Publisher\<close>, \<open>SubServer\<close> and
  \<open>ReplyServer\<close>: a socket that binds to a local port and registers its topic with the directory
  of the node. Binding is ZeroMQ's: \<open>zbind address\<close> is \<open>None\<close> when it throws a
  \<open>system_error\<close> and otherwise the endpoint ZeroMQ reports afterwards (the option is taken to be
  readable and to fit its buffer of 256 bytes).
\<close>

section \<open>Server\<close>

record server =
  sv_topic_name :: string
  sv_address :: string
  sv_on_destroy :: bool
  sv_log_name :: string

definition Server_bind :: "(string \<Rightarrow> string option) \<Rightarrow> string \<Rightarrow> server \<Rightarrow> server option" where
  "Server_bind zbind address sv =
     (case zbind address of
        None \<Rightarrow> None
      | Some addr \<Rightarrow>
          (let sv = sv\<lparr>sv_address := address\<rparr> in
           Some (if addr \<noteq> address then sv\<lparr>sv_address := addr\<rparr> else sv)))"

definition Address_setPort :: "u16 \<Rightarrow> Address \<Rightarrow> Address" where
  "Address_setPort port a = a\<lparr>ad_port := port\<rparr>"

definition system_error :: fault where
  "system_error = Runtime_Error ''system_error''"

definition bind_retrying :: "(string \<Rightarrow> string option) \<Rightarrow> u16 \<Rightarrow> Address \<Rightarrow> server \<Rightarrow> server result" where
  "bind_retrying zbind port address sv =
     (case Server_bind zbind (Address_str address) sv of
        Some sv \<Rightarrow> Inr sv
      | None \<Rightarrow>
          if port \<noteq> 0
          then (case Server_bind zbind (Address_str (Address_setPort 0 address)) sv of
                  Some sv \<Rightarrow> Inr sv | None \<Rightarrow> Inl system_error)
          else Inl system_error)"

definition make_Server ::
  "env \<Rightarrow> (string \<Rightarrow> string option) \<Rightarrow> int \<Rightarrow> string \<Rightarrow> string \<Rightarrow> string list \<Rightarrow> string list \<Rightarrow> Address \<Rightarrow>
    directory \<Rightarrow> (server \<times> directory \<times> dir_out list) result" where
  "make_Server env zbind socketType className topicName inputTypes outputTypes address d =
     (let sv = \<lparr>sv_topic_name = topicName, sv_address = [], sv_on_destroy = False,
                sv_log_name = className @ '' ['' @ topicName @ '']''\<rparr>;
          (d, port) = nextServerPort d;
          address = (if port \<noteq> 0 then Address_setPort port (copy_Address address) else copy_Address address)
      in and_then (bind_retrying zbind port address sv) (\<lambda>sv.
         and_then (dir_add env topicName socketType (sv_address sv) inputTypes outputTypes (d_guid d) d)
           (\<lambda>(d, out, mine). Inr (sv\<lparr>sv_on_destroy := True\<rparr>, d, out))))"

definition make_Server_at :: "(string \<Rightarrow> string option) \<Rightarrow> string \<Rightarrow> string \<Rightarrow> server result" where
  "make_Server_at zbind className address =
     (case Server_bind zbind address
         \<lparr>sv_topic_name = [], sv_address = [], sv_on_destroy = False, sv_log_name = className\<rparr> of
        None \<Rightarrow> Inl system_error
      | Some sv \<Rightarrow> Inr (sv\<lparr>sv_log_name := sv_log_name sv @ ''('' @ sv_address sv @ '')''\<rparr>))"

definition Server_destroy :: "env \<Rightarrow> server \<Rightarrow> directory \<Rightarrow> dir_step" where
  "Server_destroy env sv d = (if sv_on_destroy sv then dir_remove env (sv_topic_name sv) d else Inr (d, []))"

text \<open>\<open>unbind\<close> gives the address ZeroMQ is told to unbind from, if any; \<open>address_\<close> keeps its value.\<close>

definition Server_unbind :: "server \<Rightarrow> server \<times> string option" where
  "Server_unbind sv = (sv, if sv_address sv \<noteq> [] then Some (sv_address sv) else None)"

definition Server_isBound :: "server \<Rightarrow> bool" where
  "Server_isBound sv \<longleftrightarrow> sv_address sv \<noteq> []"

text \<open>The move constructor: of the members of \<open>Server\<close> only the address is taken over.\<close>

definition Server_move :: "server \<Rightarrow> server" where
  "Server_move other =
     \<lparr>sv_topic_name = [], sv_address = sv_address other, sv_on_destroy = False, sv_log_name = sv_log_name other\<rparr>"

definition keys :: "('k::linorder, 'v) omap \<Rightarrow> 'k list" where
  "keys m = fold (\<lambda>entry ks. oset_insert (fst entry) ks) m []"

section \<open>The life of a server\<close>

lemma Server_bind_address:
  "Server_bind zbind address sv = map_option (\<lambda>addr. sv\<lparr>sv_address := addr\<rparr>) (zbind address)"
  by (cases "zbind address") (auto simp: Server_bind_def Let_def)

lemma nextServerPort_fields:
  assumes "nextServerPort d = (d', port)"
  shows "d_guid d' = d_guid d" "d_topics d' = d_topics d" "dir_ok env d' = dir_ok env d"
    "port = d_next_port d"
  using assms by (auto simp: nextServerPort_def dir_ok_def env_ok_def send_inv_def split: if_splits)

definition bound_endpoint :: "(string \<Rightarrow> string option) \<Rightarrow> Address \<Rightarrow> u16 \<Rightarrow> string option" where
  "bound_endpoint zbind address port =
     (if port = 0 then zbind (Address_str address)
      else case zbind (Address_str (Address_setPort port address)) of
             Some addr \<Rightarrow> Some addr
           | None \<Rightarrow> zbind (Address_str (Address_setPort 0 address)))"

lemma Address_str_copy [simp]:
  "Address_str (copy_Address a) = Address_str a"
  "Address_str (Address_setPort p (copy_Address a)) = Address_str (Address_setPort p a)"
  "Address_setPort p (Address_setPort q a) = Address_setPort p a"
  by (simp_all add: Address_str_def copy_Address_def Address_setPort_def)

lemma bind_retrying_address:
  "bind_retrying zbind port (if port \<noteq> 0 then Address_setPort port (copy_Address a) else copy_Address a) sv =
     (case bound_endpoint zbind a port of None \<Rightarrow> Inl system_error | Some addr \<Rightarrow> Inr (sv\<lparr>sv_address := addr\<rparr>))"
  by (auto simp: bind_retrying_def Server_bind_address bound_endpoint_def split: option.splits)

lemma make_Server_cases:
  fixes name className :: string
  defines "sv \<equiv> \<lambda>addr. \<lparr>sv_topic_name = name, sv_address = addr, sv_on_destroy = True,
    sv_log_name = className @ '' ['' @ name @ '']''\<rparr>"
  shows "make_Server env zbind type className name ins outs address d =
    (case bound_endpoint zbind address (d_next_port d) of
       None \<Rightarrow> Inl system_error
     | Some addr \<Rightarrow> and_then (dir_add env name type addr ins outs (d_guid d) (fst (nextServerPort d)))
         (\<lambda>(d, out, mine). Inr (sv addr, d, out)))"
proof -
  obtain d' port where d': "nextServerPort d = (d', port)" by fastforce
  note f = nextServerPort_fields [OF d']
  show ?thesis
    by (auto simp: make_Server_def d' f bind_retrying_address [of _ "d_next_port d", simplified] sv_def
        split: option.split)
qed

lemma dir_remove_own_ok:
  assumes "dir_ok env d" and "ts_findLocal name (d_topics d) = Some t"
    and "length (packet_text (d_guid d) DISCOVERY_REMOVE name) < EVENT_BUFFER_SIZE"
  shows "\<exists>d' cs buf. dir_remove env name d = Inr (d', map Called cs @
      [Send_To buf (packet_text (d_guid d) DISCOVERY_REMOVE name)]) \<and> dir_ok env d' \<and>
    d_topics d' = fst (ts_remove (d_guid d) name (d_topics d))"
proof -
  obtain s' cs m where r: "ts_remove (d_guid d) name (d_topics d) = (s', cs, m)"
    using prod_cases3 by blast
  have ok: "store_ok (d_topics d)" and me: "ts_my_guid (d_topics d) = d_guid d"
    using assms(1) by (auto simp: dir_ok_def)
  note rr = ts_remove_result [OF ok r] and ok' = ts_remove_ok [OF ok r]
  let ?d = "d\<lparr>d_topics := s'\<rparr>"
  have inv: "send_inv env ?d" "env_ok env ?d"
    using assms(1) by (auto simp: dir_ok_def send_inv_def env_ok_def)
  have m using rr(5) me assms(2) by (simp add: ts_findLocal_def)
  obtain d' out where send: "dir_send env DISCOVERY_REMOVE name ?d = Inr (d', out)"
    "sent env ?d d' out [packet_text (d_guid d) DISCOVERY_REMOVE name]"
    using dir_send_ok [OF inv, of DISCOVERY_REMOVE name] assms(3) by auto
  then obtain buf where "out = [Send_To buf (packet_text (d_guid d) DISCOVERY_REMOVE name)]"
    by (auto simp: sent_def)
  moreover have "dir_ok env d'" "d_topics d' = s'"
    using send(2) assms(1) ok' rr(3) me by (auto simp: dir_ok_def sent_def)
  ultimately show ?thesis using send(1) \<open>m\<close> by (auto simp: dir_remove_def r)
qed

text \<open>
  A moved server has the endpoint but never withdraws the topic, and the object it was moved from withdraws it when
  it is destroyed, although the endpoint is still bound.
\<close>

lemma moved_server:
  assumes "sv_on_destroy sv"
  shows "sv_address (Server_move sv) = sv_address sv" and "Server_destroy env (Server_move sv) d = Inr (d, [])"
    and "Server_destroy env sv d = dir_remove env (sv_topic_name sv) d"
  using assms by (simp_all add: Server_move_def Server_destroy_def)

lemma keys_of_map:
  assumes "omap_ok m"
  shows "keys m = map fst m"
proof -
  have "sorted acc \<Longrightarrow> distinct acc \<Longrightarrow> (let ks = fold (\<lambda>entry. oset_insert (fst entry)) m acc in
      sorted ks \<and> distinct ks \<and> set ks = set acc \<union> fst ` set m)" for acc
    by (induction m arbitrary: acc) (auto simp: Let_def sorted_insort_insert distinct_insort_insert set_insort_insert)
  from this [of "[]"] show ?thesis
    using omap_ok_sorted [OF assms] omap_ok_distinct [OF assms]
    by (intro sorted_distinct_set_unique) (auto simp: keys_def Let_def)
qed

lemma packets_called: "packets (map Called cs @ out) = packets out"
  by (induction cs) auto

lemma packet_text_shorter:
  "name \<noteq> [] \<Longrightarrow> length (packet_text g DISCOVERY_REMOVE name) \<le>
    length (packet_text g DISCOVERY_AVAILABLE (topic_info name tname address ins outs))"
  by (simp add: packet_text_def topic_info_def)

text \<open>
  C23: The life of a server. When ZeroMQ can bind the address (with the directory's next port, or,
  if that fails, with a port it chooses), the constructor succeeds for a topic the node does not
  have yet: the directory then lists the topic under the endpoint that was really bound, announces
  it in one packet, and the destructor withdraws it in one packet and leaves exactly the topics
  there were before. When ZeroMQ cannot bind, the constructor throws and registers nothing.
\<close>

theorem server_lifecycle:
  assumes "dir_ok env d" and "ts_findLocal name (d_topics d) = None" and "name \<noteq> []"
    and "fromType type = Inr tname"
    and "\<And>addr. bound_endpoint zbind address (d_next_port d) = Some addr \<Longrightarrow>
      length (packet_text (d_guid d) DISCOVERY_AVAILABLE (topic_info name tname addr ins outs)) < EVENT_BUFFER_SIZE"
  shows "case make_Server env zbind type className name ins outs address d of
      Inl e \<Rightarrow> e = system_error \<and> bound_endpoint zbind address (d_next_port d) = None
    | Inr (sv, d1, out) \<Rightarrow>
        bound_endpoint zbind address (d_next_port d) = Some (sv_address sv) \<and> dir_ok env d1 \<and>
        (\<exists>t. ts_findLocal name (d_topics d1) = Some t \<and> dt_address t = sv_address sv \<and> dt_socketType t = type) \<and>
        packets out = [packet_text (d_guid d) DISCOVERY_AVAILABLE (topic_info name tname (sv_address sv) ins outs)] \<and>
        (\<exists>d2 out2. Server_destroy env sv d1 = Inr (d2, out2) \<and> dir_ok env d2 \<and>
           packets out2 = [packet_text (d_guid d1) DISCOVERY_REMOVE name] \<and> d_topics d2 = d_topics d)"
proof (cases "bound_endpoint zbind address (d_next_port d)")
  case (Some addr)
  define d0 where "d0 = fst (nextServerPort d)"
  have f: "d_guid d0 = d_guid d" "d_topics d0 = d_topics d" "dir_ok env d0"
    using nextServerPort_fields [of d d0 "snd (nextServerPort d)"] assms(1) by (auto simp: d0_def)
  have fits: "length (packet_text (d_guid d0) DISCOVERY_AVAILABLE (topic_info name tname addr ins outs)) < EVENT_BUFFER_SIZE"
    using assms(5) Some f by simp
  obtain d1 cs buf t where add: "dir_add env name type addr ins outs (d_guid d0) d0 = Inr (d1, map Called cs @
      [Send_To buf (packet_text (d_guid d) DISCOVERY_AVAILABLE (topic_info name tname addr ins outs))], True)"
    and g: "d_guid d1 = d_guid d" and d1: "dir_ok env d1" "ts_findLocal name (d_topics d1) = Some t" "dt_address t = addr" "dt_socketType t = type"
    "fst (ts_remove (d_guid d0) name (d_topics d1)) = d_topics d"
    using dir_add_own_ok [OF f(3) _ assms(4) fits refl] assms(2) f by auto
  have fits': "length (packet_text (d_guid d1) DISCOVERY_REMOVE name) < EVENT_BUFFER_SIZE"
    using fits packet_text_shorter [OF assms(3), of "d_guid d" tname addr ins outs] f g by simp
  from dir_remove_own_ok [OF d1(1,2) fits'] d1 f g
  show ?thesis
    by (auto simp: make_Server_cases Some d0_def [symmetric] add [unfolded f] Server_destroy_def packets_called)
qed (simp add: make_Server_cases)

theorem server_lifecycle_witness:
  "\<exists>sv d1 out. make_Server example_env (\<lambda>a. Some ''tcp://x:1'') 1 ''Publisher'' ''t'' [] [''42'']
      (make_Address ''tcp'' ''x'' 0) (example_dir ''a'') = Inr (sv, d1, out) \<and> sv_address sv = ''tcp://x:1''"
proof -
  have b: "bound_endpoint (\<lambda>a. Some ''tcp://x:1'') a p = Some ''tcp://x:1''" for a p
    by (simp add: bound_endpoint_def)
  have "ts_findLocal ''t'' (d_topics (example_dir ''a'')) = None" "d_guid (example_dir ''a'') = ''a''"
    by (simp_all add: ts_findLocal_def example_dir_def DirectoryTopicStore_def)
  moreover have "fromType 1 = Inr ''PUB''" by (simp add: fromType_def socket_types_def)
  ultimately show ?thesis
    using server_lifecycle [OF example_dir_ok(1), of "''t''" "''a''" 1 "''PUB''" "\<lambda>a. Some ''tcp://x:1''"
        "make_Address ''tcp'' ''x'' 0" "[]" "[''42'']" "''Publisher''"]
    by (auto simp: b packet_text_def topic_info_def DISPATCH_def writeTypes_def NO_TYPES_def split: sum.splits)
qed

end
