(* ===== verification/Client_Sockets.thy ===== *)
theory Client_Sockets
  imports Complex_Main Topic_Store
begin

text \<open>
  The sockets that connect to topics: \<open>Client\<close> (\<open>src/a17/dispatch/client.{h,cpp}\<close>), the base of
  \<open>Subscriber\<close> and \<open>PubClient\<close>, and \<open>RequestClient\<close> (\<open>request_client.{h,cpp}\<close>). What they do to the
  ZeroMQ socket, the timer and the application's handlers is output, in order; handlers are numbers.
  Connecting and disconnecting a ZeroMQ socket is taken not to throw.
\<close>

section \<open>Client\<close>

record client =
  cl_addresses :: "string list"
  cl_has_on_connect :: bool
  cl_has_on_disconnect :: bool
  cl_topic_name :: string
  cl_class_name :: string
  cl_log_name :: string

datatype client_out =
    Z_Connect string
  | Z_Disconnect string
  | On_Connect string
  | On_Disconnect string

definition Client_connect :: "string \<Rightarrow> client \<Rightarrow> client \<times> client_out list" where
  "Client_connect address c =
     (if address \<notin> set (cl_addresses c) then
        (c\<lparr>cl_addresses := oset_insert address (cl_addresses c),
           cl_log_name := (if cl_log_name c = cl_class_name c
             then cl_log_name c @ ''('' @ address @ '')'' else cl_log_name c)\<rparr>,
         Z_Connect address # (if cl_has_on_connect c then [On_Connect (cl_topic_name c)] else []))
      else (c, []))"

definition Client_disconnect :: "string \<Rightarrow> client \<Rightarrow> client \<times> client_out list" where
  "Client_disconnect address c =
     (if address \<in> set (cl_addresses c) then
        (c\<lparr>cl_addresses := filter (\<lambda>a. a \<noteq> address) (cl_addresses c)\<rparr>,
         Z_Disconnect address # (if cl_has_on_disconnect c then [On_Disconnect (cl_topic_name c)] else []))
      else (c, []))"

definition Client_isConnected :: "nat \<Rightarrow> client \<Rightarrow> bool" where
  "Client_isConnected count c \<longleftrightarrow> length (cl_addresses c) \<ge> count"

fun connect_all :: "string list \<Rightarrow> client \<Rightarrow> client \<times> client_out list" where
  "connect_all [] c = (c, [])"
| "connect_all (a # as) c =
     (let (c1, o1) = (if a \<notin> set (cl_addresses c) then Client_connect a c else (c, []));
          (c2, o2) = connect_all as c1 in (c2, o1 @ o2))"

text \<open>
  The second loop of \<open>onDirectoryTopicsChanged\<close> iterates over \<open>addresses_\<close>. A call of \<open>disconnect\<close>
  erases the element the iterator points to, and its argument is a reference to that element, used
  again after the erasure: undefined behaviour.
\<close>

fun disconnect_stale :: "string list \<Rightarrow> string list \<Rightarrow> client \<Rightarrow> (client \<times> client_out list) result" where
  "disconnect_stale new_addresses [] c = Inr (c, [])"
| "disconnect_stale new_addresses (a # as) c =
     (if a \<notin> set new_addresses then Inl Dangling else disconnect_stale new_addresses as c)"

definition Client_onDirectoryTopicsChanged ::
  "guid_topic_map \<Rightarrow> client \<Rightarrow> (client \<times> client_out list) result" where
  "Client_onDirectoryTopicsChanged m c =
     (let new_addresses = map (\<lambda>e. dt_address (snd e)) m;
          (c1, o1) = connect_all new_addresses c
      in and_then (disconnect_stale new_addresses (cl_addresses c1) c1)
           (\<lambda>(c2, o2). Inr (c2, o1 @ o2)))"

text \<open>Constructors: observing a topic (the caller passes the handlers), one address, several.\<close>

definition Client_topic :: "string \<Rightarrow> string \<Rightarrow> bool \<Rightarrow> bool \<Rightarrow> client" where
  "Client_topic class_name topic_name has_connect has_disconnect =
     \<lparr>cl_addresses = [], cl_has_on_connect = has_connect, cl_has_on_disconnect = has_disconnect,
      cl_topic_name = topic_name, cl_class_name = class_name,
      cl_log_name = class_name @ '' ['' @ topic_name @ '']''\<rparr>"

definition Client_bare :: "string \<Rightarrow> client" where
  "Client_bare class_name =
     \<lparr>cl_addresses = [], cl_has_on_connect = False, cl_has_on_disconnect = False,
      cl_topic_name = [], cl_class_name = class_name, cl_log_name = class_name\<rparr>"

definition Client_address :: "string \<Rightarrow> string \<Rightarrow> client \<times> client_out list" where
  "Client_address class_name address =
     (if address \<noteq> [] then Client_connect address (Client_bare class_name)
      else (Client_bare class_name, []))"

fun connect_each :: "string list \<Rightarrow> client \<Rightarrow> client \<times> client_out list" where
  "connect_each [] c = (c, [])"
| "connect_each (a # as) c =
     (let (c1, o1) = Client_connect a c; (c2, o2) = connect_each as c1 in (c2, o1 @ o2))"

definition Client_addresses :: "string \<Rightarrow> string list \<Rightarrow> (client \<times> client_out list) result" where
  "Client_addresses class_name addresses =
     (if addresses = [] then Inl (Runtime_Error ''No addresses to connect to'')
      else (let (c, out) = connect_each addresses (Client_bare class_name)
            in Inr (c\<lparr>cl_log_name := class_name @ '' ('' @ hd (cl_addresses c) @ ''+)''\<rparr>, out)))"

text \<open>
  The move constructor takes over the addresses and the socket, not the topic, the names and the handlers; nor is the
  handler registered with the directory, which still calls the old object.
\<close>

definition Client_move :: "client \<Rightarrow> client" where
  "Client_move other =
     \<lparr>cl_addresses = cl_addresses other, cl_has_on_connect = False, cl_has_on_disconnect = False,
      cl_topic_name = [], cl_class_name = [], cl_log_name = cl_log_name other\<rparr>"

definition client_ok :: "client \<Rightarrow> bool" where
  "client_ok c \<longleftrightarrow> sorted (cl_addresses c) \<and> distinct (cl_addresses c)"

section \<open>RequestClient\<close>

text \<open>
  \<open>rc_receiving\<close> and \<open>rc_on_error\<close> belong to the current \<open>ZMQ_REQ\<close> socket: a receive is pending
  and the error handler it was started with. They go with the socket. A handler is a number;
  \<open>None\<close> is an empty \<open>std::function\<close>, whose call throws \<open>std::bad_function_call\<close>.
\<close>

record request_client =
  rc_connected :: bool
  rc_topic :: DirectoryTopic
  rc_reply_handler :: "nat option"
  rc_waiting :: bool
  rc_timer :: "nat option option"
  rc_receiving :: bool
  rc_on_error :: "nat option"

datatype rc_code = EC_Ok | EC_Already_In_Progress | EC_Not_Connected | EC_Timed_Out | EC_Other nat

datatype rc_out =
    RC_Socket string                  \<comment> \<open>a new \<open>ZMQ_REQ\<close> socket, connected to the address\<close>
  | RC_Disconnect string              \<comment> \<open>disconnect and destroy the socket\<close>
  | RC_Send "u8 list list"
  | RC_Receive                        \<comment> \<open>\<open>socket_->receive\<close>\<close>
  | RC_Reply nat "u8 list list"       \<comment> \<open>call of a reply handler\<close>
  | RC_Error nat rc_code              \<comment> \<open>call of an error handler\<close>
  | RC_Bad_Function_Call
  | RC_Timer int
  | RC_Timer_Cancel
  | RC_Return rc_code

definition RequestClient :: "DirectoryTopic \<Rightarrow> request_client" where
  "RequestClient no_topic = \<lparr>rc_connected = False, rc_topic = no_topic, rc_reply_handler = None,
     rc_waiting = False, rc_timer = None, rc_receiving = False, rc_on_error = None\<rparr>"

fun newest_from :: "DirectoryTopic \<Rightarrow> guid_topic_map \<Rightarrow> DirectoryTopic" where
  "newest_from newest [] = newest"
| "newest_from newest ((g, topic) # m) =
     newest_from (if dt_timestamp topic > dt_timestamp newest then topic else newest) m"

definition NewestTopic :: "guid_topic_map \<Rightarrow> DirectoryTopic result" where
  "NewestTopic m =
     (case m of [] \<Rightarrow> Inl (Runtime_Error ''Empty guid_topic_map'')
      | e # _ \<Rightarrow> Inr (newest_from (snd e) m))"

definition rc_disconnect :: "request_client \<Rightarrow> request_client \<times> rc_out list" where
  "rc_disconnect r =
     (if \<not> rc_connected r then (r, [])
      else (r\<lparr>rc_connected := False, rc_receiving := False, rc_on_error := None\<rparr>,
            [RC_Disconnect (dt_address (rc_topic r))]))"

definition rc_connect :: "DirectoryTopic \<Rightarrow> request_client \<Rightarrow> request_client \<times> rc_out list" where
  "rc_connect topic r =
     (if rc_connected r \<and> DirectoryTopic_eq topic (rc_topic r) then (r, [])
      else (let (r, out) = (if rc_connected r then rc_disconnect r else (r, []))
            in (r\<lparr>rc_topic := topic, rc_connected := True\<rparr>, out @ [RC_Socket (dt_address topic)])))"

definition rc_reconnect :: "request_client \<Rightarrow> request_client \<times> rc_out list" where
  "rc_reconnect r =
     (if \<not> rc_connected r then (r, [])
      else (let topic = rc_topic r; (r, o1) = rc_disconnect r; (r, o2) = rc_connect topic r
            in (r, o1 @ o2)))"

definition rc_onDirectoryTopicsChanged ::
  "guid_topic_map \<Rightarrow> request_client \<Rightarrow> (request_client \<times> rc_out list) result" where
  "rc_onDirectoryTopicsChanged m r =
     (if m = [] then Inr (rc_disconnect r)
      else and_then (NewestTopic m) (\<lambda>topic. Inr (rc_connect topic r)))"

definition rc_cleanupRequest :: "request_client \<Rightarrow> request_client \<times> rc_out list" where
  "rc_cleanupRequest r = (r\<lparr>rc_timer := None, rc_waiting := False\<rparr>, [RC_Timer_Cancel])"

definition call_error :: "nat option \<Rightarrow> rc_code \<Rightarrow> rc_out" where
  "call_error h code = (case h of None \<Rightarrow> RC_Bad_Function_Call | Some h \<Rightarrow> RC_Error h code)"

text \<open>
  \<open>request\<close>: the result of the ZeroMQ send is an argument. The timer is armed with
  \<open>int(timeout)\<close> seconds, the timeout being a rational here.
\<close>

definition rc_request ::
  "rc_code \<Rightarrow> u8 list list \<Rightarrow> nat option \<Rightarrow> nat option \<Rightarrow> rat \<Rightarrow> request_client \<Rightarrow>
    request_client \<times> rc_out list" where
  "rc_request send_result msg reply_handler error_handler timeout r =
     (let r = r\<lparr>rc_reply_handler := reply_handler\<rparr> in
      if rc_waiting r then (r, [RC_Return EC_Already_In_Progress])
      else if \<not> rc_connected r then (r, [RC_Return EC_Not_Connected])
      else if send_result \<noteq> EC_Ok then (r, [RC_Send msg, RC_Return send_result])
      else (let r = r\<lparr>rc_receiving := True, rc_on_error := error_handler, rc_waiting := True\<rparr> in
            if timeout > 0
            then (r\<lparr>rc_timer := Some error_handler\<rparr>,
                  [RC_Send msg, RC_Receive, RC_Timer \<lfloor>timeout\<rfloor>, RC_Return EC_Ok])
            else (r, [RC_Send msg, RC_Receive, RC_Return EC_Ok])))"

definition rc_sendReplyToHandler :: "u8 list list \<Rightarrow> request_client \<Rightarrow> request_client \<times> rc_out list" where
  "rc_sendReplyToHandler msg r =
     (let (r, out) = rc_cleanupRequest r
      in (r, out @ [case rc_reply_handler r of None \<Rightarrow> RC_Bad_Function_Call | Some h \<Rightarrow> RC_Reply h msg]))"

definition rc_on_timeout :: "bool \<Rightarrow> nat option \<Rightarrow> request_client \<Rightarrow> request_client \<times> rc_out list" where
  "rc_on_timeout aborted error_handler r =
     (if aborted then (r, [])
      else (let (r, o1) = rc_cleanupRequest r; (r, o2) = rc_reconnect r
            in (r, o1 @ o2 @ [call_error error_handler EC_Timed_Out])))"

text \<open>
  The events of a request client: calls of the observer, requests, and what the socket and the
  timer report. A complete reply or a receive error can only come while a receive is pending on
  the current socket (a destroyed socket runs no handlers), a timer event only while the timer is
  armed; the socket calls its error handler only if it is not empty. The exception of
  \<open>NewestTopic\<close> cannot occur here (the map is not empty).
\<close>

datatype rc_event =
    Ev_Topics guid_topic_map
  | Ev_Request rc_code "u8 list list" "nat option" "nat option" rat
  | Ev_Reply "u8 list list"
  | Ev_Receive_Error nat
  | Ev_Timeout

definition rc_step :: "(request_client, rc_event, rc_out) reaction" where
  "rc_step r ev =
     (case ev of
        Ev_Topics m \<Rightarrow> (case rc_onDirectoryTopicsChanged m r of Inl e \<Rightarrow> (r, []) | Inr p \<Rightarrow> p)
      | Ev_Request code msg h eh timeout \<Rightarrow> rc_request code msg h eh timeout r
      | Ev_Reply msg \<Rightarrow>
          if rc_receiving r then rc_sendReplyToHandler msg (r\<lparr>rc_receiving := False\<rparr>) else (r, [])
      | Ev_Receive_Error code \<Rightarrow>
          if rc_receiving r
          then (r\<lparr>rc_receiving := False\<rparr>,
                case rc_on_error r of None \<Rightarrow> [] | Some eh \<Rightarrow> [RC_Error eh (EC_Other code)])
          else (r, [])
      | Ev_Timeout \<Rightarrow> (case rc_timer r of None \<Rightarrow> (r, [])
          | Some eh \<Rightarrow> rc_on_timeout False eh (r\<lparr>rc_timer := None\<rparr>)))"

section \<open>Client: proofs\<close>

definition connections :: "client_out list \<Rightarrow> string list" where
  "connections out = concat (map (\<lambda>x. case x of Z_Connect a \<Rightarrow> [a] | _ \<Rightarrow> []) out)"

definition topic_addresses :: "guid_topic_map \<Rightarrow> string set" where
  "topic_addresses m = (\<lambda>e. dt_address (snd e)) ` set m"

lemma connections_simps [simp]:
  "connections [] = []"
  "connections (Z_Connect a # out) = a # connections out"
  "connections (Z_Disconnect a # out) = connections out"
  "connections (On_Connect a # out) = connections out"
  "connections (On_Disconnect a # out) = connections out"
  "connections (out @ out') = connections out @ connections out'"
  by (simp_all add: connections_def)

lemma connect_all_connects:
  "connect_all as c = (c', out) \<Longrightarrow>
     set (cl_addresses c') = set (cl_addresses c) \<union> set as \<and>
     (client_ok c \<longrightarrow> client_ok c') \<and>
     set (connections out) = set as - set (cl_addresses c) \<and> distinct (connections out) \<and>
     (\<forall>a. Z_Disconnect a \<notin> set out) \<and>
     (cl_has_on_connect c \<longrightarrow>
        length (filter (\<lambda>x. x = On_Connect (cl_topic_name c)) out) = length (connections out)) \<and>
     cl_has_on_connect c' = cl_has_on_connect c \<and> cl_topic_name c' = cl_topic_name c"
proof (induction as arbitrary: c c' out)
  case (Cons a as)
  show ?case
  proof (cases "a \<in> set (cl_addresses c)")
    case True
    then show ?thesis using Cons.prems Cons.IH [of c] by (auto split: prod.splits)
  next
    case False
    obtain c1 o1 where s: "Client_connect a c = (c1, o1)" by fastforce
    with Cons.prems False obtain o2 where r: "connect_all as c1 = (c', o2)" "out = o1 @ o2"
      by (auto split: prod.splits)
    have c1: "set (cl_addresses c1) = insert a (set (cl_addresses c))" "client_ok c \<longrightarrow> client_ok c1"
      "cl_has_on_connect c1 = cl_has_on_connect c" "cl_topic_name c1 = cl_topic_name c"
      and o1: "o1 = Z_Connect a # (if cl_has_on_connect c then [On_Connect (cl_topic_name c)] else [])"
      using s False by (auto simp: Client_connect_def client_ok_def set_insort_insert
        sorted_insort_insert distinct_insort_insert)
    show ?thesis using Cons.IH [OF r(1)] False by (auto simp: r(2) c1 o1)
  qed
qed simp

lemma disconnect_stale_cases:
  "disconnect_stale new as c =
     (if set as \<subseteq> set new then Inr (c, []) else Inl Dangling)"
  by (induction as) auto

lemma Client_topics_known:
  assumes "client_ok c" and "set (cl_addresses c) \<subseteq> topic_addresses m"
  shows "\<exists>c' out. Client_onDirectoryTopicsChanged m c = Inr (c', out) \<and> client_ok c' \<and>
    set (cl_addresses c') = topic_addresses m \<and> set (connections out) = topic_addresses m - set (cl_addresses c) \<and>
    distinct (connections out) \<and> (\<forall>a. Z_Disconnect a \<notin> set out) \<and>
    (cl_has_on_connect c \<longrightarrow>
       length (filter (\<lambda>x. x = On_Connect (cl_topic_name c)) out) = length (connections out))"
proof -
  define new where "new = map (\<lambda>e. dt_address (snd e)) m"
  obtain c1 o1 where r: "connect_all new c = (c1, o1)" by fastforce
  have new: "set new = topic_addresses m" by (simp add: new_def topic_addresses_def)
  have "Client_onDirectoryTopicsChanged m c = Inr (c1, o1)"
    using connect_all_connects [OF r] assms(2)
    by (simp add: Client_onDirectoryTopicsChanged_def new_def [symmetric] r new disconnect_stale_cases)
  with connect_all_connects [OF r] assms new show ?thesis by auto
qed

lemma Client_topics_cases:
  assumes "client_ok c"
  shows "case Client_onDirectoryTopicsChanged m c of
      Inl e \<Rightarrow> e = Dangling \<and> \<not> set (cl_addresses c) \<subseteq> topic_addresses m
    | Inr (c', out) \<Rightarrow>
        set (cl_addresses c) \<subseteq> topic_addresses m \<and>
        client_ok c' \<and> set (cl_addresses c') = topic_addresses m \<and>
        set (connections out) = topic_addresses m - set (cl_addresses c) \<and>
        distinct (connections out) \<and> (\<forall>a. Z_Disconnect a \<notin> set out) \<and>
        (cl_has_on_connect c \<longrightarrow>
           length (filter (\<lambda>x. x = On_Connect (cl_topic_name c)) out) = length (connections out))"
proof (cases "set (cl_addresses c) \<subseteq> topic_addresses m")
  case True
  with Client_topics_known [OF assms True] show ?thesis by auto
next
  case False
  define new where "new = map (\<lambda>e. dt_address (snd e)) m"
  obtain c1 o1 where r: "connect_all new c = (c1, o1)" by fastforce
  have "set new = topic_addresses m" by (simp add: new_def topic_addresses_def)
  with False connect_all_connects [OF r] show ?thesis
    by (simp add: Client_onDirectoryTopicsChanged_def new_def [symmetric] r disconnect_stale_cases)
qed

text \<open>
  C26: A client follows the directory. When the observer is called with a map of topics that still
  has every address the client is connected to, the client ends up connected to exactly the
  addresses of the map, each address it did not have before connected once, nothing disconnected,
  and the connection handler called once per new address. When an address has gone, the code runs
  into the erasure of the element under its iterator, whatever else is in the map.
\<close>

theorem client_follows_directory:
  assumes "client_ok c"
  shows "case Client_onDirectoryTopicsChanged m c of
      Inl e \<Rightarrow> e = Dangling \<and> \<not> set (cl_addresses c) \<subseteq> topic_addresses m
    | Inr (c', out) \<Rightarrow>
        set (cl_addresses c) \<subseteq> topic_addresses m \<and>
        client_ok c' \<and> set (cl_addresses c') = topic_addresses m \<and>
        set (connections out) = topic_addresses m - set (cl_addresses c) \<and>
        distinct (connections out) \<and> (\<forall>a. Z_Disconnect a \<notin> set out) \<and>
        (cl_has_on_connect c \<longrightarrow>
           length (filter (\<lambda>x. x = On_Connect (cl_topic_name c)) out) = length (connections out))"
  by (rule Client_topics_cases [OF assms])

theorem client_follows_directory_witness:
  "\<exists>c out. Client_onDirectoryTopicsChanged [(''g'', example_topic)] (Client_topic ''Subscriber'' ''t'' True False)
     = Inr (c, out) \<and> set (cl_addresses c) = {dt_address example_topic}"
proof -
  let ?c = "Client_topic ''Subscriber'' ''t'' True False"
  have "client_ok ?c" by (simp add: client_ok_def Client_topic_def)
  from client_follows_directory [OF this, of "[(''g'', example_topic)]"]
  show ?thesis
    by (cases "Client_onDirectoryTopicsChanged [(''g'', example_topic)] ?c")
      (auto simp: topic_addresses_def Client_topic_def)
qed

section \<open>RequestClient: proofs\<close>

lemma DirectoryTopic_eq_iff [simp]: "DirectoryTopic_eq t u \<longleftrightarrow> t = u" for t u :: DirectoryTopic
  by (cases t; cases u) (auto simp: DirectoryTopic_eq_def)

lemma newest_from_max:
  "newest_from t m \<in> insert t (snd ` set m) \<and>
   dt_timestamp t \<le> dt_timestamp (newest_from t m) \<and>
   (\<forall>u \<in> snd ` set m. dt_timestamp u \<le> dt_timestamp (newest_from t m))"
proof (induction m arbitrary: t)
  case (Cons e m)
  obtain g u where e: "e = (g, u)" by fastforce
  show ?case using Cons.IH [of "if dt_timestamp u > dt_timestamp t then u else t"]
    by (auto simp: e split: if_splits)
qed simp

lemma NewestTopic_max:
  assumes "m \<noteq> []"
  obtains t where "NewestTopic m = Inr t" and "t \<in> snd ` set m"
    and "\<And>u. u \<in> snd ` set m \<Longrightarrow> dt_timestamp u \<le> dt_timestamp t"
proof -
  from assms obtain e m' where m: "m = e # m'" by (cases m) auto
  have "insert (snd e) (snd ` set m) = snd ` set m" by (auto simp: m)
  with newest_from_max [of "snd e" m] show thesis
    by (intro that [of "newest_from (snd e) m"]) (auto simp: NewestTopic_def m)
qed

definition rc_inv :: "request_client \<Rightarrow> bool" where
  "rc_inv r \<longleftrightarrow> (rc_receiving r \<longrightarrow> rc_waiting r \<and> rc_connected r) \<and> (rc_timer r \<noteq> None \<longrightarrow> rc_waiting r)"

definition rc_worth :: "rc_out \<Rightarrow> int" where
  "rc_worth x = (case x of
       RC_Return code \<Rightarrow> if code = EC_Ok then 1 else 0
     | RC_Reply h msg \<Rightarrow> -1
     | RC_Error h code \<Rightarrow> if code = EC_Timed_Out then -1 else 0
     | RC_Bad_Function_Call \<Rightarrow> -1
     | _ \<Rightarrow> 0)"

lemmas rc_defs = rc_step_def rc_disconnect_def rc_connect_def rc_reconnect_def
  rc_cleanupRequest_def rc_request_def rc_sendReplyToHandler_def rc_on_timeout_def call_error_def

lemma rc_step_topics:
  "rc_step r (Ev_Topics []) = rc_disconnect r"
  "NewestTopic m = Inr t \<Longrightarrow> rc_step r (Ev_Topics m) = rc_connect t r"
  by (auto simp: rc_step_def rc_onDirectoryTopicsChanged_def NewestTopic_def)

lemma rc_step_topics_cases:
  "rc_step r (Ev_Topics m) = rc_disconnect r \<or> (\<exists>t. rc_step r (Ev_Topics m) = rc_connect t r)"
proof (cases "m = []")
  case False
  then obtain t where "NewestTopic m = Inr t" by (rule NewestTopic_max) blast
  then show ?thesis by (auto simp: rc_step_topics)
qed (simp add: rc_step_topics)

lemma rc_connect_inv: "rc_inv r \<Longrightarrow> rc_inv (fst (rc_connect t r))"
  by (auto simp: rc_inv_def rc_connect_def rc_disconnect_def)

lemma rc_disconnect_inv: "rc_inv r \<Longrightarrow> rc_inv (fst (rc_disconnect r))"
  by (auto simp: rc_inv_def rc_disconnect_def)

lemma rc_step_inv: "rc_inv r \<Longrightarrow> rc_inv (fst (rc_step r ev))"
proof (cases ev)
  case (Ev_Topics m)
  assume "rc_inv r"
  with rc_step_topics_cases [of r m] show ?thesis
    by (auto simp: Ev_Topics rc_disconnect_inv rc_connect_inv)
next
  case Ev_Timeout
  assume "rc_inv r"
  then show ?thesis
    by (cases "rc_timer r") (auto simp: Ev_Timeout rc_defs rc_inv_def Let_def)
qed (auto simp: rc_defs rc_inv_def Let_def)

lemma rc_connect_worth:
  "(\<Sum>x\<leftarrow>snd (rc_connect t r). rc_worth x) = 0 \<and> rc_waiting (fst (rc_connect t r)) = rc_waiting r"
  by (simp add: rc_connect_def rc_disconnect_def rc_worth_def)

lemma rc_disconnect_worth:
  "(\<Sum>x\<leftarrow>snd (rc_disconnect r). rc_worth x) = 0 \<and> rc_waiting (fst (rc_disconnect r)) = rc_waiting r"
  by (simp add: rc_disconnect_def rc_worth_def)

lemma rc_step_balance:
  assumes "rc_inv r"
  shows "of_bool (rc_waiting (fst (rc_step r ev))) =
    of_bool (rc_waiting r) + (\<Sum>x\<leftarrow>snd (rc_step r ev). rc_worth x)"
proof (cases ev)
  case (Ev_Topics m)
  with rc_step_topics_cases [of r m] show ?thesis
    by (auto simp: rc_disconnect_worth rc_connect_worth)
next
  case (Ev_Request code msg h eh timeout)
  show ?thesis by (auto simp: Ev_Request rc_defs rc_worth_def Let_def)
next
  case (Ev_Reply msg)
  then show ?thesis using assms by (auto simp: rc_defs rc_worth_def rc_inv_def split: option.split)
next
  case (Ev_Receive_Error code)
  then show ?thesis by (auto simp: rc_defs rc_worth_def split: option.split)
next
  case Ev_Timeout
  then show ?thesis using assms
    by (auto simp: rc_defs rc_worth_def rc_inv_def Let_def split: option.split)
qed

interpretation rc: accounting rc_step rc_inv rc_worth "\<lambda>r. of_bool (rc_waiting r)"
  by unfold_locales (simp_all add: rc_step_inv rc_step_balance)

lemma RequestClient_inv: "rc_inv (RequestClient t)"
  by (simp add: RequestClient_def rc_inv_def)

lemmas rc_reachable_inv = rc.inv_run [OF RequestClient_inv]

text \<open>
  The request client is connected to the newest server: in any state it can reach, after a
  change of the topics it has a socket exactly if some node offers the topic, and then the socket
  is connected to a registered topic whose timestamp is maximal. It keeps its socket, and hence an
  answer under way, if that topic is the one it is connected to already; otherwise the old
  socket goes and a new one, on which no receive is pending, is made.
\<close>

theorem request_client_connects_to_newest:
  assumes "r = fst (run rc_step (RequestClient t) es)"
  shows "case rc_step r (Ev_Topics m) of (r', out) \<Rightarrow>
     (rc_connected r' \<longleftrightarrow> m \<noteq> []) \<and>
     (m \<noteq> [] \<longrightarrow> rc_topic r' \<in> snd ` set m \<and>
        (\<forall>u \<in> snd ` set m. dt_timestamp u \<le> dt_timestamp (rc_topic r')) \<and>
        (if rc_connected r \<and> rc_topic r' = rc_topic r then r' = r \<and> out = []
         else out = (if rc_connected r then [RC_Disconnect (dt_address (rc_topic r))] else [])
                 @ [RC_Socket (dt_address (rc_topic r'))] \<and> \<not> rc_receiving r'))"
proof (cases "m = []")
  case False
  then obtain u where u: "NewestTopic m = Inr u" "u \<in> snd ` set m"
    "\<And>v. v \<in> snd ` set m \<Longrightarrow> dt_timestamp v \<le> dt_timestamp u" by (rule NewestTopic_max) blast
  have inv: "rc_inv r" using assms rc_reachable_inv by simp
  show ?thesis
  proof (cases "rc_connected r \<and> u = rc_topic r")
    case True
    then have "rc_step r (Ev_Topics m) = (r, [])" using u(1) by (simp add: rc_step_topics rc_connect_def)
    with True False u show ?thesis by simp
  next
    case new: False
    with u(1) inv show ?thesis using False u(2,3)
      by (auto simp: rc_step_topics rc_connect_def rc_disconnect_def rc_inv_def)
  qed
qed (simp add: rc_step_topics rc_disconnect_def)

theorem request_client_connects_to_newest_witness:
  "rc_connected (fst (rc_step (RequestClient example_topic) (Ev_Topics [(''g'', example_topic)])))"
  using request_client_connects_to_newest
    [of "RequestClient example_topic" example_topic "[]" "[(''g'', example_topic)]"]
  by auto



text \<open>
  A timeout makes the client usable again. When the timer of a pending request fires while the
  client is connected, the socket is replaced by a new one to the same server, the error handler is
  told, and the next request is sent and accepted. An empty error handler, the default argument,
  makes the timer handler throw.
\<close>

theorem timeout_recovers:
  assumes "rc_timer r = Some eh" and "rc_connected r"
  shows "case rc_step r Ev_Timeout of (r', out) \<Rightarrow>
     out = [RC_Timer_Cancel, RC_Disconnect (dt_address (rc_topic r)), RC_Socket (dt_address (rc_topic r)),
            (case eh of None \<Rightarrow> RC_Bad_Function_Call | Some h \<Rightarrow> RC_Error h EC_Timed_Out)] \<and>
     rc_connected r' \<and> rc_topic r' = rc_topic r \<and> \<not> rc_waiting r' \<and> \<not> rc_receiving r' \<and>
     rc_timer r' = None \<and>
     (case rc_step r' (Ev_Request EC_Ok msg h e timeout) of (r'', out') \<Rightarrow>
        RC_Send msg \<in> set out' \<and> last out' = RC_Return EC_Ok \<and> rc_receiving r'' \<and>
        rc_reply_handler r'' = h)"
  using assms by (simp add: rc_defs Let_def)

definition awaiting :: "nat option \<Rightarrow> rat \<Rightarrow> request_client" where
  "awaiting eh timeout = fst (run rc_step (RequestClient example_topic)
     [Ev_Topics [(''g'', example_topic)], Ev_Request EC_Ok [] (Some 0) eh timeout])"

lemma awaiting_simps [simp]:
  "rc_connected (awaiting eh timeout)" "rc_waiting (awaiting eh timeout)"
  "rc_receiving (awaiting eh timeout)" "rc_reply_handler (awaiting eh timeout) = Some 0"
  "rc_timer (awaiting eh timeout) = (if timeout > 0 then Some eh else None)"
  by (simp_all add: awaiting_def rc_defs rc_onDirectoryTopicsChanged_def NewestTopic_def
      RequestClient_def Let_def)

theorem timeout_recovers_witness:
  "last (snd (rc_step (awaiting None 2) Ev_Timeout)) = RC_Bad_Function_Call"
  using timeout_recovers [of "awaiting None 2" None "[]" None None 1] by (auto split: prod.splits)

definition blocked :: "request_client \<Rightarrow> bool" where
  "blocked r \<longleftrightarrow> rc_waiting r \<and> \<not> rc_receiving r \<and> rc_timer r = None"

definition exchanges :: "rc_out \<Rightarrow> bool" where
  "exchanges x \<longleftrightarrow> (case x of RC_Send msg \<Rightarrow> True | RC_Reply h msg \<Rightarrow> True | _ \<Rightarrow> False)"

lemma blocked_step:
  assumes "blocked r"
  shows "blocked (fst (rc_step r ev)) \<and> (\<forall>x \<in> set (snd (rc_step r ev)). \<not> exchanges x)"
proof (cases ev)
  case (Ev_Topics m)
  with rc_step_topics_cases [of r m] assms show ?thesis
    by (auto simp: blocked_def rc_connect_def rc_disconnect_def exchanges_def split: if_splits)
qed (use assms in \<open>auto simp: blocked_def rc_step_def rc_request_def Let_def exchanges_def\<close>)

interpretation rc_blocked: output_machine rc_step blocked "\<lambda>x. \<not> exchanges x"
  by unfold_locales (auto dest: blocked_step)

text \<open>
  C29: A request without a timeout blocks the client for good if its answer is lost: once the
  socket reports a receive error, the last server disappears or a newer server replaces it
  while the reply is awaited, no later event makes the client send a request or deliver a
  reply again, because \<open>waiting_for_receive_\<close> is never reset.
\<close>

theorem lost_answer_blocks_client:
  assumes "rc_waiting r" and "rc_connected r" and "rc_timer r = None"
    and "ev = Ev_Topics [] \<or> ev = Ev_Receive_Error code \<and> rc_receiving r \<or>
         ev = Ev_Topics [(g, u)] \<and> u \<noteq> rc_topic r"
  shows "rc_waiting (fst (run rc_step r (ev # es))) \<and>
    (\<forall>x \<in> set (snd (run rc_step r (ev # es))). \<not> exchanges x)"
proof -
  have b: "blocked (fst (rc_step r ev)) \<and> (\<forall>x \<in> set (snd (rc_step r ev)). \<not> exchanges x)"
    using assms
    by (auto simp: blocked_def rc_step_def rc_onDirectoryTopicsChanged_def NewestTopic_def
      rc_disconnect_def rc_connect_def exchanges_def split: option.split)
  then show ?thesis
    using rc_blocked.inv_run [of "fst (rc_step r ev)" es]
      rc_blocked.allowed_run [of "fst (rc_step r ev)" _ es]
    by (auto simp: blocked_def split: prod.splits)
qed

theorem lost_answer_blocks_client_witness:
  "rc_waiting (fst (run rc_step (awaiting (Some 1) (-1)) [Ev_Topics [], Ev_Request EC_Ok [] (Some 2) None 1]))"
  using lost_answer_blocks_client [of "awaiting (Some 1) (-1)" "Ev_Topics []" 0 "[]" example_topic
      "[Ev_Request EC_Ok [] (Some 2) None 1]"]
  by simp

text \<open>
  A request that is refused because a reply is still awaited takes over that reply: the
  handler it passed is called with the answer to the earlier request, whose own handler is lost.
\<close>

theorem refused_request_takes_reply:
  assumes "rc_receiving r" and "rc_waiting r"
  shows "snd (run rc_step r [Ev_Request code msg (Some h) eh timeout, Ev_Reply answer])
    = [RC_Return EC_Already_In_Progress, RC_Timer_Cancel, RC_Reply h answer]"
  using assms by (simp add: rc_defs Let_def)

theorem refused_request_takes_reply_witness:
  "snd (run rc_step (awaiting None 2) [Ev_Request EC_Ok [] (Some 7) None 1, Ev_Reply []])
    = [RC_Return EC_Already_In_Progress, RC_Timer_Cancel, RC_Reply 7 []]"
  using refused_request_takes_reply [of "awaiting None 2"] by simp

end
