(* ===== verification/Capnp_Builder.thy ===== *)
theory Capnp_Builder
  imports Buffer_Pool C_Strings
begin

text \<open>
  \<open>SmartCapnpBuilder\<close> (\<open>src/a17/dispatch/smart_capnp_builder.{h,cpp}\<close>): where a capnproto message
  gets its memory, and how its segments are copied into one ZeroMQ message. Memory is a function
  from addresses to bytes, 64-bit words and 32-bit table entries are little-endian as on the
  supported machines. The operating system's allocator is an argument: each call of
  \<open>allocateSegment\<close> gets the address \<open>::malloc\<close> would return inside the pool and the one
  \<open>::calloc\<close> would return, \<open>0\<close> for none. The arena of \<open>capnp::MessageBuilder\<close> that asks for
  segments and \<open>capnp::computeSerializedSizeInWords\<close> are not part of the sources.
\<close>

section \<open>Memory of a builder\<close>

record builder =
  sb_id :: u64
  sb_next_size :: u32
  sb_own_first_segment :: bool
  sb_returned_first_segment :: bool
  sb_first_segment :: nat
  sb_is_first_segment_pooled :: bool
  sb_invalidated :: bool
  sb_more_segments :: "(nat list \<times> bool list) option"

definition WORD_SIZE :: nat where
  "WORD_SIZE = 8"

definition SmartCapnpBuilder :: "buffer_pool \<Rightarrow> builder" where
  "SmartCapnpBuilder pool =
     \<lparr>sb_id = 0, sb_next_size = of_nat (bp_bufferSize pool div WORD_SIZE), sb_own_first_segment = True,
      sb_returned_first_segment = False, sb_first_segment = 0, sb_is_first_segment_pooled = False,
      sb_invalidated = False, sb_more_segments = None\<rparr>"

text \<open>
  \<open>initRoot\<close> and \<open>setRoot\<close> record the id of the type before capnproto builds the root, in a first segment
  it gets from \<open>allocateSegment\<close> below.
\<close>

definition initRoot :: "u64 \<Rightarrow> builder \<Rightarrow> builder" where
  "initRoot RootType b = b\<lparr>sb_id := RootType\<rparr>"

definition setRoot :: "u64 \<Rightarrow> builder \<Rightarrow> builder" where
  "setRoot RootType b = b\<lparr>sb_id := RootType\<rparr>"

text \<open>
  The move constructor: the new builder, in which \<open>invalidated_\<close> is set, and the old one, which
  keeps everything but the segments after the first.
\<close>

definition move_builder :: "builder \<Rightarrow> builder \<times> builder" where
  "move_builder other =
     (other\<lparr>sb_invalidated := True\<rparr>, other\<lparr>sb_more_segments := None\<rparr>)"

definition clear_memory :: "nat \<Rightarrow> nat \<Rightarrow> (nat \<Rightarrow> u8) \<Rightarrow> nat \<Rightarrow> u8" where
  "clear_memory ptr n mem = (\<lambda>a. if ptr \<le> a \<and> a < ptr + n then 0 else mem a)"

definition push_segment :: "nat \<Rightarrow> bool \<Rightarrow> (nat list \<times> bool list) option \<Rightarrow> (nat list \<times> bool list) option" where
  "push_segment ptr pooled more_segments =
     (let (segments, flags) = (case more_segments of Some s \<Rightarrow> s | None \<Rightarrow> ([], []))
      in Some (segments @ [ptr], flags @ [pooled]))"

type_synonym memory = "buffer_pool \<times> (nat \<Rightarrow> u8)"

definition allocateSegment ::
  "nat \<Rightarrow> nat \<Rightarrow> u32 \<Rightarrow> builder \<Rightarrow> memory \<Rightarrow> ((nat \<times> u32) \<times> builder \<times> memory) result" where
  "allocateSegment os_malloc os_calloc minimumSize b pm =
     (if \<not> sb_returned_first_segment b \<and> \<not> sb_own_first_segment b \<and> sb_next_size b \<ge> minimumSize
      then Inr ((sb_first_segment b, sb_next_size b), b\<lparr>sb_returned_first_segment := True\<rparr>, pm)
      else
       (let b = (if \<not> sb_returned_first_segment b \<and> \<not> sb_own_first_segment b
                 then b\<lparr>sb_own_first_segment := True\<rparr> else b);
            size = max minimumSize (sb_next_size b);
            usePool = (unat size * WORD_SIZE \<le> bp_bufferSize (fst pm));
            (pm, ptr) = (if usePool then bp_calloc os_malloc pm else (pm, 0));
            (pm, ptr) = (if ptr = 0
                         then ((fst pm, if os_calloc = 0 then snd pm
                                        else clear_memory os_calloc (unat size * WORD_SIZE) (snd pm)), os_calloc)
                         else (pm, ptr))
        in if ptr = 0 then Inl (Runtime_Error ''calloc failed'')
           else Inr ((ptr, size),
             (if \<not> sb_returned_first_segment b
              then b\<lparr>sb_first_segment := ptr, sb_returned_first_segment := True,
                     sb_is_first_segment_pooled := usePool\<rparr>
              else b\<lparr>sb_more_segments := push_segment ptr usePool (sb_more_segments b)\<rparr>), pm)))"

text \<open>The destructor returns the pool and the pointers given to \<open>::free\<close>, in order.\<close>

definition free_segment :: "nat \<Rightarrow> bool \<Rightarrow> buffer_pool \<Rightarrow> buffer_pool \<times> nat list" where
  "free_segment ptr pooled pool =
     (if pooled then (let (pool, freed) = bp_free ptr pool in (pool, case freed of None \<Rightarrow> [] | Some q \<Rightarrow> [q]))
      else (pool, [ptr]))"

fun free_segments :: "(nat \<times> bool) list \<Rightarrow> buffer_pool \<Rightarrow> buffer_pool \<times> nat list" where
  "free_segments [] pool = (pool, [])"
| "free_segments ((ptr, pooled) # ss) pool =
     (let (pool, f1) = free_segment ptr pooled pool; (pool, f2) = free_segments ss pool in (pool, f1 @ f2))"

definition more_list :: "builder \<Rightarrow> (nat \<times> bool) list" where
  "more_list b = (case sb_more_segments b of None \<Rightarrow> [] | Some (segments, flags) \<Rightarrow> zip segments flags)"

definition builder_destroy :: "builder \<Rightarrow> buffer_pool \<Rightarrow> buffer_pool \<times> nat list" where
  "builder_destroy b pool =
     (if \<not> sb_invalidated b \<and> sb_returned_first_segment b then
        (let (pool, f1) = (if sb_own_first_segment b
                           then free_segment (sb_first_segment b) (sb_is_first_segment_pooled b) pool
                           else (pool, []));
             (pool, f2) = free_segments (more_list b) pool
         in (pool, f1 @ f2))
      else (pool, []))"

section \<open>Every segment is given back once\<close>

text \<open>The segments a builder has to free, in the order of the destructor.\<close>

definition owned_segments :: "builder \<Rightarrow> (nat \<times> bool) list" where
  "owned_segments b =
     (if sb_returned_first_segment b
      then (sb_first_segment b, sb_is_first_segment_pooled b) # more_list b else [])"

definition builder_ok :: "builder \<Rightarrow> buffer_pool \<Rightarrow> nat set \<Rightarrow> bool" where
  "builder_ok b p out \<longleftrightarrow>
     sb_own_first_segment b \<and> \<not> sb_invalidated b \<and>
     (case sb_more_segments b of None \<Rightarrow> True | Some (s, f) \<Rightarrow> length s = length f) \<and>
     (\<not> sb_returned_first_segment b \<longrightarrow> sb_more_segments b = None) \<and>
     distinct (map fst (owned_segments b)) \<and> set (map fst (owned_segments b)) \<inter> out = {} \<and>
     pool_inv p (out \<union> (set (map fst (owned_segments b)) \<inter> pool_region p)) \<and>
     (\<forall>(ptr, pooled) \<in> set (owned_segments b). \<not> pooled \<longrightarrow> ptr \<notin> pool_region p)"

lemma builder_destroy_owned:
  "sb_own_first_segment b \<Longrightarrow> \<not> sb_invalidated b \<Longrightarrow>
    builder_destroy b p = free_segments (owned_segments b) p"
  by (auto simp: builder_destroy_def owned_segments_def)

lemma bp_free_outside: "ptr \<notin> pool_region p \<Longrightarrow> bp_free ptr p = (p, Some ptr)"
  by (auto simp: bp_free_def pool_region_def)

lemma free_segments_inv:
  assumes "pool_inv p (out \<union> (set (map fst ss) \<inter> pool_region p))"
    and "distinct (map fst ss)" and "set (map fst ss) \<inter> out = {}"
    and "\<forall>(ptr, pooled) \<in> set ss. \<not> pooled \<longrightarrow> ptr \<notin> pool_region p"
  shows "\<exists>p'. free_segments ss p = (p', filter (\<lambda>q. q \<notin> pool_region p) (map fst ss)) \<and>
    pool_inv p' out \<and> pool_region p' = pool_region p"
  using assms
proof (induction ss arbitrary: p)
  case (Cons s ss)
  obtain ptr pooled where s: "s = (ptr, pooled)" by fastforce
  show ?case
  proof (cases "ptr \<in> pool_region p")
    case True
    then have "ptr \<in> out \<union> (set (map fst (s # ss)) \<inter> pool_region p)" by (simp add: s)
    then obtain p1 where p1: "bp_free ptr p = (p1, None)"
      "pool_inv p1 (out \<union> (set (map fst (s # ss)) \<inter> pool_region p) - {ptr})"
      using bp_free_inv [OF Cons.prems(1)] by blast
    have r: "pool_region p1 = pool_region p" using pool_region_free [of ptr p] p1(1) by simp
    have "out \<union> (set (map fst (s # ss)) \<inter> pool_region p) - {ptr} = out \<union> (set (map fst ss) \<inter> pool_region p1)"
      using Cons.prems(2,3) by (auto simp: s r)
    moreover have pooled using Cons.prems(4) True by (auto simp: s)
    ultimately show ?thesis
      using Cons.IH [of p1] Cons.prems p1 r True by (auto simp: s free_segment_def)
  next
    case False
    then have "free_segment ptr pooled p = (p, [ptr])"
      by (simp add: free_segment_def bp_free_outside)
    with Cons.IH [of p] Cons.prems False show ?thesis by (auto simp: s)
  qed
qed simp

text \<open>The memory part of \<open>allocateSegment\<close>: a fresh, cleared block of \<open>n\<close> bytes.\<close>

definition get_block :: "nat \<Rightarrow> nat \<Rightarrow> nat \<Rightarrow> memory \<Rightarrow> memory \<times> nat" where
  "get_block os_malloc os_calloc n pm =
     (let (pm, ptr) = (if n \<le> bp_bufferSize (fst pm) then bp_calloc os_malloc pm else (pm, 0))
      in if ptr = 0
         then ((fst pm, if os_calloc = 0 then snd pm else clear_memory os_calloc n (snd pm)), os_calloc)
         else (pm, ptr))"

lemma allocateSegment_own:
  assumes "sb_own_first_segment b"
  shows "allocateSegment om oc minimumSize b pm =
    (let size = max minimumSize (sb_next_size b);
         usePool = (unat size * WORD_SIZE \<le> bp_bufferSize (fst pm));
         (pm, ptr) = get_block om oc (unat size * WORD_SIZE) pm
     in if ptr = 0 then Inl (Runtime_Error ''calloc failed'')
        else Inr ((ptr, size),
          (if \<not> sb_returned_first_segment b
           then b\<lparr>sb_first_segment := ptr, sb_returned_first_segment := True,
                  sb_is_first_segment_pooled := usePool\<rparr>
           else b\<lparr>sb_more_segments := push_segment ptr usePool (sb_more_segments b)\<rparr>), pm))"
  using assms by (simp add: allocateSegment_def get_block_def Let_def case_prod_beta)

lemma get_block_ok:
  assumes "pool_inv p out" and "0 \<notin> pool_region p"
    and "om \<noteq> 0" "oc \<noteq> 0" "om \<notin> pool_region p" "oc \<notin> pool_region p"
    and "get_block om oc n (p, mem) = ((p', mem'), ptr)"
  shows "ptr \<noteq> 0 \<and> (ptr = om \<or> ptr = oc \<or> ptr \<in> pool_region p - out) \<and>
    pool_inv p' (out \<union> ({ptr} \<inter> pool_region p)) \<and> pool_region p' = pool_region p \<and>
    bp_bufferSize p' = bp_bufferSize p \<and>
    (\<not> n \<le> bp_bufferSize p \<longrightarrow> ptr \<notin> pool_region p) \<and> (\<forall>a. ptr \<le> a \<and> a < ptr + n \<longrightarrow> mem' a = 0)"
proof (cases "n \<le> bp_bufferSize p")
  case True
  obtain p1 q where m: "bp_malloc om p = (p1, q)" by fastforce
  have q: "q = om \<or> q \<in> pool_region p - out" and inv: "pool_inv p1 (out \<union> ({q} \<inter> pool_region p))"
    "pool_region p1 = pool_region p"
    using bpool.alloc_fresh [OF assms(1,5) m] bpool.alloc_ok [OF assms(1,5) m] by auto
  have size: "bp_bufferSize p1 = bp_bufferSize p" using m by (auto simp: bp_malloc_def split: if_splits)
  have "q \<noteq> 0" using q assms(2,3) by (metis DiffD1)
  then have "p' = p1" "ptr = q" "mem' = clear_memory q (bp_bufferSize p1) mem"
    using assms(7) True by (auto simp: get_block_def bp_calloc_def m clear_memory_def Let_def)
  with q inv size True \<open>q \<noteq> 0\<close> show ?thesis by (auto simp: clear_memory_def)
next
  case False
  then have "p' = p" "ptr = oc" "mem' = clear_memory oc n mem"
    using assms(4,7) by (auto simp: get_block_def)
  with assms show ?thesis by (auto simp: clear_memory_def)
qed

lemma more_list_push:
  "(case sb_more_segments b of None \<Rightarrow> True | Some (s, f) \<Rightarrow> length s = length f) \<Longrightarrow>
    more_list (b\<lparr>sb_more_segments := push_segment ptr pooled (sb_more_segments b)\<rparr>) = more_list b @ [(ptr, pooled)]"
  by (cases "sb_more_segments b") (auto simp: more_list_def push_segment_def)

lemma allocateSegment_ok:
  assumes ok: "builder_ok b p out" and nz: "0 \<notin> pool_region p"
    and os: "om \<noteq> 0" "oc \<noteq> 0" "om \<notin> pool_region p" "oc \<notin> pool_region p"
      "om \<notin> set (map fst (owned_segments b))" "oc \<notin> set (map fst (owned_segments b))"
  shows "\<exists>ptr size pooled b' p' mem'.
    allocateSegment om oc minimumSize b (p, mem) = Inr ((ptr, size), b', (p', mem')) \<and>
    minimumSize \<le> size \<and> (\<forall>a. ptr \<le> a \<and> a < ptr + unat size * WORD_SIZE \<longrightarrow> mem' a = 0) \<and>
    owned_segments b' = owned_segments b @ [(ptr, pooled)] \<and> builder_ok b' p' out \<and>
    pool_region p' = pool_region p \<and> (ptr = om \<or> ptr = oc \<or> ptr \<in> pool_region p)"
proof -
  let ?own = "set (map fst (owned_segments b))"
  let ?size = "max minimumSize (sb_next_size b)"
  let ?pooled = "unat ?size * WORD_SIZE \<le> bp_bufferSize p"
  obtain p' mem' ptr where g: "get_block om oc (unat ?size * WORD_SIZE) (p, mem) = ((p', mem'), ptr)"
    by (metis surj_pair)
  have inv: "pool_inv p (out \<union> (?own \<inter> pool_region p))" using ok by (simp add: builder_ok_def)
  note f = get_block_ok [OF inv nz os(1-4) g]
  have out: "out \<subseteq> pool_region p" using bpool.out_region [OF inv] by auto
  define b' where "b' = (if \<not> sb_returned_first_segment b
      then b\<lparr>sb_first_segment := ptr, sb_returned_first_segment := True, sb_is_first_segment_pooled := ?pooled\<rparr>
      else b\<lparr>sb_more_segments := push_segment ptr ?pooled (sb_more_segments b)\<rparr>)"
  have eq: "allocateSegment om oc minimumSize b (p, mem) = Inr ((ptr, ?size), b', (p', mem'))"
    using ok f by (simp add: allocateSegment_own builder_ok_def g b'_def Let_def)
  have owned: "owned_segments b' = owned_segments b @ [(ptr, ?pooled)]"
    using ok by (auto simp: owned_segments_def builder_ok_def b'_def more_list_push) (simp add: more_list_def)
  have "ptr \<notin> ?own" "ptr \<notin> out" using f os out by auto
  moreover have "out \<union> (?own \<inter> pool_region p) \<union> ({ptr} \<inter> pool_region p) =
      out \<union> (set (map fst (owned_segments b')) \<inter> pool_region p')" using f by (auto simp: owned)
  moreover have "sb_own_first_segment b'" "\<not> sb_invalidated b'"
    "case sb_more_segments b' of None \<Rightarrow> True | Some (s, f) \<Rightarrow> length s = length f"
    "\<not> sb_returned_first_segment b' \<longrightarrow> sb_more_segments b' = None"
    using ok by (auto simp: builder_ok_def b'_def push_segment_def split: option.splits)
  ultimately have "builder_ok b' p' out"
    using ok f unfolding builder_ok_def by (auto simp: owned)
  with eq f owned show ?thesis by fastforce
qed

fun allocate_all :: "(nat \<times> nat \<times> u32) list \<Rightarrow> builder \<Rightarrow> memory \<Rightarrow> ((nat \<times> u32) list \<times> builder \<times> memory) result" where
  "allocate_all [] b pm = Inr ([], b, pm)"
| "allocate_all ((om, oc, n) # rs) b pm =
     and_then (allocateSegment om oc n b pm) (\<lambda>(seg, b, pm).
     and_then (allocate_all rs b pm) (\<lambda>(segs, b, pm). Inr (seg # segs, b, pm)))"

text \<open>The operating system never returns an address that is in use.\<close>

fun fresh_addresses :: "nat set \<Rightarrow> (nat \<times> nat \<times> u32) list \<Rightarrow> bool" where
  "fresh_addresses used [] \<longleftrightarrow> True"
| "fresh_addresses used ((om, oc, n) # rs) \<longleftrightarrow>
     om \<noteq> 0 \<and> oc \<noteq> 0 \<and> om \<notin> used \<and> oc \<notin> used \<and> fresh_addresses (insert om (insert oc used)) rs"

lemma allocate_all_ok:
  assumes "builder_ok b p out" and "0 \<notin> pool_region p"
    and "fresh_addresses used rs" and "pool_region p \<union> set (map fst (owned_segments b)) \<subseteq> used"
  shows "\<exists>segs b' p' mem'. allocate_all rs b (p, mem) = Inr (segs, b', (p', mem')) \<and>
    map fst (owned_segments b') = map fst (owned_segments b) @ map fst segs \<and>
    list_all2 (\<lambda>(om, oc, n) (ptr, size). n \<le> size) rs segs \<and>
    builder_ok b' p' out \<and> pool_region p' = pool_region p"
  using assms
proof (induction rs arbitrary: b p mem used)
  case (Cons r rs)
  obtain om oc n where r: "r = (om, oc, n)" using prod_cases3 by blast
  have os: "om \<noteq> 0" "oc \<noteq> 0" "om \<notin> pool_region p" "oc \<notin> pool_region p"
    "om \<notin> set (map fst (owned_segments b))" "oc \<notin> set (map fst (owned_segments b))"
    using Cons.prems(3,4) by (auto simp: r)
  obtain ptr size pooled b1 p1 mem1 where a: "allocateSegment om oc n b (p, mem) = Inr ((ptr, size), b1, (p1, mem1))"
    "n \<le> size" "owned_segments b1 = owned_segments b @ [(ptr, pooled)]" "builder_ok b1 p1 out"
    "pool_region p1 = pool_region p" "ptr = om \<or> ptr = oc \<or> ptr \<in> pool_region p"
    using allocateSegment_ok [OF Cons.prems(1,2) os, of n mem] by blast
  have "pool_region p1 \<union> set (map fst (owned_segments b1)) \<subseteq> insert om (insert oc used)"
    using a Cons.prems(4) by auto
  with Cons.IH [OF a(4), of "insert om (insert oc used)" mem1] a Cons.prems(2,3)
  show ?case by (auto simp: r)
qed simp

lemma SmartCapnpBuilder_ok: "pool_inv p out \<Longrightarrow> builder_ok (SmartCapnpBuilder p) p out"
  by (simp add: builder_ok_def SmartCapnpBuilder_def owned_segments_def)



end
