(* ===== verification/Msg_Socket.thy ===== *)
theory Msg_Socket
  imports C_Strings
begin

text \<open>
  Multipart messages on a ZeroMQ socket: \<open>Socket::send\<close>, \<open>receive\<close> and \<open>onReceive\<close>
  (\<open>src/a17/dispatch/socket.{h,cpp}\<close>), \<open>Listener\<close> (\<open>listener.{h,cpp}\<close>) and \<open>ReplyServer\<close>
  (\<open>reply_server.{h,cpp}\<close>). A message is a list of bytes, a message vector a list of messages, a
  frame a message with its \<open>more\<close> flag. ZeroMQ itself is a parameter: the results of the sends of
  one call are a function of the position, and the frames that arrive are events. An application
  handler is described by what it does: return, throw, or, for a reply server, the replies it sends
  before it does one of the two.
\<close>

section \<open>Socket\<close>

type_synonym message = "u8 list"
type_synonym message_vector = "message list"
type_synonym frame = "message \<times> bool"

text \<open>The state of the receiving side; \<open>sk_pending\<close> counts the calls of \<open>async_receive\<close> not yet answered.\<close>

record socket =
  sk_received :: message_vector
  sk_pending :: nat
  sk_has_error_handler :: bool

datatype sock_out =
    Deliver message_vector        \<comment> \<open>call of the application's handler\<close>
  | Error_Handler nat
  | Sent frame
  | Async_Receive

text \<open>What a call of C++ code does: return or throw, with the state and outputs at that point.\<close>

datatype 's outcome = Returned 's "sock_out list" | Threw 's "sock_out list"

definition Socket :: socket where
  "Socket = \<lparr>sk_received = [], sk_pending = 0, sk_has_error_handler = False\<rparr>"

text \<open>
  \<open>res i\<close> is the error, if any, of the \<open>i\<close>-th send to ZeroMQ; a failed send counts no bytes.
  The result is the frames ZeroMQ took, the size returned and the error code.
\<close>

fun send_parts :: "(nat \<Rightarrow> nat option) \<Rightarrow> nat \<Rightarrow> message_vector \<Rightarrow> frame list \<times> nat \<times> nat option" where
  "send_parts res i [] = ([], 0, None)"
| "send_parts res i [m] =
     (case res i of None \<Rightarrow> ([(m, False)], length m, None) | Some e \<Rightarrow> ([], 0, Some e))"
| "send_parts res i (m # ms) =
     (case res i of
        None \<Rightarrow> (let (frames, size, ec) = send_parts res (Suc i) ms
                 in ((m, True) # frames, length m + size, ec))
      | Some e \<Rightarrow> ([], 0, Some e))"

definition Socket_send ::
  "(nat \<Rightarrow> nat option) \<Rightarrow> message_vector \<Rightarrow> frame list \<times> nat \<times> nat option" where
  "Socket_send res message_vector =
     (if message_vector = [] then send_parts res 0 [[]] else send_parts res 0 message_vector)"

definition Socket_receive :: "bool \<Rightarrow> socket \<Rightarrow> socket \<times> sock_out list" where
  "Socket_receive has_error_handler s =
     (s\<lparr>sk_has_error_handler := has_error_handler, sk_pending := Suc (sk_pending s)\<rparr>, [Async_Receive])"

text \<open>
  \<open>onReceive\<close> for one event of an outstanding \<open>async_receive\<close>, an error or a frame. The handler of
  complete messages is a parameter; it gets the message and the socket, which it may use. When it
  throws, \<open>received_message_.clear()\<close> is not reached.
\<close>

definition Socket_onReceive ::
  "(message_vector \<Rightarrow> socket \<Rightarrow> socket outcome) \<Rightarrow> nat + frame \<Rightarrow> socket \<Rightarrow> socket outcome" where
  "Socket_onReceive handler ev s =
     (let s = s\<lparr>sk_pending := sk_pending s - 1\<rparr> in
      case ev of
        Inl ec \<Rightarrow> Returned s (if sk_has_error_handler s then [Error_Handler ec] else [])
      | Inr (msg, has_more) \<Rightarrow>
          (let s = (if length msg > 0 then s\<lparr>sk_received := sk_received s @ [msg]\<rparr> else s) in
           if has_more then Returned (s\<lparr>sk_pending := Suc (sk_pending s)\<rparr>) [Async_Receive]
           else (case handler (sk_received s) s of
                   Threw s out \<Rightarrow> Threw s out
                 | Returned s out \<Rightarrow> Returned (s\<lparr>sk_received := []\<rparr>) out)))"

section \<open>Listener\<close>

text \<open>The wrapped handler is given by whether it throws on a message.\<close>

definition Listener_onMessage ::
  "(message_vector \<Rightarrow> bool) \<Rightarrow> bool \<Rightarrow> message_vector \<Rightarrow> socket \<Rightarrow> socket outcome" where
  "Listener_onMessage throws has_error_handler message s =
     (if throws message then Threw s [Deliver message]
      else (let (s, out) = Socket_receive has_error_handler s
            in Returned s (Deliver message # out)))"

definition Listener :: "bool \<Rightarrow> socket \<Rightarrow> socket \<times> sock_out list" where
  "Listener has_error_handler s = Socket_receive has_error_handler s"

text \<open>\<open>Listener::all\<close>: each handler with the same message, until one throws.\<close>

fun Listener_all :: "(message_vector \<Rightarrow> bool) list \<Rightarrow> message_vector \<Rightarrow> bool" where
  "Listener_all [] message = False"
| "Listener_all (h # hs) message = (if h message then True else Listener_all hs message)"

text \<open>
  A socket takes the next event only while a receive is outstanding. An exception of the handler
  leaves the event loop: the process catches it there, if at all, and runs the loop again.
\<close>

definition socket_step ::
  "(message_vector \<Rightarrow> socket \<Rightarrow> socket outcome) \<Rightarrow> (socket, nat + frame, sock_out) reaction" where
  "socket_step handler s ev =
     (if sk_pending s = 0 then (s, [])
      else (case Socket_onReceive handler ev s of Returned s out \<Rightarrow> (s, out) | Threw s out \<Rightarrow> (s, out)))"

section \<open>ReplyServer\<close>

text \<open>
  What the reply handler does when called: the replies it sends, by calling the reply sender
  it is given, and whether it throws afterwards.
\<close>

type_synonym reply_behaviour = "message_vector list \<times> bool"

definition sendReply :: "(nat \<Rightarrow> nat option) \<Rightarrow> bool \<Rightarrow> message_vector \<Rightarrow> socket \<Rightarrow> socket \<times> sock_out list" where
  "sendReply res has_error_handler reply s =
     (let (frames, size, ec) = Socket_send res reply; (s, out) = Socket_receive has_error_handler s
      in (s, map Sent frames @ out))"

fun send_replies ::
  "(nat \<Rightarrow> nat option) \<Rightarrow> bool \<Rightarrow> message_vector list \<Rightarrow> socket \<Rightarrow> socket \<times> sock_out list" where
  "send_replies res has_error_handler [] s = (s, [])"
| "send_replies res has_error_handler (r # rs) s =
     (let (s, o1) = sendReply res has_error_handler r s; (s, o2) = send_replies res has_error_handler rs s
      in (s, o1 @ o2))"

definition onRequest ::
  "(nat \<Rightarrow> nat option) \<Rightarrow> (message_vector \<Rightarrow> reply_behaviour) \<Rightarrow> bool \<Rightarrow> message_vector \<Rightarrow> socket \<Rightarrow>
    socket outcome" where
  "onRequest res reply_handler has_error_handler message s =
     (let (replies, throws) = reply_handler message;
          (s, o1) = send_replies res has_error_handler replies s
      in if throws then
           (let (frames, size, ec) = Socket_send res []; (s, o2) = Socket_receive has_error_handler s
            in Returned s (Deliver message # o1 @ map Sent frames @ o2))
         else Returned s (Deliver message # o1))"

definition ReplyServer :: "bool \<Rightarrow> socket \<times> sock_out list" where
  "ReplyServer has_error_handler = Socket_receive has_error_handler Socket"

section \<open>Changing handlers and moving\<close>

text \<open>
  A listener as an object: the handler it calls, given by a number, can be replaced. A reply server's
  \<open>setReplyHandler\<close> replaces \<open>reply_handler_\<close> in the same way.
\<close>

record listening =
  ls_socket :: socket
  ls_wrapped_handler :: "nat option"
  ls_has_error_handler :: bool

definition setMessageHandler :: "nat \<Rightarrow> listening \<Rightarrow> listening" where
  "setMessageHandler handler l = l\<lparr>ls_wrapped_handler := Some handler\<rparr>"

record replying =
  rs_socket :: socket
  rs_reply_handler :: nat
  rs_has_error_handler :: bool

definition setReplyHandler :: "nat \<Rightarrow> replying \<Rightarrow> replying" where
  "setReplyHandler handler r = r\<lparr>rs_reply_handler := handler\<rparr>"

text \<open>The messages handed to the application.\<close>

definition deliveries :: "sock_out list \<Rightarrow> message_vector list" where
  "deliveries out = concat (map (\<lambda>x. case x of Deliver m \<Rightarrow> [m] | _ \<Rightarrow> []) out)"

text \<open>
  The events of a listener: a new handler, or what the socket receives. \<open>throws h\<close> describes handler \<open>h\<close>; an empty
  handler throws \<open>bad_function_call\<close>. The outputs are the calls of handlers.
\<close>

definition listening_step ::
  "(nat \<Rightarrow> message_vector \<Rightarrow> bool) \<Rightarrow> (listening, nat + (nat + frame), nat option \<times> message_vector) reaction" where
  "listening_step throws l ev =
     (case ev of
        Inl handler \<Rightarrow> (setMessageHandler handler l, [])
      | Inr ev \<Rightarrow>
          (let throws' = (case ls_wrapped_handler l of None \<Rightarrow> (\<lambda>m. True) | Some h \<Rightarrow> throws h);
               (s, out) = socket_step (Listener_onMessage throws' (ls_has_error_handler l)) (ls_socket l) ev
           in (l\<lparr>ls_socket := s\<rparr>, map (\<lambda>m. (ls_wrapped_handler l, m)) (deliveries out))))"

text \<open>
  The move constructor of \<open>Socket\<close>: the new socket has the parts received so far and the handler; the error
  handler is not taken over, and an outstanding receive still completes with the handler bound to
  the old object. That of \<open>Listener\<close> takes over the handlers, but the socket keeps calling the old
  object, which has none any more: the pair is what was constructed and what the socket calls.
\<close>

definition Socket_move :: "socket \<Rightarrow> socket" where
  "Socket_move other = \<lparr>sk_received = sk_received other, sk_pending = 0, sk_has_error_handler = False\<rparr>"

definition Listener_move :: "listening \<Rightarrow> listening \<times> listening" where
  "Listener_move other = (other, other\<lparr>ls_wrapped_handler := None\<rparr>)"

section \<open>What a listener receives\<close>

text \<open>The frames of a message vector as its receiver sees them, when every send succeeds.\<close>

definition frames_of :: "message_vector \<Rightarrow> frame list" where
  "frames_of ms = (let ms = (if ms = [] then [[]] else ms)
     in map (\<lambda>m. (m, True)) (butlast ms) @ [(last ms, False)])"

lemma send_parts_ok:
  "(\<And>j. j < i + length ms \<Longrightarrow> res j = None) \<Longrightarrow> ms \<noteq> [] \<Longrightarrow>
   send_parts res i ms = (map (\<lambda>m. (m, True)) (butlast ms) @ [(last ms, False)], sum_list (map length ms), None)"
  by (induction res i ms rule: send_parts.induct) auto

lemma Socket_send_ok:
  assumes "\<And>j. res j = None"
  shows "Socket_send res ms = (frames_of ms, sum_list (map length ms), None)"
  using send_parts_ok [of 0 "[[]]" res] send_parts_ok [of 0 ms res] assms
  by (simp add: Socket_send_def frames_of_def)

definition sent_frames :: "sock_out list \<Rightarrow> frame list" where
  "sent_frames out = concat (map (\<lambda>x. case x of Sent f \<Rightarrow> [f] | _ \<Rightarrow> []) out)"

lemma deliveries_simps [simp]:
  "deliveries [] = []" "deliveries (Deliver m # out) = m # deliveries out"
  "deliveries (Error_Handler e # out) = deliveries out" "deliveries (Sent f # out) = deliveries out"
  "deliveries (Async_Receive # out) = deliveries out"
  "deliveries (out @ out') = deliveries out @ deliveries out'"
  "deliveries (map Sent fs) = []"
  by (simp_all add: deliveries_def comp_def)

lemma sent_frames_simps [simp]:
  "sent_frames [] = []" "sent_frames (Deliver m # out) = sent_frames out"
  "sent_frames (Error_Handler e # out) = sent_frames out" "sent_frames (Sent f # out) = f # sent_frames out"
  "sent_frames (Async_Receive # out) = sent_frames out"
  "sent_frames (out @ out') = sent_frames out @ sent_frames out'"
  "sent_frames (map Sent fs) = fs"
  by (simp_all add: sent_frames_def comp_def)

lemma run_append_simp:
  "run f s (es @ es') = (fst (run f (fst (run f s es)) es'), snd (run f s es) @ snd (run f (fst (run f s es)) es'))"
  by (simp add: run_append case_prod_beta)

definition armed :: "bool \<Rightarrow> socket" where
  "armed e = \<lparr>sk_received = [], sk_pending = 1, sk_has_error_handler = e\<rparr>"

definition received_so_far :: "bool \<Rightarrow> message_vector \<Rightarrow> socket" where
  "received_so_far e acc = (armed e)\<lparr>sk_received := acc\<rparr>"

lemma run_more_frames:
  "run (socket_step handler) (received_so_far e acc) (map (\<lambda>m. Inr (m, True)) ms)
     = (received_so_far e (acc @ filter (\<lambda>m. m \<noteq> []) ms), replicate (length ms) Async_Receive)"
proof (induction ms arbitrary: acc)
  case (Cons m ms)
  have "socket_step handler (received_so_far e acc) (Inr (m, True))
      = (received_so_far e (acc @ filter (\<lambda>m. m \<noteq> []) [m]), [Async_Receive])"
    by (simp add: socket_step_def Socket_onReceive_def received_so_far_def armed_def)
  with Cons.IH show ?case by simp
qed (simp add: received_so_far_def)

text \<open>
  The contract of a handler that keeps its socket alive: for the messages it is meant for it returns, has
  started exactly one receive, and has sent the frames \<open>answer m\<close>.
\<close>

locale message_handler =
  fixes handler :: "message_vector \<Rightarrow> socket \<Rightarrow> socket outcome"
    and has_error_handler :: bool
    and answer :: "message_vector \<Rightarrow> frame list"
    and meant :: "message_vector \<Rightarrow> bool"
  assumes handles: "meant m \<Longrightarrow> \<exists>out. handler m s =
      Returned (s\<lparr>sk_pending := Suc (sk_pending s), sk_has_error_handler := has_error_handler\<rparr>) out \<and>
      deliveries out = [m] \<and> sent_frames out = answer m"
begin

lemma last_frame:
  assumes "meant (acc @ filter (\<lambda>m. m \<noteq> []) [m])"
  shows "\<exists>out. socket_step handler (received_so_far has_error_handler acc) (Inr (m, False))
      = (armed has_error_handler, out) \<and>
    deliveries out = [acc @ filter (\<lambda>m. m \<noteq> []) [m]] \<and>
    sent_frames out = answer (acc @ filter (\<lambda>m. m \<noteq> []) [m])"
proof -
  let ?m = "acc @ filter (\<lambda>m. m \<noteq> []) [m]"
  let ?s = "(received_so_far has_error_handler ?m)\<lparr>sk_pending := 0\<rparr>"
  obtain out where "handler ?m ?s =
      Returned (?s\<lparr>sk_pending := Suc (sk_pending ?s), sk_has_error_handler := has_error_handler\<rparr>) out"
    "deliveries out = [?m]" "sent_frames out = answer ?m" using handles [OF assms] by blast
  then show ?thesis
    by (cases "m = []")
      (simp_all add: socket_step_def Socket_onReceive_def received_so_far_def armed_def Let_def)
qed

lemma one_message:
  assumes "meant (filter (\<lambda>m. m \<noteq> []) ms)"
  shows "\<exists>out. run (socket_step handler) (armed has_error_handler) (map Inr (frames_of ms))
      = (armed has_error_handler, out) \<and>
    deliveries out = [filter (\<lambda>m. m \<noteq> []) ms] \<and>
    sent_frames out = answer (filter (\<lambda>m. m \<noteq> []) ms)"
proof -
  define ns where "ns = (if ms = [] then [[]] else ms)"
  have ns: "ns \<noteq> []" and f: "filter (\<lambda>m. m \<noteq> []) ns = filter (\<lambda>m. m \<noteq> []) ms"
    by (simp_all add: ns_def)
  have start: "received_so_far e [] = armed e" for e by (simp add: received_so_far_def armed_def)
  obtain out where out: "socket_step handler
      (received_so_far has_error_handler (filter (\<lambda>m. m \<noteq> []) (butlast ns))) (Inr (last ns, False))
      = (armed has_error_handler, out)"
    "deliveries out = [filter (\<lambda>m. m \<noteq> []) (butlast ns @ [last ns])]"
    "sent_frames out = answer (filter (\<lambda>m. m \<noteq> []) (butlast ns @ [last ns]))"
    using last_frame [of "filter (\<lambda>m. m \<noteq> []) (butlast ns)" "last ns"] assms ns
    unfolding f [symmetric] filter_append [symmetric] by fastforce
  have fr: "map Inr (frames_of ms) = map (\<lambda>m. Inr (m, True)) (butlast ns) @ [Inr (last ns, False)]"
    by (simp add: frames_of_def ns_def Let_def)
  have quiet: "deliveries (replicate n Async_Receive) = []" "sent_frames (replicate n Async_Receive) = []" for n
    by (induction n) simp_all
  show ?thesis
    using out ns run_more_frames [of handler has_error_handler "[]" "butlast ns"]
    by (simp add: fr run_append_simp start quiet f [symmetric])
qed

lemma message_sequence:
  assumes "\<And>ms. ms \<in> set mss \<Longrightarrow> meant (filter (\<lambda>m. m \<noteq> []) ms)"
  shows "\<exists>out. run (socket_step handler) (armed has_error_handler) (map Inr (concat (map frames_of mss)))
      = (armed has_error_handler, out) \<and>
    deliveries out = map (filter (\<lambda>m. m \<noteq> [])) mss \<and>
    sent_frames out = concat (map (\<lambda>ms. answer (filter (\<lambda>m. m \<noteq> []) ms)) mss)"
  using assms
proof (induction mss)
  case (Cons ms mss)
  then show ?case using one_message [of ms] by (auto simp: run_append_simp)
qed simp

end

interpretation listener: message_handler "Listener_onMessage (\<lambda>m. False) e" e "\<lambda>m. []" "\<lambda>m. True" for e
  by unfold_locales (simp add: Listener_onMessage_def Socket_receive_def)

interpretation replier: message_handler "onRequest (\<lambda>i. None) handler e" e
  "\<lambda>m. frames_of (if snd (handler m) then [] else hd (fst (handler m)))"
  "\<lambda>m. handler m = ([], True) \<or> (\<exists>r. handler m = ([r], False))" for handler e
  by unfold_locales
    (auto simp: onRequest_def sendReply_def Socket_send_ok Socket_receive_def)

section \<open>Properties\<close>

lemma stopped_run:
  "sk_pending s = 0 \<Longrightarrow> run (socket_step h) s evs = (s, [])"
  by (induction evs) (simp_all add: socket_step_def)

text \<open>
  C20: Messages cross a socket intact and in order: when a sender sends a sequence of message
  vectors and every send succeeds, a listener that has started to receive hands exactly these
  vectors to its handler, in order and one call each, less their empty parts, and is ready for the
  next one. The size \<open>send\<close> returns is the number of bytes of the message.
\<close>

theorem messages_cross_socket:
  assumes "\<And>i. res i = None"
  shows "case run (socket_step (Listener_onMessage (\<lambda>m. False) e)) (fst (Listener e Socket))
       (map Inr (concat (map (\<lambda>ms. fst (Socket_send res ms)) mss))) of (s, out) \<Rightarrow>
     s = fst (Listener e Socket) \<and>
     deliveries out = map (filter (\<lambda>m. m \<noteq> [])) mss \<and>
     ((\<forall>ms \<in> set mss. [] \<notin> set ms) \<longrightarrow> deliveries out = mss) \<and>
     (\<forall>ms \<in> set mss. snd (Socket_send res ms) = (sum_list (map length ms), None))"
proof -
  have start: "fst (Listener e Socket) = armed e"
    by (simp add: Listener_def Socket_receive_def Socket_def armed_def)
  have "map (filter (\<lambda>m. m \<noteq> [])) mss = mss" if "\<forall>ms \<in> set mss. [] \<notin> set ms"
    using that by (intro map_idI) (auto intro: filter_True)
  then show ?thesis
    using listener.message_sequence [of mss e] assms
    by (auto simp: start Socket_send_ok)
qed

theorem messages_cross_socket_witness:
  "deliveries (snd (run (socket_step (Listener_onMessage (\<lambda>m. False) True)) (fst (Listener True Socket))
     (map Inr (fst (Socket_send (\<lambda>i. None) [[1, 2], [3]])))))  = [[[1, 2], [3]]]"
  using messages_cross_socket [of "\<lambda>i. None" True "[[[1, 2], [3]]]"]
  by (auto split: prod.splits)

text \<open>
  C21: A reply server answers every request exactly once and in order, when its handler either
  replies once or throws before it has replied: a thrown exception is answered with one empty
  frame. After each answer exactly one receive is outstanding, so the server keeps serving.
\<close>

theorem every_request_answered_once:
  assumes "\<And>m. reply_handler m = (if fails m then ([], True) else ([reply m], False))"
    and "\<And>i. res i = None"
  shows "case run (socket_step (onRequest res reply_handler e)) (fst (ReplyServer e))
       (map Inr (concat (map (\<lambda>ms. fst (Socket_send res ms)) requests))) of (s, out) \<Rightarrow>
     s = fst (ReplyServer e) \<and>
     deliveries out = map (filter (\<lambda>m. m \<noteq> [])) requests \<and>
     sent_frames out = concat (map (\<lambda>m. if fails m then [([], False)] else fst (Socket_send res (reply m)))
       (deliveries out))"
proof -
  have start: "fst (ReplyServer e) = armed e"
    by (simp add: ReplyServer_def Socket_receive_def Socket_def armed_def)
  have "res = (\<lambda>i. None)" using assms by auto
  moreover have "frames_of [] = [([], False)]" by (simp add: frames_of_def)
  ultimately show ?thesis
    using replier.message_sequence [of requests reply_handler e] assms(1)
    by (auto simp: start Socket_send_ok comp_def intro!: arg_cong [of _ _ concat] split: if_splits)
qed

theorem every_request_answered_once_witness:
  "sent_frames (snd (run (socket_step (onRequest (\<lambda>i. None) (\<lambda>m. if m = [] then ([], True) else ([m], False)) True))
     (fst (ReplyServer True)) (map Inr (fst (Socket_send (\<lambda>i. None) [[7]]) @ fst (Socket_send (\<lambda>i. None) [])))))
   = [([7], False), ([], False)]"
  using every_request_answered_once
    [of "\<lambda>m. if m = [] then ([], True) else ([m], False)" "\<lambda>m. m = []" "\<lambda>m. m" "\<lambda>i. None" True "[[[7]], []]"]
  by (auto simp: Socket_send_def split: prod.splits)

text \<open>A socket that was moved receives nothing any more.\<close>

lemma moved_socket_silent: "run (socket_step h) (Socket_move s) evs = (Socket_move s, [])"
  by (rule stopped_run) (simp add: Socket_move_def)

text \<open>A message goes to the handler set when its last part arrives, also when the other parts came before.\<close>

lemma handler_replaced:
  assumes "\<And>m. \<not> throws h m"
  shows "\<exists>l. run (listening_step throws) \<lparr>ls_socket = armed e, ls_wrapped_handler = Some g, ls_has_error_handler = e\<rparr>
      (map (\<lambda>m. Inr (Inr (m, True))) ms @ [Inl h, Inr (Inr (m, False))])
    = (l, [(Some h, filter (\<lambda>m. m \<noteq> []) (ms @ [m]))]) \<and> ls_socket l = armed e"
proof -
  have more: "run (listening_step throws) \<lparr>ls_socket = received_so_far e acc, ls_wrapped_handler = Some g, ls_has_error_handler = e\<rparr>
      (map (\<lambda>m. Inr (Inr (m, True))) ms)
    = (\<lparr>ls_socket = received_so_far e (acc @ filter (\<lambda>m. m \<noteq> []) ms), ls_wrapped_handler = Some g, ls_has_error_handler = e\<rparr>, [])" for acc
    by (induction ms arbitrary: acc)
      (simp_all add: listening_step_def socket_step_def Socket_onReceive_def received_so_far_def armed_def)
  have "received_so_far e [] = armed e" by (simp add: received_so_far_def armed_def)
  with more [of "[]"] assms show ?thesis
    by (simp add: run_append_simp)
      (simp add: listening_step_def setMessageHandler_def socket_step_def Socket_onReceive_def Listener_onMessage_def
        Socket_receive_def received_so_far_def armed_def Let_def)
qed

text \<open>A moved listener: the next message is thrown away with an exception and nothing is received after it.\<close>

lemma moved_listener_stops:
  assumes "ls_socket l = armed e"
  shows "sk_pending (ls_socket (fst (listening_step throws (snd (Listener_move l)) (Inr (Inr (m, False)))))) = 0"
  using assms by (simp add: listening_step_def Listener_move_def socket_step_def Socket_onReceive_def
      Listener_onMessage_def armed_def Let_def)

text \<open>
  What a misbehaving handler does to a reply server. A handler that replies and then throws
  makes the server send two answers to one request and leaves two receives outstanding; a handler
  that returns without replying leaves none, and the server takes no further request.
\<close>

theorem reply_server_misuse:
  "(\<exists>out. onRequest (\<lambda>i. None) (\<lambda>m. ([r], True)) e m s = Returned (s\<lparr>sk_pending := sk_pending s + 2, sk_has_error_handler := e\<rparr>) out \<and>
      sent_frames out = frames_of r @ [([], False)]) \<and>
   (\<exists>out. onRequest (\<lambda>i. None) (\<lambda>m. ([], False)) e m s = Returned s out \<and> sent_frames out = [] \<and>
      (sk_pending s = 0 \<longrightarrow>
        run (socket_step (onRequest (\<lambda>i. None) (\<lambda>m. ([], False)) e)) s evs = (s, [])))"
  by (simp add: onRequest_def sendReply_def Socket_send_ok Socket_receive_def stopped_run)
    (simp add: frames_of_def)

theorem reply_server_misuse_witness:
  "run (socket_step (onRequest (\<lambda>i. None) (\<lambda>m. ([], False)) True)) Socket [Inr ([1], False)] = (Socket, [])"
  using reply_server_misuse [of "[]" True "[]" Socket "[Inr ([1], False)]"]
  by (auto simp: Socket_def)



end
