(* ===== verification/Smart_Messages.thy ===== *)
theory Smart_Messages
  imports Capnp_Builder Msg_Socket
begin

text \<open>
  Smart messages: what \<open>SmartCapnpBuilder::build\<close> writes, \<open>getSmartMessage\<close> puts together and
  \<open>SmartCapnpReader\<close> and \<open>SmartMessageReader\<close> take apart (\<open>src/a17/dispatch/smart_capnp_builder.*\<close>,
  \<open>smart_capnp_reader.*\<close>, \<open>smart_message_reader.*\<close>, \<open>message_helpers.*\<close>), and the message handlers
  \<open>Node\<close> installs around them (\<open>node.h\<close>). A segment is a list of 64-bit words. capnproto itself
  is a parameter: the size computed by \<open>computeSerializedSizeInWords\<close> and the parser behind
  \<open>getRoot\<close>. \<open>framed\<close> and \<open>unframe\<close> state capnproto's documented stream format.
\<close>

section \<open>Bytes\<close>

text \<open>Little-endian encodings of \<open>k\<close> bytes.\<close>

fun le_bytes :: "nat \<Rightarrow> nat \<Rightarrow> u8 list" where
  "le_bytes 0 n = []"
| "le_bytes (Suc k) n = of_nat n # le_bytes k (n div 256)"

fun le_value :: "u8 list \<Rightarrow> nat" where
  "le_value [] = 0"
| "le_value (b # bs) = unat b + 256 * le_value bs"

lemma length_le_bytes [simp]: "length (le_bytes k n) = k"
  by (induction k arbitrary: n) auto

lemma le_value_bytes: "le_value (le_bytes k n) = n mod 256 ^ k"
proof (induction k arbitrary: n)
  case (Suc k)
  have "unat (of_nat n :: u8) = n mod 256" by (simp add: unat_of_nat)
  with Suc show ?case using mod_mult2_eq [of n 256 "256 ^ k"] by simp
qed simp

definition bytes_of_words :: "u64 list \<Rightarrow> u8 list" where
  "bytes_of_words ws = concat (map (\<lambda>w. le_bytes WORD_SIZE (unat w)) ws)"

fun words_of_bytes :: "u8 list \<Rightarrow> u64 list" where
  "words_of_bytes (a # b # c # d # e # f # g # h # bs) =
     of_nat (le_value [a, b, c, d, e, f, g, h]) # words_of_bytes bs"
| "words_of_bytes _ = []"

lemma length_bytes_of_words [simp]: "length (bytes_of_words ws) = WORD_SIZE * length ws"
  by (simp add: bytes_of_words_def length_concat comp_def sum_list_triv)

lemma words_of_bytes_take:
  "8 \<le> length bs \<Longrightarrow> words_of_bytes bs = of_nat (le_value (take 8 bs)) # words_of_bytes (drop 8 bs)"
  by (induction bs rule: words_of_bytes.induct) auto

lemma words_of_bytes_of_words: "words_of_bytes (bytes_of_words ws @ rest) = ws @ words_of_bytes rest"
proof (induction ws)
  case (Cons w ws)
  have "unat w mod 256 ^ 8 = unat w" using unsigned_less [of w, where 'a = nat] by simp
  then have "of_nat (le_value (le_bytes 8 (unat w))) = w" by (simp only: le_value_bytes of_nat_unat ucast_id)
  with Cons show ?case
    by (subst words_of_bytes_take) (simp_all add: bytes_of_words_def WORD_SIZE_def)
qed (simp add: bytes_of_words_def)

section \<open>Building the message\<close>

definition write_at :: "nat \<Rightarrow> u8 list \<Rightarrow> u8 list \<Rightarrow> u8 list result" where
  "write_at pos bs buf =
     (if pos + length bs \<le> length buf then Inr (take pos buf @ bs @ drop (pos + length bs) buf)
      else Inl Buffer_Overflow)"

definition write_table :: "nat \<Rightarrow> u32 \<Rightarrow> u8 list \<Rightarrow> u8 list result" where
  "write_table i v buf = write_at (4 * i) (le_bytes 4 (unat v)) buf"

fun write_sizes :: "nat \<Rightarrow> u64 list list \<Rightarrow> u8 list \<Rightarrow> u8 list result" where
  "write_sizes i [] buf = Inr buf"
| "write_sizes i (s # ss) buf =
     and_then (write_table (i + 1) (of_nat (length s)) buf) (write_sizes (i + 1) ss)"

fun write_segments :: "nat \<Rightarrow> u64 list list \<Rightarrow> u8 list \<Rightarrow> u8 list result" where
  "write_segments dst [] buf = Inr buf"
| "write_segments dst (s # ss) buf =
     and_then (write_at (dst * WORD_SIZE) (bytes_of_words s) buf) (write_segments (dst + length s) ss)"

definition buildSmartMessage :: "u64 list list \<Rightarrow> u8 list \<Rightarrow> u8 list result" where
  "buildSmartMessage segments message =
     (let n = length segments in
      and_then (write_table 0 (of_nat n - 1) message) (\<lambda>message.
      and_then (write_sizes 0 segments message) (\<lambda>message.
      and_then (if n mod 2 = 0 then write_table (n + 1) 0 message else Inr message) (\<lambda>message.
      write_segments (n div 2 + 1) segments message))))"

text \<open>
  \<open>build\<close>: the message lives in a buffer of the pool if it fits, otherwise in memory of ZeroMQ's
  own. \<open>sizeInWords\<close> is capnproto's \<open>computeSerializedSizeInWords\<close>, \<open>mem\<close> what the memory held
  before. The result tells which buffer ZeroMQ will hand to \<open>zmqFree\<close>.
\<close>

definition build ::
  "(u64 list list \<Rightarrow> nat) \<Rightarrow> nat \<Rightarrow> (nat \<Rightarrow> u8) \<Rightarrow> u64 list list \<Rightarrow> buffer_pool \<Rightarrow>
    (message \<times> nat option \<times> buffer_pool) result" where
  "build sizeInWords os_malloc mem segments pool =
     (let messageSize = sizeInWords segments * WORD_SIZE;
          (pool, buf) = (if messageSize \<le> bp_bufferSize pool then bp_malloc os_malloc pool else (pool, 0))
      in and_then (buildSmartMessage segments (map (\<lambda>i. mem (buf + i)) [0..<messageSize]))
           (\<lambda>message. Inr (message, if buf \<noteq> 0 then Some buf else None, pool)))"

definition getSmartMessage :: "u64 \<Rightarrow> message \<Rightarrow> message_vector" where
  "getSmartMessage msg_id part = [le_bytes 8 (unat msg_id), part]"

section \<open>Reading it\<close>

definition part_at :: "message_vector \<Rightarrow> nat \<Rightarrow> message result" where
  "part_at ms i = (if i < length ms then Inr (ms ! i) else Inl Out_Of_Bounds)"

definition idFromSmartMessage :: "message_vector \<Rightarrow> u64 result" where
  "idFromSmartMessage ms =
     and_then (part_at ms 0) (\<lambda>m.
       if 8 \<le> length m then Inr (of_nat (le_value (take 8 m))) else Inl Out_Of_Bounds)"

definition CapnpBufferFromAzmqMessage :: "message \<Rightarrow> u64 list" where
  "CapnpBufferFromAzmqMessage m = words_of_bytes (take (length m div WORD_SIZE * WORD_SIZE) m)"

record capnp_reader =
  cr_id :: u64
  cr_buffer :: "u64 list"

definition SmartCapnpReader :: "message_vector \<Rightarrow> capnp_reader result" where
  "SmartCapnpReader ms =
     and_then (idFromSmartMessage ms) (\<lambda>msg_id.
     and_then (part_at ms 1) (\<lambda>m. Inr \<lparr>cr_id = msg_id, cr_buffer = CapnpBufferFromAzmqMessage m\<rparr>))"

definition SmartCapnpReader_part :: "message \<Rightarrow> u64 \<Rightarrow> capnp_reader" where
  "SmartCapnpReader_part m msg_id = \<lparr>cr_id = msg_id, cr_buffer = CapnpBufferFromAzmqMessage m\<rparr>"

text \<open>\<open>parse\<close> is what \<open>FlatArrayMessageReader::getRoot\<close> makes of the words.\<close>

definition getRoot :: "(u64 list \<Rightarrow> 'r result) \<Rightarrow> u64 \<Rightarrow> capnp_reader \<Rightarrow> 'r result" where
  "getRoot parse requestedId r =
     (if cr_id r \<noteq> requestedId
      then Inl (Runtime_Error (''Type in getRoot<> ('' @ to_string (unat requestedId) @
             '') doesn''  @ [CHR 0x27] @ ''t match id in message ('' @ to_string (unat (cr_id r)) @ '')''))
      else parse (cr_buffer r))"

record message_reader =
  mr_message_vector :: message_vector
  mr_reader :: capnp_reader
  mr_id :: u64

definition SmartMessageReader :: "message_vector \<Rightarrow> message_reader result" where
  "SmartMessageReader ms =
     and_then (SmartCapnpReader ms) (\<lambda>r.
     and_then (idFromSmartMessage ms) (\<lambda>msg_id.
       Inr \<lparr>mr_message_vector = ms, mr_reader = r, mr_id = msg_id\<rparr>))"

definition mr_size :: "message_reader \<Rightarrow> nat" where
  "mr_size r = length (mr_message_vector r) - 1"

definition mr_getRoot :: "(u64 list \<Rightarrow> 'r result) \<Rightarrow> u64 \<Rightarrow> message_reader \<Rightarrow> 'r result" where
  "mr_getRoot parse requestedId r =
     (if mr_id r \<noteq> requestedId
      then Inl (Runtime_Error (''Requested message type in SmartMessageReader.getRoot<> ('' @
             to_string (unat requestedId) @ '') doesn'' @ [CHR 0x27] @ ''t match received message type ('' @
             to_string (unat (mr_id r)) @ '')''))
      else getRoot parse requestedId (mr_reader r))"

definition bufferAt :: "nat \<Rightarrow> message_reader \<Rightarrow> (message \<times> nat) result" where
  "bufferAt pos r = and_then (part_at (mr_message_vector r) (pos + 1)) (\<lambda>m. Inr (m, length m))"

section \<open>The handlers a node installs\<close>

text \<open>
  A C++ exception is caught; undefined behaviour is not. What happens to a message: the
  application's handler gets the root, the error handler gets the exception, or the behaviour is
  undefined.
\<close>

definition thrown :: "fault \<Rightarrow> bool" where
  "thrown e \<longleftrightarrow> (case e of Runtime_Error s \<Rightarrow> True | Invalid_Argument \<Rightarrow> True | Out_Of_Range \<Rightarrow> True | _ \<Rightarrow> False)"

datatype 'r handled = Handled 'r | Reported fault | Undefined fault

definition capnp_root :: "(u64 list \<Rightarrow> 'r result) \<Rightarrow> u64 \<Rightarrow> message_vector \<Rightarrow> 'r result" where
  "capnp_root parse requestedId ms = and_then (SmartCapnpReader ms) (getRoot parse requestedId)"

text \<open>The handler of \<open>registerCapnpSubscriber\<close>; \<open>throws\<close> is the exception of the application's handler, if any.\<close>

definition subscriber_handler ::
  "(u64 list \<Rightarrow> 'r result) \<Rightarrow> u64 \<Rightarrow> ('r \<Rightarrow> fault option) \<Rightarrow> message_vector \<Rightarrow> 'r handled list" where
  "subscriber_handler parse requestedId throws ms =
     (case capnp_root parse requestedId ms of
        Inl e \<Rightarrow> if thrown e then [Reported e] else [Undefined e]
      | Inr root \<Rightarrow> Handled root # (case throws root of None \<Rightarrow> [] | Some e \<Rightarrow> [Reported e]))"

text \<open>
  The handler of \<open>registerCapnpReplyServerAsync\<close>: what the application's handlers reply, and
  whether the whole throws.
\<close>

definition request_handler_of ::
  "(u64 list \<Rightarrow> 'r result) \<Rightarrow> u64 \<Rightarrow> ('r \<Rightarrow> reply_behaviour) \<Rightarrow> (fault option \<Rightarrow> reply_behaviour) \<Rightarrow>
    message_vector \<Rightarrow> reply_behaviour result" where
  "request_handler_of parse requestedId request_handler error_handler ms =
     (case capnp_root parse requestedId ms of
        Inl e \<Rightarrow> if thrown e then Inr (error_handler (Some e)) else Inl e
      | Inr root \<Rightarrow>
          (let (replies, throws) = request_handler root
           in if throws then Inr (replies @ fst (error_handler None), snd (error_handler None))
              else Inr (replies, False)))"

section \<open>What is written is what is read\<close>

text \<open>capnproto's stream format: a table of sizes, padded to a word, then the segments.\<close>

definition framed :: "u64 list list \<Rightarrow> u8 list" where
  "framed segments =
     le_bytes 4 (length segments - 1) @ concat (map (\<lambda>s. le_bytes 4 (length s)) segments)
     @ (if length segments mod 2 = 0 then le_bytes 4 0 else []) @ concat (map bytes_of_words segments)"

definition framed_words :: "u64 list list \<Rightarrow> nat" where
  "framed_words segments = length segments div 2 + 1 + sum_list (map length segments)"

fun cut :: "nat list \<Rightarrow> 'a list \<Rightarrow> 'a list list" where
  "cut [] xs = []"
| "cut (n # ns) xs = take n xs # cut ns (drop n xs)"

definition unframe :: "u8 list \<Rightarrow> u64 list list" where
  "unframe bs =
     (let n = le_value (take 4 bs) + 1;
          sizes = map (\<lambda>i. le_value (take 4 (drop (4 * i) bs))) [1..<n + 1]
      in cut sizes (words_of_bytes (drop (8 * (n div 2 + 1)) bs)))"

lemma write_at_front:
  assumes "length bs \<le> length rest"
  shows "write_at (length front) bs (front @ rest) = Inr ((front @ bs) @ drop (length bs) rest)"
  using assms by (simp add: write_at_def)

lemma write_sizes_front:
  assumes "length front = 4 * (i + 1)" and "4 * length ss \<le> length rest"
    and "\<forall>s \<in> set ss. length s < 2 ^ 32"
  shows "write_sizes i ss (front @ rest) =
    Inr ((front @ concat (map (\<lambda>s. le_bytes 4 (length s)) ss)) @ drop (4 * length ss) rest)"
  using assms
proof (induction ss arbitrary: i front rest)
  case (Cons s ss)
  have "unat (of_nat (length s) :: u32) = length s" using Cons.prems(3) by (simp add: unat_of_nat)
  then have "write_table (i + 1) (of_nat (length s)) (front @ rest) =
      Inr ((front @ le_bytes 4 (length s)) @ drop 4 rest)"
    using write_at_front [of "le_bytes 4 (length s)" rest front] Cons.prems
    by (simp add: write_table_def add.commute)
  then show ?case
    using Cons.IH [of "front @ le_bytes 4 (length s)" "i + 1" "drop 4 rest"] Cons.prems
    by (simp add: add.commute)
qed simp

lemma write_segments_front:
  assumes "length front = dst * WORD_SIZE" and "length rest = WORD_SIZE * sum_list (map length ss)"
  shows "write_segments dst ss (front @ rest) = Inr (front @ concat (map bytes_of_words ss))"
  using assms
proof (induction ss arbitrary: dst front rest)
  case (Cons s ss)
  have "write_at (dst * WORD_SIZE) (bytes_of_words s) (front @ rest) =
      Inr ((front @ bytes_of_words s) @ drop (WORD_SIZE * length s) rest)"
    using write_at_front [of "bytes_of_words s" rest front] Cons.prems by (simp add: add_mult_distrib2)
  then show ?case
    using Cons.IH [of "front @ bytes_of_words s" "dst + length s" "drop (WORD_SIZE * length s) rest"] Cons.prems
    by (simp add: add_mult_distrib add_mult_distrib2 mult.commute)
qed simp

lemma table_words: "4 * n + (if n mod 2 = 0 then 8 else 4) = 8 * (n div 2 + 1)" for n :: nat
  by presburger

lemma length_sizes: "length (concat (map (\<lambda>s. le_bytes 4 (length s)) segments)) = 4 * length segments"
  by (induction segments) auto

lemma length_framed: "segments \<noteq> [] \<Longrightarrow> length (framed segments) = framed_words segments * WORD_SIZE"
proof -
  have "length (concat (map bytes_of_words segments)) = 8 * sum_list (map length segments)" for segments
    by (induction segments) (auto simp: WORD_SIZE_def)
  then show ?thesis
    using table_words [of "length segments"]
    by (auto simp: framed_def framed_words_def WORD_SIZE_def add_mult_distrib2 length_sizes)
qed

lemma buildSmartMessage_framed:
  assumes "segments \<noteq> []" and "length segments < 2 ^ 32" and "\<forall>s \<in> set segments. length s < 2 ^ 32"
    and "length message = framed_words segments * WORD_SIZE"
  shows "buildSmartMessage segments message = Inr (framed segments)"
proof -
  let ?n = "length segments"
  let ?count = "le_bytes 4 (?n - 1)" and ?sizes = "concat (map (\<lambda>s. le_bytes 4 (length s)) segments)"
    and ?pad = "if ?n mod 2 = 0 then le_bytes 4 0 else [] :: u8 list"
  have n1: "unat (of_nat ?n - 1 :: u32) = ?n - 1"
  proof -
    have "(of_nat ?n - 1 :: u32) = of_nat (?n - 1)" using assms(1) by (cases segments) auto
    then show ?thesis using assms(2) by (simp add: unat_of_nat)
  qed
  have len: "length message = 8 * (?n div 2 + 1) + 8 * sum_list (map length segments)"
    using assms(4) by (simp add: framed_words_def WORD_SIZE_def)
  note table = table_words [of ?n] and sizes = length_sizes [of segments]
  have a: "write_table 0 (of_nat ?n - 1) message = Inr (?count @ drop 4 message)"
    using write_at_front [of ?count message "[]"] len by (simp add: write_table_def n1)
  have b: "write_sizes 0 segments (?count @ drop 4 message) = Inr ((?count @ ?sizes) @ drop (4 * ?n) (drop 4 message))"
    using write_sizes_front [of ?count 0 segments "drop 4 message"] len table assms(3) by auto
  have c: "(if ?n mod 2 = 0 then write_table (?n + 1) 0 ((?count @ ?sizes) @ drop (4 * ?n) (drop 4 message))
      else Inr ((?count @ ?sizes) @ drop (4 * ?n) (drop 4 message)))
    = Inr ((?count @ ?sizes @ ?pad) @ drop (8 * (?n div 2 + 1)) message)"
  proof (cases "?n mod 2 = 0")
    case True
    have "write_table (?n + 1) 0 ((?count @ ?sizes) @ drop (4 * ?n) (drop 4 message))
      = Inr (((?count @ ?sizes) @ le_bytes 4 0) @ drop 4 (drop (4 * ?n) (drop 4 message)))"
      using write_at_front [of "le_bytes 4 0" "drop (4 * ?n) (drop 4 message)" "?count @ ?sizes"] True len table sizes
      by (simp add: write_table_def)
    moreover have "4 + (4 * ?n + 4) = 8 * (?n div 2 + 1)" using True by presburger
    then have "drop 4 (drop (4 * ?n) (drop 4 message)) = drop (8 * (?n div 2 + 1)) message"
      by (simp only: drop_drop)
    ultimately show ?thesis unfolding if_P [OF True] by (simp only: append_assoc)
  next
    case False
    then have "4 * ?n + 4 = 8 * (?n div 2 + 1)" by presburger
    then have "drop (4 * ?n) (drop 4 message) = drop (8 * (?n div 2 + 1)) message"
      by (simp only: drop_drop)
    then show ?thesis unfolding if_not_P [OF False] by (simp only: append_assoc append_Nil2)
  qed
  have "length (?count @ ?sizes @ ?pad) = (?n div 2 + 1) * WORD_SIZE"
    using table sizes by (auto simp: WORD_SIZE_def)
  then have d: "write_segments (?n div 2 + 1) segments ((?count @ ?sizes @ ?pad) @ drop (8 * (?n div 2 + 1)) message)
    = Inr ((?count @ ?sizes @ ?pad) @ concat (map bytes_of_words segments))"
    by (rule write_segments_front) (simp add: len WORD_SIZE_def)
  show ?thesis
    unfolding buildSmartMessage_def Let_def a and_then.simps b c d by (simp add: framed_def)
qed

lemma table_entry:
  "j < length xs \<Longrightarrow> take 4 (drop (4 * j) (concat (map (\<lambda>s. le_bytes 4 (f s)) xs) @ rest)) = le_bytes 4 (f (xs ! j))"
proof (induction xs arbitrary: j)
  case (Cons x xs)
  then show ?case by (cases j) (auto simp: mult_Suc_right)
qed simp

lemma cut_concat: "cut (map length xss) (concat xss) = xss"
  by (induction xss) auto

lemma words_of_segments: "words_of_bytes (concat (map bytes_of_words ss)) = concat ss"
proof -
  have "concat (map bytes_of_words ss) = bytes_of_words (concat ss)"
    by (induction ss) (simp_all add: bytes_of_words_def)
  then show ?thesis using words_of_bytes_of_words [of "concat ss" "[]"] by simp
qed

lemma drop_prefix: "length xs = n \<Longrightarrow> drop n (xs @ ys) = ys"
  by simp

lemma unframe_framed:
  assumes "segments \<noteq> []" and "length segments < 2 ^ 32" and "\<forall>s \<in> set segments. length s < 2 ^ 32"
  shows "unframe (framed segments) = segments"
proof -
  let ?n = "length segments"
  let ?count = "le_bytes 4 (?n - 1)" and ?sizes = "concat (map (\<lambda>s. le_bytes 4 (length s)) segments)"
  let ?pad = "if ?n mod 2 = 0 then le_bytes 4 0 else [] :: u8 list" and ?data = "concat (map bytes_of_words segments)"
  have f: "framed segments = ?count @ ?sizes @ ?pad @ ?data" by (simp add: framed_def)
  have n: "le_value (take 4 (framed segments)) + 1 = ?n"
    using assms(1,2) by (simp add: f le_value_bytes Suc_diff_Suc)
  have entry: "le_value (take 4 (drop (4 + 4 * j) (framed segments))) = length (segments ! j)" if j: "j < ?n" for j
    using table_entry [OF j, of length "?pad @ ?data"] assms(3) j unfolding f by (simp add: le_value_bytes)
  have "map (\<lambda>i. le_value (take 4 (drop (4 * i) (framed segments)))) [1..<?n + 1] = map length segments"
    using entry by (intro nth_equalityI) (auto simp del: upt_Suc)
  moreover have "framed segments = (?count @ ?sizes @ ?pad) @ ?data" by (simp only: f append_assoc)
  moreover have "length (?count @ ?sizes @ ?pad) = 8 * (?n div 2 + 1)"
    using table_words [of ?n] length_sizes [of segments] by auto
  ultimately have "drop (8 * (?n div 2 + 1)) (framed segments) = ?data"
    "map (\<lambda>i. le_value (take 4 (drop (4 * i) (framed segments)))) [1..<?n + 1] = map length segments"
    by (simp_all only: drop_prefix)
  then show ?thesis unfolding unframe_def Let_def n by (simp only: words_of_segments cut_concat)
qed

lemma le_bytes_value: "le_bytes (length bs) (le_value bs) = bs"
proof (induction bs)
  case (Cons b bs)
  have "(unat b + 256 * le_value bs) div 256 = le_value bs"
    using unsigned_less [of b, where 'a = nat] by simp
  moreover have "(of_nat (unat b + 256 * le_value bs) :: u8) = b"
    using unsigned_less [of b, where 'a = nat] by (simp add: word_unat_eq_iff unat_of_nat del: of_nat_add of_nat_mult)
  ultimately show ?case using Cons by simp
qed simp

lemma le_value_bound: "le_value bs < 256 ^ length bs"
proof (induction bs)
  case (Cons b bs)
  then show ?case using unsigned_less [of b, where 'a = nat] by simp
qed simp

lemma bytes_of_words_of_bytes:
  "length bs = WORD_SIZE * k \<Longrightarrow> bytes_of_words (words_of_bytes bs) = bs"
proof (induction k arbitrary: bs)
  case 0
  then show ?case by (simp add: bytes_of_words_def)
next
  case (Suc k)
  have len: "8 \<le> length bs" "length (take 8 bs) = 8" using Suc.prems by (simp_all add: WORD_SIZE_def)
  have "unat (of_nat (le_value (take 8 bs)) :: u64) = le_value (take 8 bs)"
    using le_value_bound [of "take 8 bs"] len by (simp add: unat_of_nat)
  then have "le_bytes WORD_SIZE (unat (of_nat (le_value (take 8 bs)) :: u64)) = take 8 bs"
    using le_bytes_value [of "take 8 bs"] len by (simp add: WORD_SIZE_def)
  with Suc.IH [of "drop 8 bs"] Suc.prems show ?case
    by (simp add: words_of_bytes_take [OF len(1)] bytes_of_words_def WORD_SIZE_def)
qed

section \<open>Properties\<close>

lemma reader_of_message:
  assumes "length m mod WORD_SIZE = 0"
  shows "SmartCapnpReader (getSmartMessage i m) = Inr \<lparr>cr_id = i, cr_buffer = words_of_bytes m\<rparr>"
proof -
  have "length m div WORD_SIZE * WORD_SIZE = length m" using assms by auto
  moreover have "unat i mod 256 ^ 8 = unat i" using unsigned_less [of i, where 'a = nat] by simp
  then have "of_nat (le_value (le_bytes 8 (unat i))) = i" by (simp only: le_value_bytes of_nat_unat ucast_id)
  ultimately show ?thesis
    by (simp add: SmartCapnpReader_def idFromSmartMessage_def getSmartMessage_def part_at_def
        CapnpBufferFromAzmqMessage_def)
qed

lemma build_framed:
  assumes "\<And>ss. sizeInWords ss = framed_words ss"
    and "segments \<noteq> []" "length segments < 2 ^ 32" "\<forall>s \<in> set segments. length s < 2 ^ 32"
  shows "\<exists>buf pool'. build sizeInWords os_malloc mem segments pool = Inr (framed segments, buf, pool')"
  using assms(1) buildSmartMessage_framed [OF assms(2-4)] by (simp add: build_def case_prod_beta Let_def)

text \<open>
  C14: A capnproto message reaches the handler it is meant for. Whatever the buffer held before,
  \<open>build\<close> writes within the message and produces capnproto's stream format, from which the segments
  can be recovered; sent as a smart message it arrives at a listener in one piece, the reader there
  finds the id and the words that were written, and a node's subscriber for that type passes them
  to the parser and its result to the handler, while a subscriber for another type reports an
  exception.
\<close>

theorem smart_message_delivered:
  assumes size: "\<And>ss. sizeInWords ss = framed_words ss"
    and segs: "segments \<noteq> []" "length segments < 2 ^ 32" "\<forall>s \<in> set segments. length s < 2 ^ 32"
  shows "\<exists>m buf pool' ws. build sizeInWords os_malloc mem segments pool = Inr (m, buf, pool') \<and>
    unframe m = segments \<and> bytes_of_words ws = m \<and>
    deliveries (snd (run (socket_step (Listener_onMessage (\<lambda>m. False) e)) (fst (Listener e Socket))
      (map Inr (fst (Socket_send (\<lambda>i. None) (getSmartMessage i m)))))) = [getSmartMessage i m] \<and>
    SmartCapnpReader (getSmartMessage i m) = Inr \<lparr>cr_id = i, cr_buffer = ws\<rparr> \<and>
    (\<forall>root. parse ws = Inr root \<longrightarrow>
      subscriber_handler parse i (\<lambda>r. None) (getSmartMessage i m) = [Handled root]) \<and>
    (j \<noteq> i \<longrightarrow> (\<exists>msg. subscriber_handler parse j throws (getSmartMessage i m) = [Reported (Runtime_Error msg)]))"
proof -
  obtain buf pool' where b: "build sizeInWords os_malloc mem segments pool = Inr (framed segments, buf, pool')"
    using build_framed [OF size segs] by blast
  have len: "length (framed segments) = WORD_SIZE * framed_words segments"
    using length_framed [OF segs(1)] by (simp add: mult.commute)
  then have "framed segments \<noteq> []" by (auto simp: framed_words_def WORD_SIZE_def)
  have r: "SmartCapnpReader (getSmartMessage i (framed segments)) =
      Inr \<lparr>cr_id = i, cr_buffer = words_of_bytes (framed segments)\<rparr>"
    by (rule reader_of_message) (simp add: len)
  have start: "fst (Listener e Socket) = armed e"
    by (simp add: Listener_def Socket_receive_def Socket_def armed_def)
  have parts: "filter (\<lambda>m. m \<noteq> []) (getSmartMessage i (framed segments)) = getSmartMessage i (framed segments)"
    using \<open>framed segments \<noteq> []\<close> 
    by (simp add: getSmartMessage_def length_greater_0_conv [symmetric] del: length_greater_0_conv)
  have "deliveries (snd (run (socket_step (Listener_onMessage (\<lambda>m. False) e)) (fst (Listener e Socket))
      (map Inr (fst (Socket_send (\<lambda>i. None) (getSmartMessage i (framed segments))))))) = [getSmartMessage i (framed segments)]"
    using listener.one_message [of e "getSmartMessage i (framed segments)"]
    unfolding start parts Socket_send_ok [OF refl] fst_conv by (metis snd_conv)
  then show ?thesis
    using b unframe_framed [OF segs] bytes_of_words_of_bytes [OF len] r
    by (intro exI [of _ "framed segments"] exI [of _ buf] exI [of _ pool'] exI [of _ "words_of_bytes (framed segments)"])
      (simp add: subscriber_handler_def capnp_root_def getRoot_def thrown_def)
qed

theorem smart_message_delivered_witness:
  "\<exists>m buf pool'. build framed_words 9 (\<lambda>a. 255) [[1, 2], [3]] (BufferPool 1000 64 1 True) = Inr (m, buf, pool') \<and>
    unframe m = [[1, 2], [3]]"
  using smart_message_delivered [of framed_words "[[1, 2], [3]]" 9 "\<lambda>a. 255" "BufferPool 1000 64 1 True"]
  by fastforce

text \<open>
  A message without an id part of eight bytes or without a second part is not rejected: the
  reader reads outside the message vector or the id part, and neither a subscriber's nor a reply
  server's handler reports an error for it. The empty vector a reply server sends when its handler
  fails is such a message.
\<close>

theorem short_message_undefined:
  assumes "length ms < 2 \<or> length (hd ms) < 8"
  shows "SmartCapnpReader ms = Inl Out_Of_Bounds \<and>
    subscriber_handler parse i throws ms = [Undefined Out_Of_Bounds] \<and>
    request_handler_of parse i handler error_handler ms = Inl Out_Of_Bounds"
proof -
  have "SmartCapnpReader ms = Inl Out_Of_Bounds"
    using assms by (cases ms)
      (auto simp: SmartCapnpReader_def idFromSmartMessage_def part_at_def)
  then show ?thesis
    by (simp add: subscriber_handler_def request_handler_of_def capnp_root_def thrown_def)
qed

theorem short_message_undefined_witness:
  "deliveries (snd (run (socket_step (Listener_onMessage (\<lambda>m. False) True)) (armed True)
     (map Inr (fst (Socket_send (\<lambda>i. None) []))))) = [[]] \<and>
   subscriber_handler Inr 42 (\<lambda>r. None) [] = [Undefined Out_Of_Bounds]"
  using short_message_undefined [of "[]" Inr 42 "\<lambda>r. None"] listener.one_message [of True "[]"]
  by (auto simp: Socket_send_ok)

end
