(* ===== verification/Message_Helpers.thy ===== *)
theory Message_Helpers
  imports Complex_Main Smart_Messages
begin

text \<open>
  The rest of \<open>src/a17/dispatch/message_helpers.cpp\<close> (printing of messages and of capnproto values,
  comparison of message vectors) and the subscription filters of \<open>subscriber.cpp\<close> and
  \<open>sub_server.cpp\<close>. How a \<open>double\<close> and a pointer are printed is left to the C++ library: an
  argument.
\<close>

section \<open>Printing capnproto values\<close>

text \<open>
  A value as capnproto's dynamic API presents it: an enumerant has a name if the schema knows it,
  the fields of a structure come in schema order with \<open>has\<close>. The texts contain no NUL.
\<close>

datatype DynamicValue =
    V_VOID
  | V_BOOL bool
  | V_INT int
  | V_UINT nat
  | V_FLOAT rat
  | V_TEXT string
  | V_LIST "DynamicValue list"
  | V_ENUM "string option" nat
  | V_STRUCT "(string \<times> bool \<times> DynamicValue) list"
  | V_OTHER

fun print_value :: "(rat \<Rightarrow> string) \<Rightarrow> DynamicValue \<Rightarrow> string"
  and print_list :: "(rat \<Rightarrow> string) \<Rightarrow> bool \<Rightarrow> DynamicValue list \<Rightarrow> string"
  and print_fields :: "(rat \<Rightarrow> string) \<Rightarrow> bool \<Rightarrow> (string \<times> bool \<times> DynamicValue) list \<Rightarrow> string" where
  "print_value fl V_VOID = []"
| "print_value fl (V_BOOL b) = (if b then ''True'' else ''False'')"
| "print_value fl (V_INT i) = int_to_string i"
| "print_value fl (V_UINT n) = to_string n"
| "print_value fl (V_FLOAT x) = fl x"
| "print_value fl (V_TEXT s) = CHR 0x22 # s @ [CHR 0x22]"
| "print_value fl (V_LIST vs) = ''['' @ print_list fl True vs @ '']''"
| "print_value fl (V_ENUM name raw) = (case name of Some n \<Rightarrow> n | None \<Rightarrow> to_string raw)"
| "print_value fl (V_STRUCT fs) = ''('' @ print_fields fl True fs @ '')''"
| "print_value fl V_OTHER = ''?''"
| "print_list fl first [] = []"
| "print_list fl first (v # vs) = (if first then [] else '', '') @ print_value fl v @ print_list fl False vs"
| "print_fields fl first [] = []"
| "print_fields fl first ((name, has, v) # fs) =
     (if \<not> has then print_fields fl first fs
      else (if first then [] else '' '') @ name @ ''='' @ print_value fl v @ print_fields fl False fs)"

section \<open>Printing messages\<close>

definition hex_digit :: "nat \<Rightarrow> char" where
  "hex_digit d = (if d < 10 then char_of (48 + d) else char_of (87 + d))"

definition hex2 :: "u8 \<Rightarrow> string" where
  "hex2 b = [hex_digit (unat b div 16), hex_digit (unat b mod 16)]"

definition byte_char :: "u8 \<Rightarrow> char" where
  "byte_char b = char_of (unat b)"

fun hex_dump :: "nat \<Rightarrow> u8 list \<Rightarrow> string" where
  "hex_dump i [] = []"
| "hex_dump i (b # bs) = (if i > 0 \<and> i mod 8 = 0 then CHR ''|'' else CHR '' '') # hex2 b @ hex_dump (Suc i) bs"

definition streamMessage :: "u8 list \<Rightarrow> string" where
  "streamMessage buffer =
     (let size = length buffer;
          capSize = (if size < 255 then size else 255);
          i = length (takeWhile (\<lambda>b. isprint (byte_char b)) (take capSize buffer))
      in ''['' @ (if i < size then to_string size @ '' bytes:'' @ hex_dump 0 (take capSize buffer)
                  else map byte_char (take capSize buffer))
         @ (if capSize < size then '' ('' @ to_string (size - capSize) @ '' more)'' else []) @ '']'')"

text \<open>
  The operator on a vector prints \<open>&message_vector[i]\<close>, the addresses of the parts: \<open>addr i\<close> is
  the text of the \<open>i\<close>-th one.
\<close>

definition print_message_vector :: "(nat \<Rightarrow> string) \<Rightarrow> message_vector \<Rightarrow> string" where
  "print_message_vector addr ms =
     concat (map (\<lambda>i. (if i > 0 then '' '' else []) @ addr i) [0..<length ms])"

definition print_message :: "message \<Rightarrow> string" where
  "print_message message = streamMessage message"

section \<open>Comparing message vectors\<close>

definition message_eq_loop :: "nat \<Rightarrow> message_vector \<Rightarrow> message_vector \<Rightarrow> bool" where
  "message_eq_loop n ms ns \<longleftrightarrow>
     (\<forall>i \<in> set [0..<n]. length (ms ! i) = length (ns ! i) \<and> take (length (ms ! i)) (ns ! i) = ms ! i)"

text \<open>The loop counter is an \<open>int\<close>: the size is cast to 32 bits, a negative bound ends the loop at once.\<close>

definition message_eq :: "message_vector \<Rightarrow> message_vector \<Rightarrow> bool" where
  "message_eq msg1 msg2 \<longleftrightarrow>
     length msg1 = length msg2 \<and>
     message_eq_loop (nat (sint (of_nat (length msg1) :: 32 word))) msg1 msg2"

definition message_neq :: "message_vector \<Rightarrow> message_vector \<Rightarrow> bool" where
  "message_neq msg1 msg2 \<longleftrightarrow> \<not> message_eq msg1 msg2"

section \<open>Subscription filters\<close>

definition digit_in :: "nat \<Rightarrow> char \<Rightarrow> nat option" where
  "digit_in base c =
     (let n = code_of c;
          d = (if 48 \<le> n \<and> n \<le> 57 then n - 48
               else if 97 \<le> n \<and> n \<le> 122 then n - 87
               else if 65 \<le> n \<and> n \<le> 90 then n - 55 else 36)
      in if d < base then Some d else None)"

definition value_in :: "nat \<Rightarrow> string \<Rightarrow> nat" where
  "value_in base s = foldl (\<lambda>acc c. acc * base + the (digit_in base c)) 0 s"

text \<open>
  \<open>std::stoull(s, 0, 0)\<close>: white space, a sign, then a hexadecimal, octal or decimal number by its
  prefix; a negative number is negated modulo $2^{64}$.
\<close>

definition stoull :: "string \<Rightarrow> u64 result" where
  "stoull s =
     (let s1 = dropWhile isspace s;
          neg = (s1 \<noteq> [] \<and> hd s1 = CHR ''-'');
          s2 = (if s1 \<noteq> [] \<and> (hd s1 = CHR ''-'' \<or> hd s1 = CHR ''+'') then tl s1 else s1);
          (base, s3) = (if take 2 s2 \<in> {''0x'', ''0X''} \<and> length s2 > 2 \<and> digit_in 16 (s2 ! 2) \<noteq> None
                          then (16, drop 2 s2)
                        else if take 1 s2 = ''0'' then (8, s2) else (10, s2));
          digits = takeWhile (\<lambda>c. digit_in base c \<noteq> None) s3;
          v = value_in base digits
      in if digits = [] then Inl Invalid_Argument
         else if v \<ge> 2 ^ 64 then Inl Out_Of_Range
         else Inr (if neg then - of_nat v else of_nat v))"

text \<open>The byte prefixes a socket subscribes to, in the order of the set of filters.\<close>

fun Subscriber_applyFilters :: "string list \<Rightarrow> message list result" where
  "Subscriber_applyFilters [] = Inr []"
| "Subscriber_applyFilters (f # filters) =
     and_then (if f \<noteq> [] then and_then (stoull f) (\<lambda>v. Inr (le_bytes 8 (unat v))) else Inr [])
       (\<lambda>prefix. and_then (Subscriber_applyFilters filters) (\<lambda>rest. Inr (prefix # rest)))"

definition SubServer_applyFilters :: "string list \<Rightarrow> message list" where
  "SubServer_applyFilters filters = map (map (\<lambda>c. of_nat (code_of c))) filters"

definition typeOf :: "u64 \<Rightarrow> string" where
  "typeOf ident = to_string (unat ident)"

text \<open>ZeroMQ's documented rule: a message passes if its first part starts with a subscribed prefix.\<close>

definition passes :: "message list \<Rightarrow> message_vector \<Rightarrow> bool" where
  "passes prefixes ms \<longleftrightarrow> ms \<noteq> [] \<and> (\<exists>p \<in> set prefixes. take (length p) (hd ms) = p)"

section \<open>Properties\<close>

lemma message_eq_iff:
  assumes "length ms < 2 ^ 31"
  shows "message_eq ms ns \<longleftrightarrow> ms = ns"
proof -
  have "sint (of_nat (length ms) :: 32 word) = int (length ms)"
    using assms by (simp add: signed_of_nat signed_take_bit_int_eq_self)
  then have "message_eq ms ns \<longleftrightarrow> length ms = length ns \<and> message_eq_loop (length ms) ms ns"
    by (simp add: message_eq_def)
  moreover have "ms = ns" if l: "length ms = length ns" and *: "message_eq_loop (length ms) ms ns"
  proof (rule nth_equalityI [OF l])
    fix i assume "i < length ms"
    then have "i \<in> set [0..<length ms]" by simp
    with * have "length (ms ! i) = length (ns ! i) \<and> take (length (ms ! i)) (ns ! i) = ms ! i"
      unfolding message_eq_loop_def by (rule bspec)
    then show "ms ! i = ns ! i" by (metis order_refl take_all)
  qed
  ultimately show ?thesis by (auto simp: message_eq_loop_def)
qed

lemma digit_in_10: "isdigit c \<Longrightarrow> digit_in 10 c = Some (code_of c - 48)"
  by (auto simp: digit_in_def isdigit_def Let_def)

lemma value_in_10: "\<forall>c \<in> set s. isdigit c \<Longrightarrow> value_in 10 s = digits_value s"
proof -
  have "\<forall>c \<in> set s. isdigit c \<Longrightarrow> foldl (\<lambda>acc c. acc * 10 + the (digit_in 10 c)) a s
      = foldl (\<lambda>acc c. acc * 10 + (code_of c - 48)) a s" for a
    by (induction s arbitrary: a) (auto simp: digit_in_10)
  then show "\<forall>c \<in> set s. isdigit c \<Longrightarrow> value_in 10 s = digits_value s"
    by (simp add: value_in_def digits_value_def)
qed

lemma to_string_first:
  assumes "0 < n"
  shows "\<exists>d cs. to_string n = digit_char d # cs \<and> 0 < d \<and> d < 10"
  using assms
proof (induction n rule: to_string.induct)
  case (1 n)
  then show ?case
  proof (cases "n < 10")
    case False
    with 1 show ?thesis by (subst to_string.simps) fastforce
  qed (use 1 in \<open>subst to_string.simps, auto\<close>)
qed

lemma stoull_typeOf: "stoull (typeOf i) = Inr i"
proof (cases "unat i = 0")
  case True
  then have "i = 0" by (simp add: unat_eq_zero)
  moreover have "to_string 0 = ''0''" by code_simp
  ultimately show ?thesis
    by (simp add: typeOf_def stoull_def isspace_def digit_in_def value_in_def Let_def)
next
  case False
  then obtain d cs where d: "to_string (unat i) = digit_char d # cs" "0 < d" "d < 10"
    using to_string_first [of "unat i"] by auto
  let ?s = "to_string (unat i)"
  have digits: "\<forall>c \<in> set ?s. isdigit c" using to_string_digits by blast
  then have c: "isdigit (digit_char d)" by (simp add: d)
  then have n: "\<not> isspace (digit_char d)" "digit_char d \<noteq> CHR ''-''" "digit_char d \<noteq> CHR ''+''"
    by (auto dest: isdigit_not_special)
  have z: "digit_char d \<noteq> CHR ''0''"
    using digit_char_code [OF d(3)] d(2) by auto
  have "takeWhile (\<lambda>c. digit_in 10 c \<noteq> None) ?s = ?s"
    using digits by (intro takeWhile_eq_all_conv [THEN iffD2]) (auto simp: digit_in_10)
  moreover have "value_in 10 ?s = unat i" using value_in_10 [OF digits] by simp
  moreover have "unat i < 2 ^ 64" using unsigned_less [of i, where 'a = nat] by simp
  ultimately show ?thesis
    using n z by (simp add: typeOf_def stoull_def d Let_def not_le)
qed

lemma applyFilters_types:
  "Subscriber_applyFilters (map typeOf ids) = Inr (map (\<lambda>i. le_bytes 8 (unat i)) ids)"
proof (induction ids)
  case (Cons i ids)
  then show ?case by (simp add: stoull_typeOf) (simp add: typeOf_def)
qed simp

lemma le_bytes_inj: "le_bytes 8 (unat (i :: u64)) = le_bytes 8 (unat j) \<Longrightarrow> i = j"
proof -
  assume "le_bytes 8 (unat i) = le_bytes 8 (unat j)"
  then have "unat i mod 256 ^ 8 = unat j mod 256 ^ 8" by (metis le_value_bytes)
  then show "i = j"
    using unsigned_less [of i, where 'a = nat] unsigned_less [of j, where 'a = nat] by (simp add: word_unat_eq_iff)
qed

lemma to_string_bound: "n < 10 ^ length (to_string n)"
proof (induction n rule: to_string.induct)
  case (1 n)
  show ?case
  proof (cases "n < 10")
    case False
    with 1 have "n div 10 < 10 ^ length (to_string (n div 10))" by simp
    then have "n < 10 * 10 ^ length (to_string (n div 10))" by linarith
    with False show ?thesis by (subst to_string.simps) simp
  qed (subst to_string.simps, simp)
qed

lemma take_le_bytes: "l \<le> k \<Longrightarrow> take l (le_bytes k n) = le_bytes l n"
proof (induction l arbitrary: k n)
  case (Suc l)
  then show ?case by (cases k) auto
qed simp

lemma le_value_large:
  "bs \<noteq> [] \<Longrightarrow> \<forall>b \<in> set bs. 48 \<le> unat b \<Longrightarrow> 48 * 256 ^ (length bs - 1) \<le> le_value bs"
proof (induction bs)
  case (Cons b bs)
  then show ?case
  proof (cases bs)
    case (Cons c cs)
    with Cons.IH Cons.prems have "48 * 256 ^ length cs \<le> le_value bs" by simp
    then show ?thesis using Cons by simp
  qed simp
qed simp

lemma digits_not_binary:
  assumes "take (length p) (le_bytes 8 n) = p" and "p \<noteq> []" and "\<forall>b \<in> set p. 48 \<le> unat b"
  shows "10 ^ length p \<le> n"
proof -
  have l: "length p \<le> 8" using arg_cong [OF assms(1), of length] by simp
  then have "p = le_bytes (length p) n" using assms(1) take_le_bytes by metis
  then have "le_value p = n mod 256 ^ length p" using le_value_bytes by metis
  then have "48 * 256 ^ (length p - 1) \<le> n"
    using le_value_large [OF assms(2,3)] mod_less_eq_dividend [of n "256 ^ length p"] by linarith
  moreover have "(10::nat) ^ length p = 10 * 10 ^ (length p - 1)"
    using assms(2) by (cases "length p") auto
  moreover have "(10::nat) * 10 ^ (length p - 1) \<le> 48 * 256 ^ (length p - 1)"
    by (intro mult_mono power_mono) auto
  ultimately show ?thesis by linarith
qed

text \<open>
  C32: Type filters. A subscriber whose filters are the types of some capnproto structures receives
  exactly the smart messages of these types. A sub server with the filter of a type receives no
  message of that type, because it subscribes to the digits of the id and not to its bytes.
\<close>

theorem type_filters:
  "(case Subscriber_applyFilters (map typeOf ids) of
      Inl e \<Rightarrow> False
    | Inr prefixes \<Rightarrow> passes prefixes (getSmartMessage i m) \<longleftrightarrow> i \<in> set ids) \<and>
   \<not> passes (SubServer_applyFilters [typeOf i]) (getSmartMessage i m)"
proof
  have "passes (map (\<lambda>i. le_bytes 8 (unat i)) ids) (getSmartMessage i m) \<longleftrightarrow> i \<in> set ids"
    by (auto simp: passes_def getSmartMessage_def dest: le_bytes_inj)
  then show "case Subscriber_applyFilters (map typeOf ids) of Inl e \<Rightarrow> False
    | Inr prefixes \<Rightarrow> passes prefixes (getSmartMessage i m) \<longleftrightarrow> i \<in> set ids"
    by (simp add: applyFilters_types)
next
  let ?p = "map (\<lambda>c. of_nat (code_of c)) (typeOf i) :: message"
  have "48 \<le> unat (of_nat (code_of c) :: u8)" if "isdigit c" for c
    using that by (auto simp: isdigit_def unat_of_nat)
  then have "\<forall>b \<in> set ?p. 48 \<le> unat b"
    using to_string_digits [of _ "unat i"] by (auto simp: typeOf_def)
  then show "\<not> passes (SubServer_applyFilters [typeOf i]) (getSmartMessage i m)"
    using digits_not_binary [of ?p "unat i"] to_string_bound [of "unat i"]
    by (auto simp: passes_def SubServer_applyFilters_def getSmartMessage_def typeOf_def)
qed

text \<open>The bytes shown by a hexadecimal dump can be read back from it.\<close>

definition hex_value :: "char \<Rightarrow> nat" where
  "hex_value c = (if code_of c \<le> 57 then code_of c - 48 else code_of c - 87)"

fun read_dump :: "string \<Rightarrow> u8 list" where
  "read_dump (_ # a # b # s) = of_nat (16 * hex_value a + hex_value b) # read_dump s"
| "read_dump _ = []"

lemma hex_value_digit: "d < 16 \<Longrightarrow> hex_value (hex_digit d) = d"
  by (simp add: hex_value_def hex_digit_def of_char_of)

lemma read_hex_dump: "read_dump (hex_dump i bs) = bs"
proof (induction bs arbitrary: i)
  case (Cons b bs)
  have "unat b < 256" using unsigned_less [of b, where 'a = nat] by simp
  then have "16 * hex_value (hex_digit (unat b div 16)) + hex_value (hex_digit (unat b mod 16)) = unat b"
    by (simp add: hex_value_digit)
  with Cons show ?case by (simp add: hex2_def)
qed simp

text \<open>
  Printing a message. The text shows a short printable message as it is; of any other message
  it shows the size, the first 255 bytes in hexadecimal, from which they can be read back, and how
  many bytes are left out.
\<close>

theorem streamMessage_shows_bytes:
  "if length bs \<le> 255 \<and> list_all (\<lambda>b. isprint (byte_char b)) bs
   then streamMessage bs = ''['' @ map byte_char bs @ '']''
   else \<exists>dump. streamMessage bs = ''['' @ to_string (length bs) @ '' bytes:'' @ dump @
       (if length bs \<le> 255 then [] else '' ('' @ to_string (length bs - 255) @ '' more)'') @ '']'' \<and>
     read_dump dump = take 255 bs \<and> length dump = 3 * min 255 (length bs)"
proof -
  define cap where "cap = (if length bs < 255 then length bs else 255)"
  have cap: "cap = min 255 (length bs)" "take cap bs = take 255 bs" by (auto simp: cap_def)
  have dump: "length (hex_dump i xs) = 3 * length xs" for i xs
    by (induction xs arbitrary: i) (auto simp: hex2_def)
  let ?shown = "takeWhile (\<lambda>b. isprint (byte_char b)) (take cap bs)"
  have "length ?shown < length bs \<longleftrightarrow> \<not> (length bs \<le> 255 \<and> list_all (\<lambda>b. isprint (byte_char b)) bs)"
  proof (cases "length bs \<le> 255")
    case True
    then have "take cap bs = bs" by (simp add: cap)
    then have "length ?shown < length bs \<longleftrightarrow> ?shown \<noteq> bs"
      by (metis length_takeWhile_le nat_less_le takeWhile_eq_take take_all order_refl)
    then show ?thesis using True \<open>take cap bs = bs\<close>
      by (simp add: takeWhile_eq_all_conv list_all_iff)
  next
    case False
    have "length ?shown \<le> 255" using length_takeWhile_le [of _ "take cap bs"] cap by (metis length_take min.bounded_iff)
    with False show ?thesis by simp
  qed
  then show ?thesis
    using cap dump [of 0 "take cap bs"] read_hex_dump [of 0 "take cap bs"]
    by (auto simp: streamMessage_def cap_def [symmetric] Let_def)
qed

end
