(* ===== verification/Timers.thy ===== *)
theory Timers
  imports A17_Prelude
begin

text \<open>
  \<open>Repeater\<close> and \<open>Watchdog\<close> (\<open>src/a17/utils/repeater.*\<close>, \<open>watchdog.*\<close>). Times and durations are
  integers in nanoseconds. The asio timer is its documented behaviour: setting the expiry or
  cancelling aborts a pending wait; a wait whose expiry has passed is \<open>ready\<close> and can no longer be
  aborted; its handler runs some time later.
\<close>

section \<open>Repeater\<close>

record repeater =
  rp_running :: bool
  rp_expires_at :: int
  rp_interval :: int
  rp_waiting :: bool
  rp_ready :: nat

datatype rp_out = Operation int

definition Repeater_start :: "int \<Rightarrow> repeater \<Rightarrow> repeater" where
  "Repeater_start now r =
     (if \<not> rp_running r
      then r\<lparr>rp_expires_at := now + rp_interval r, rp_waiting := True, rp_running := True\<rparr> else r)"

definition Repeater_stop :: "repeater \<Rightarrow> repeater" where
  "Repeater_stop r = r\<lparr>rp_waiting := False, rp_running := False\<rparr>"

definition Repeater :: "int \<Rightarrow> int \<Rightarrow> bool \<Rightarrow> repeater" where
  "Repeater now interval auto_start =
     (let r = \<lparr>rp_running = False, rp_expires_at = now + interval, rp_interval = interval,
               rp_waiting = False, rp_ready = 0\<rparr>
      in if auto_start then Repeater_start now r else r)"

definition Repeater_setInterval :: "int \<Rightarrow> int \<Rightarrow> repeater \<Rightarrow> repeater" where
  "Repeater_setInterval now interval r =
     (let r = r\<lparr>rp_interval := interval\<rparr>
      in if rp_running r then Repeater_start now (Repeater_stop r) else r)"

text \<open>The overloads in milliseconds; durations are counted in nanoseconds.\<close>

definition milliseconds :: "int \<Rightarrow> int" where
  "milliseconds millis = millis * 1000000"

definition Repeater_millis :: "int \<Rightarrow> int \<Rightarrow> bool \<Rightarrow> repeater" where
  "Repeater_millis now millis auto_start = Repeater now (milliseconds millis) auto_start"

definition Repeater_setInterval_millis :: "int \<Rightarrow> int \<Rightarrow> repeater \<Rightarrow> repeater" where
  "Repeater_setInterval_millis now millis r = Repeater_setInterval now (milliseconds millis) r"

text \<open>
  \<open>repeat\<close> without an error code: \<open>op\<close> is the result of the operation and whether the operation
  called \<open>stop\<close>. Dividing a duration by two truncates.
\<close>

definition Repeater_repeat :: "int \<Rightarrow> bool \<times> bool \<Rightarrow> repeater \<Rightarrow> repeater \<times> rp_out list" where
  "Repeater_repeat start op r =
     (if rp_running r then
        (let (result, stops) = op; r = (if stops then Repeater_stop r else r)
         in if result then
              (let expired = rp_expires_at r;
                   bump = (start - expired > rp_interval r div 2);
                   base = (if bump then start else expired)
               in (r\<lparr>rp_expires_at := base + rp_interval r, rp_waiting := True\<rparr>, [Operation start]))
            else (r\<lparr>rp_running := False\<rparr>, [Operation start]))
      else (r, []))"

datatype rp_event =
    Rp_Start int
  | Rp_Stop
  | Rp_Set_Interval int int
  | Rp_Expire int               \<comment> \<open>the clock shows this time\<close>
  | Rp_Run int "bool \<times> bool"    \<comment> \<open>a ready handler runs\<close>

definition rp_step :: "(repeater, rp_event, rp_out) reaction" where
  "rp_step r ev =
     (case ev of
        Rp_Start now \<Rightarrow> (Repeater_start now r, [])
      | Rp_Stop \<Rightarrow> (Repeater_stop r, [])
      | Rp_Set_Interval now interval \<Rightarrow> (Repeater_setInterval now interval r, [])
      | Rp_Expire now \<Rightarrow>
          (if rp_waiting r \<and> rp_expires_at r \<le> now
           then r\<lparr>rp_waiting := False, rp_ready := Suc (rp_ready r)\<rparr> else r, [])
      | Rp_Run now op \<Rightarrow>
          if rp_ready r > 0 then Repeater_repeat now op (r\<lparr>rp_ready := rp_ready r - 1\<rparr>) else (r, []))"

lemmas rp_defs = rp_step_def Repeater_start_def Repeater_stop_def Repeater_setInterval_def
  Repeater_repeat_def

definition rp_alive :: "repeater \<Rightarrow> bool" where
  "rp_alive r \<longleftrightarrow> (rp_running r \<longrightarrow> rp_waiting r \<or> rp_ready r > 0)"

lemma rp_step_alive: "rp_alive r \<Longrightarrow> rp_alive (fst (rp_step r ev))"
  by (cases ev) (auto simp: rp_alive_def rp_defs Let_def split: prod.split)

interpretation repeater_alive: machine rp_step rp_alive
  by unfold_locales (rule rp_step_alive)

definition rp_idle :: "repeater \<Rightarrow> bool" where
  "rp_idle r \<longleftrightarrow> \<not> rp_running r"

text \<open>
  C35: A running repeater never loses its timer: after any sequence of starts, stops, changes of the
  interval, clock ticks and handler runs, a repeater that says it is running has a wait pending or
  a handler ready to run. When the operation is called and asks to go on, the next call is due
  between half an interval and one interval after this one; if it came at most half an interval
  late, exactly one interval after it was due, so that delays do not add up.
\<close>

theorem repeater_keeps_time:
  assumes "r = fst (run rp_step (Repeater t0 interval auto_start) evs)"
  shows "(rp_running r \<longrightarrow> rp_waiting r \<or> rp_ready r > 0) \<and>
    (rp_running r \<and> rp_ready r > 0 \<and> rp_expires_at r \<le> now \<and> 0 \<le> rp_interval r \<longrightarrow>
      (case rp_step r (Rp_Run now (True, False)) of (r', out) \<Rightarrow>
         out = [Operation now] \<and> rp_running r' \<and> rp_waiting r' \<and>
         now + rp_interval r - rp_interval r div 2 \<le> rp_expires_at r' \<and> rp_expires_at r' \<le> now + rp_interval r \<and>
         (now - rp_expires_at r \<le> rp_interval r div 2 \<longrightarrow> rp_expires_at r' = rp_expires_at r + rp_interval r)))"
proof -
  have "rp_alive (Repeater t0 interval auto_start)"
    by (simp add: rp_alive_def Repeater_def Repeater_start_def Let_def)
  then have "rp_alive r" using repeater_alive.inv_run assms by blast
  then show ?thesis by (auto simp: rp_alive_def rp_defs Let_def)
qed

theorem repeater_keeps_time_witness:
  "case rp_step (fst (run rp_step (Repeater 0 100 True) [Rp_Expire 130])) (Rp_Run 130 (True, False)) of
     (r', out) \<Rightarrow> out = [Operation 130] \<and> rp_expires_at r' = 200"
  using repeater_keeps_time [of _ 0 100 True "[Rp_Expire 130]" 130]
  by (simp add: Repeater_def rp_defs)

lemma rp_stopped_step:
  assumes "rp_idle r" and "\<forall>now. ev \<noteq> Rp_Start now"
  shows "rp_idle (fst (rp_step r ev)) \<and> snd (rp_step r ev) = []"
  using assms by (cases ev) (auto simp: rp_idle_def rp_defs Let_def)

text \<open>After \<open>stop\<close> the operation is not called before the next \<open>start\<close>, ready handlers included.\<close>

lemma repeater_stop_is_final:
  "\<forall>now. Rp_Start now \<notin> set evs \<Longrightarrow> snd (run rp_step r (Rp_Stop # evs)) = []"
proof -
  have "rp_idle r \<Longrightarrow> \<forall>now. Rp_Start now \<notin> set evs \<Longrightarrow> snd (run rp_step r evs) = []" for r
  proof (induction evs arbitrary: r)
    case (Cons ev evs)
    then have s: "rp_idle (fst (rp_step r ev))" "snd (rp_step r ev) = []"
      using rp_stopped_step [of r ev] by auto
    from Cons.IH [OF s(1)] Cons.prems(2) s show ?case by (simp add: case_prod_beta)
  qed simp
  from this [of "Repeater_stop r"] show "\<forall>now. Rp_Start now \<notin> set evs \<Longrightarrow> ?thesis"
    by (simp add: case_prod_beta rp_step_def rp_idle_def Repeater_stop_def)
qed

section \<open>Watchdog\<close>

record watchdog =
  wd_timeout :: int
  wd_expires_at :: int
  wd_waiting :: bool

datatype wd_out = Callback

definition Watchdog :: "int \<Rightarrow> int \<Rightarrow> watchdog" where
  "Watchdog now timeout = \<lparr>wd_timeout = timeout, wd_expires_at = now + timeout, wd_waiting = False\<rparr>"

definition Watchdog_mark :: "int \<Rightarrow> watchdog \<Rightarrow> watchdog" where
  "Watchdog_mark now w = w\<lparr>wd_expires_at := now + wd_timeout w, wd_waiting := True\<rparr>"

text \<open>The event loop looks at the timer at some times; a handler that has become ready runs then.\<close>

datatype wd_event = Wd_Mark int | Wd_Poll int

definition wd_step :: "(watchdog, wd_event, wd_out) reaction" where
  "wd_step w ev =
     (case ev of
        Wd_Mark now \<Rightarrow> (Watchdog_mark now w, [])
      | Wd_Poll now \<Rightarrow>
          if wd_waiting w \<and> wd_expires_at w \<le> now then (w\<lparr>wd_waiting := False\<rparr>, [Callback]) else (w, []))"

lemma wd_polls:
  "snd (run wd_step w (map Wd_Poll ts)) =
     (if wd_waiting w \<and> (\<exists>t \<in> set ts. wd_expires_at w \<le> t) then [Callback] else [])"
proof (induction ts arbitrary: w)
  case (Cons t ts)
  show ?case
  proof (cases "wd_waiting w \<and> wd_expires_at w \<le> t")
    case True
    then show ?thesis using Cons.IH [of "w\<lparr>wd_waiting := False\<rparr>"]
      by (simp add: wd_step_def case_prod_beta)
  next
    case False
    then show ?thesis using Cons.IH [of w] by (auto simp: wd_step_def case_prod_beta)
  qed
qed simp

lemma wd_timeout_run: "wd_timeout (fst (run wd_step w evs)) = wd_timeout w"
proof (induction evs arbitrary: w)
  case (Cons ev evs)
  have "wd_timeout (fst (wd_step w ev)) = wd_timeout w"
    by (cases ev) (simp_all add: wd_step_def Watchdog_mark_def)
  with Cons show ?case by (simp add: case_prod_beta)
qed simp

text \<open>
  A watchdog barks exactly when it is not marked in time: after a mark, whatever happened
  before, looking at the clock at any later times produces one call of the callback if one of these
  times is at least the timeout after the mark, and none otherwise. Before the first mark it
  never calls the callback, whatever time passes.
\<close>

theorem watchdog_barks_once:
  "snd (run wd_step (fst (run wd_step (Watchdog t0 timeout) evs)) (Wd_Mark t # map Wd_Poll ts)) =
     (if \<exists>u \<in> set ts. t + timeout \<le> u then [Callback] else []) \<and>
   snd (run wd_step (Watchdog t0 timeout) (map Wd_Poll ts)) = []"
proof
  let ?w = "fst (run wd_step (Watchdog t0 timeout) evs)"
  have "wd_timeout ?w = timeout" by (simp add: wd_timeout_run Watchdog_def)
  then have "wd_step ?w (Wd_Mark t) = (?w\<lparr>wd_expires_at := t + timeout, wd_waiting := True\<rparr>, [])"
    by (simp add: wd_step_def Watchdog_mark_def)
  then show "snd (run wd_step ?w (Wd_Mark t # map Wd_Poll ts)) =
      (if \<exists>u \<in> set ts. t + timeout \<le> u then [Callback] else [])"
    by (simp add: case_prod_beta wd_polls)
qed (simp add: wd_polls Watchdog_def)

theorem watchdog_barks_once_witness:
  "snd (run wd_step (Watchdog 0 50) [Wd_Mark 10, Wd_Poll 40, Wd_Poll 70, Wd_Poll 90]) = [Callback]"
  using watchdog_barks_once [of 0 50 "[]" 10 "[40, 70, 90]"] by simp

end
