(* ===== verification/Topic_Name.thy ===== *)
theory Topic_Name
  imports C_Strings
begin

text \<open>
  Names of topics: \<open>struct Topic\<close> and its \<open>str()\<close> (\<open>src/a17/dispatch/topic.{h,cpp}\<close>), the
  device name of \<open>defs.cpp\<close> and the name and \<open>topic()\<close> of a \<open>Node\<close> (\<open>node.cpp\<close>). The command
  line flag and the environment variable are arguments.
\<close>

section \<open>Definitions\<close>

record Topic =
  tp_device_name :: string
  tp_node_name :: string
  tp_topic :: string

definition append_part :: "string \<Rightarrow> string \<Rightarrow> string" where
  "append_part str part =
     (if part \<noteq> []
      then (if str \<noteq> [] \<and> last str \<noteq> CHR ''/'' then str @ ''/'' else str) @ part
      else str)"

definition Topic_str :: "Topic \<Rightarrow> string" where
  "Topic_str t =
     (let str = [];
          str = (if tp_device_name t \<noteq> [] then str @ tp_device_name t else str);
          str = append_part str (tp_node_name t);
          str = append_part str (tp_topic t)
      in str)"

definition DeviceName :: "string \<Rightarrow> string option \<Rightarrow> string" where
  "DeviceName FLAGS_device_name env =
     (if FLAGS_device_name \<noteq> [] then FLAGS_device_name
      else case env of Some env_device_name \<Rightarrow> env_device_name | None \<Rightarrow> [])"

text \<open>The constructor of \<open>Node\<close> keeps the name or throws.\<close>

definition Node_name :: "string \<Rightarrow> string result" where
  "Node_name name =
     (let name' = (if name \<noteq> [] then name else ''Node'')
      in if CHR '' '' \<in> set name' then Inl (Runtime_Error ''Process name must not contain spaces'')
         else Inr name')"

definition Node_topic :: "string \<Rightarrow> string option \<Rightarrow> string \<Rightarrow> string \<Rightarrow> Topic" where
  "Node_topic FLAGS_device_name env name topic =
     \<lparr>tp_device_name = DeviceName FLAGS_device_name env, tp_node_name = name, tp_topic = topic\<rparr>"

section \<open>Lemmas\<close>

definition plain_part :: "string \<Rightarrow> bool" where
  "plain_part w \<longleftrightarrow> w \<noteq> [] \<and> CHR ''/'' \<notin> set w"

lemma plain_part_last: "plain_part w \<Longrightarrow> last w \<noteq> CHR ''/''"
  by (metis last_in_set plain_part_def)

lemma Topic_str_plain:
  assumes "plain_part (tp_device_name t)" "plain_part (tp_node_name t)" "plain_part (tp_topic t)"
  shows "Topic_str t = joined (CHR ''/'') [tp_device_name t, tp_node_name t, tp_topic t]"
  using assms plain_part_last [of "tp_device_name t"] plain_part_last [of "tp_node_name t"]
  by (simp add: Topic_str_def append_part_def plain_part_def)

section \<open>Properties\<close>

text \<open>
  Topics whose three parts are non-empty and contain no slash are told apart by their full
  names: two of them have the same \<open>str()\<close> only if they are equal.
\<close>

theorem Topic_str_injective:
  assumes "plain_part (tp_device_name t)" "plain_part (tp_node_name t)" "plain_part (tp_topic t)"
    and "plain_part (tp_device_name u)" "plain_part (tp_node_name u)" "plain_part (tp_topic u)"
    and "Topic_str t = Topic_str u"
  shows "t = u"
proof -
  let ?parts = "\<lambda>x. [tp_device_name x, tp_node_name x, tp_topic x]"
  have "split_on (CHR ''/'') (Topic_str x) = ?parts x"
    if "plain_part (tp_device_name x)" "plain_part (tp_node_name x)" "plain_part (tp_topic x)"
    for x :: Topic
    using that unfolding Topic_str_plain [OF that] by (intro split_on_joined) (auto simp: plain_part_def)
  then have "?parts t = ?parts u" using assms by metis
  then show ?thesis by simp
qed

theorem Topic_str_injective_witness:
  "Topic_str \<lparr>tp_device_name = ''d'', tp_node_name = ''n'', tp_topic = ''t''\<rparr>
     \<noteq> Topic_str \<lparr>tp_device_name = ''d'', tp_node_name = ''n'', tp_topic = ''u''\<rparr>"
  using Topic_str_injective [of "\<lparr>tp_device_name = ''d'', tp_node_name = ''n'', tp_topic = ''t''\<rparr>"
    "\<lparr>tp_device_name = ''d'', tp_node_name = ''n'', tp_topic = ''u''\<rparr>"]
  by (auto simp: plain_part_def)

end
