(* ===== verification/Nodes.thy ===== *)
theory Nodes
  imports Servers Client_Sockets Message_Helpers Timers Topic_Name
begin

text \<open>
  \<open>class Node\<close> (\<open>src/a17/dispatch/node.{h,cpp}\<close>): a process with a directory and a buffer pool, and
  the sockets it creates for typed topics; here the constructors of \<open>Publisher\<close>, \<open>Subscriber\<close>,
  \<open>SubServer\<close>, \<open>PubClient\<close>, \<open>ReplyServer\<close> and \<open>RequestClient\<close> are put together from the parts of the
  other theories. The io service, threads and logging are outside; what a constructor sends, posts
  or calls is output. The handler a client registers with the directory is a number.
\<close>

section \<open>Clients and the directory\<close>

definition Client_observe ::
  "string \<Rightarrow> nat \<Rightarrow> string \<Rightarrow> string \<Rightarrow> bool \<Rightarrow> bool \<Rightarrow> directory \<Rightarrow>
    client \<times> string \<times> directory \<times> dir_out list" where
  "Client_observe uuid handler class_name topic_name has_connect has_disconnect d =
     (let (d, out, ref) = dir_observe uuid topic_name handler d
      in (Client_topic class_name topic_name has_connect has_disconnect, ref, d, out))"

definition Client_destroy :: "client \<Rightarrow> string \<Rightarrow> directory \<Rightarrow> directory \<times> dir_out list" where
  "Client_destroy c ref d = dir_unobserve (cl_topic_name c) ref d"

definition setConnectionHandlers :: "bool \<Rightarrow> bool \<Rightarrow> client \<Rightarrow> client" where
  "setConnectionHandlers has_connect has_disconnect c =
     c\<lparr>cl_has_on_connect := has_connect, cl_has_on_disconnect := has_disconnect\<rparr>"

record subscriber =
  sb_client :: client
  sb_ref :: string
  sb_socket :: socket
  sb_prefixes :: "message list"

text \<open>
  The connection handlers given to \<open>Subscriber\<close> are not passed on. If a filter is not a number
  the constructor throws, and the destructor of its base class takes the observer back.
\<close>

definition make_Subscriber ::
  "string \<Rightarrow> nat \<Rightarrow> string \<Rightarrow> bool \<Rightarrow> string list \<Rightarrow> directory \<Rightarrow>
    subscriber result \<times> directory \<times> dir_out list" where
  "make_Subscriber uuid handler publisherTopic has_error filters d =
     (let (c, ref, d, out) = Client_observe uuid handler ''Subscriber'' publisherTopic False False d;
          (s, o2) = Listener has_error Socket
      in case Subscriber_applyFilters filters of
           Inl e \<Rightarrow> (let (d, o3) = Client_destroy c ref d in (Inl e, d, out @ o3))
         | Inr prefixes \<Rightarrow> (Inr \<lparr>sb_client = c, sb_ref = ref, sb_socket = s, sb_prefixes = prefixes\<rparr>, d, out))"

definition make_PubClient :: "string \<Rightarrow> nat \<Rightarrow> string \<Rightarrow> bool \<Rightarrow> bool \<Rightarrow> directory \<Rightarrow>
    client \<times> string \<times> directory \<times> dir_out list" where
  "make_PubClient uuid handler subServerTopic has_connect has_disconnect d =
     Client_observe uuid handler ''PubClient'' subServerTopic has_connect has_disconnect d"

definition make_RequestClient :: "string \<Rightarrow> nat \<Rightarrow> DirectoryTopic \<Rightarrow> string \<Rightarrow> directory \<Rightarrow>
    request_client \<times> string \<times> directory \<times> dir_out list" where
  "make_RequestClient uuid handler no_topic topic_name d =
     (let (d, out, ref) = dir_observe uuid topic_name handler d in (RequestClient no_topic, ref, d, out))"

definition RequestClient_destroy :: "string \<Rightarrow> string \<Rightarrow> directory \<Rightarrow> directory \<times> dir_out list" where
  "RequestClient_destroy topic_name ref d = dir_unobserve topic_name ref d"

text \<open>The constructors with an address, which do without a directory.\<close>

definition make_PubClient_at :: "string \<Rightarrow> client \<times> client_out list" where
  "make_PubClient_at address = Client_address ''PubClient'' address"

definition make_Subscriber_at ::
  "string \<Rightarrow> bool \<Rightarrow> string list \<Rightarrow> (client \<times> socket \<times> message list) result \<times> client_out list" where
  "make_Subscriber_at publisherAddress has_error filters =
     (let (c, out) = Client_address ''Subscriber'' publisherAddress;
          (s, o2) = Listener has_error Socket
      in (and_then (Subscriber_applyFilters filters) (\<lambda>prefixes. Inr (c, s, prefixes)), out))"

section \<open>Servers and the directory\<close>

definition make_Publisher ::
  "env \<Rightarrow> (string \<Rightarrow> string option) \<Rightarrow> string \<Rightarrow> string list \<Rightarrow> Address \<Rightarrow> directory \<Rightarrow>
    (server \<times> directory \<times> dir_out list) result" where
  "make_Publisher env zbind topic outputTypes address d =
     make_Server env zbind ZMQ_PUB ''Publisher'' topic [] outputTypes address d"

definition make_SubServer ::
  "env \<Rightarrow> (string \<Rightarrow> string option) \<Rightarrow> string \<Rightarrow> string list \<Rightarrow> bool \<Rightarrow> string list \<Rightarrow> Address \<Rightarrow> directory \<Rightarrow>
    (server \<times> socket \<times> message list \<times> directory \<times> dir_out list) result" where
  "make_SubServer env zbind topic inputTypes has_error filters address d =
     and_then (make_Server env zbind ZMQ_SUB ''SubServer'' topic inputTypes [] address d)
       (\<lambda>(sv, d, out). Inr (sv, fst (Listener has_error Socket), SubServer_applyFilters filters, d, out))"

definition make_ReplyServer ::
  "env \<Rightarrow> (string \<Rightarrow> string option) \<Rightarrow> string \<Rightarrow> string list \<Rightarrow> string list \<Rightarrow> bool \<Rightarrow> Address \<Rightarrow> directory \<Rightarrow>
    (server \<times> socket \<times> directory \<times> dir_out list) result" where
  "make_ReplyServer env zbind topic inputTypes outputTypes has_error address d =
     and_then (make_Server env zbind ZMQ_REP ''ReplyServer'' topic inputTypes outputTypes address d)
       (\<lambda>(sv, d, out). Inr (sv, fst (ReplyServer has_error), d, out))"

definition make_Publisher_at :: "(string \<Rightarrow> string option) \<Rightarrow> string \<Rightarrow> server result" where
  "make_Publisher_at zbind address = make_Server_at zbind ''Publisher'' address"

definition make_SubServer_at ::
  "(string \<Rightarrow> string option) \<Rightarrow> string \<Rightarrow> bool \<Rightarrow> string list \<Rightarrow> (server \<times> socket \<times> message list) result" where
  "make_SubServer_at zbind address has_error filters =
     and_then (make_Server_at zbind ''SubServer'' address)
       (\<lambda>sv. Inr (sv, fst (Listener has_error Socket), SubServer_applyFilters filters))"

definition make_ReplyServer_at ::
  "(string \<Rightarrow> string option) \<Rightarrow> string \<Rightarrow> bool \<Rightarrow> (server \<times> socket) result" where
  "make_ReplyServer_at zbind address has_error =
     and_then (make_Server_at zbind ''ReplyServer'' address) (\<lambda>sv. Inr (sv, fst (ReplyServer has_error)))"

section \<open>Node\<close>

record node =
  nd_name :: string
  nd_pool :: buffer_pool
  nd_directory :: directory
  nd_signaled_shutdown :: bool
  nd_ios_stopped :: bool

text \<open>
  The members are constructed before the name is checked, so that the directory exists already
  and says goodbye when the constructor throws: the error comes with the outputs. \<open>pool_mem\<close> is
  the memory of the node's pool, the other arguments are those of \<open>make_directory\<close>.
\<close>

definition make_Node ::
  "env \<Rightarrow> string \<Rightarrow> string \<Rightarrow> nat \<Rightarrow> string \<Rightarrow> bool \<Rightarrow> bool \<Rightarrow> u16 option \<Rightarrow> nat \<Rightarrow>
    (fault \<times> dir_out list) + (node \<times> u16 option \<times> dir_out list)" where
  "make_Node env name uuid mem buffer opened joined_group next_port pool_mem =
     (let name' = (if name \<noteq> [] then name else ''Node'') in
      case make_directory env name' uuid mem buffer opened joined_group next_port of
        Inl e \<Rightarrow> Inl (e, [])
      | Inr (d, next_port, out) \<Rightarrow>
          (case Node_name name of
             Inl e \<Rightarrow> Inl (e, out @ dir_destroy d)
           | Inr name' \<Rightarrow>
               Inr (\<lparr>nd_name = name', nd_pool = BufferPool pool_mem (64 * 8) 64 False,
                     nd_directory = d, nd_signaled_shutdown = False, nd_ios_stopped = False\<rparr>,
                    next_port, out)))"

definition Node_stop :: "node \<Rightarrow> node" where
  "Node_stop nd = nd\<lparr>nd_signaled_shutdown := True, nd_ios_stopped := True\<rparr>"

text \<open>
  The event loop: handlers that are ready run in the order they were posted, each of them may change the node and post
  others; \<open>run\<close> returns when the loop has been stopped. With nothing ready it waits for its asynchronous operations, which
  is where the model hands back.
\<close>

definition Node_post :: "'h \<Rightarrow> 'h list \<Rightarrow> 'h list" where
  "Node_post operation queue = queue @ [operation]"

partial_function (option) Node_run ::
  "('h \<Rightarrow> node \<Rightarrow> node \<times> 'h list) \<Rightarrow> 'h list \<Rightarrow> node \<Rightarrow> (node \<times> 'h list) option" where
  "Node_run exec queue nd =
     (if nd_ios_stopped nd \<or> queue = [] then Some (nd, queue)
      else Node_run exec (tl queue @ snd (exec (hd queue) nd)) (fst (exec (hd queue) nd)))"

text \<open>
  \<open>start\<close> runs the loop on another thread, and the destructor stops it and waits for the thread: the handler that is
  running may finish, no other one begins.
\<close>

definition Node_start ::
  "('h \<Rightarrow> node \<Rightarrow> node \<times> 'h list) \<Rightarrow> 'h list \<Rightarrow> node \<Rightarrow> (node \<times> 'h list) option" where
  "Node_start exec queue nd = Node_run exec queue nd"

definition Node_signal :: "bool \<Rightarrow> node \<Rightarrow> node" where
  "Node_signal ec nd = (if \<not> ec then Node_stop nd else nd)"

definition Node_destroy :: "node \<Rightarrow> dir_out list" where
  "Node_destroy nd = dir_destroy (nd_directory (Node_stop nd))"

definition registerCapnpPublisher ::
  "env \<Rightarrow> (string \<Rightarrow> string option) \<Rightarrow> u64 \<Rightarrow> Topic \<Rightarrow> node \<Rightarrow> (server \<times> node \<times> dir_out list) result" where
  "registerCapnpPublisher env zbind T topic nd =
     and_then (make_Publisher env zbind (Topic_str topic) [typeOf T] (Address_of_port (en_own env) 0) (nd_directory nd))
       (\<lambda>(sv, d, out). Inr (sv, nd\<lparr>nd_directory := d\<rparr>, out))"

definition registerCapnpSubscriber ::
  "string \<Rightarrow> nat \<Rightarrow> Topic \<Rightarrow> node \<Rightarrow> subscriber result \<times> node \<times> dir_out list" where
  "registerCapnpSubscriber uuid handler topic nd =
     (let (sb, d, out) = make_Subscriber uuid handler (Topic_str topic) False [[]] (nd_directory nd)
      in (sb, nd\<lparr>nd_directory := d\<rparr>, out))"

text \<open>The overload whose error handler logs: the same subscriber.\<close>

definition registerCapnpSubscriber_logging ::
  "string \<Rightarrow> nat \<Rightarrow> Topic \<Rightarrow> node \<Rightarrow> subscriber result \<times> node \<times> dir_out list" where
  "registerCapnpSubscriber_logging uuid handler topic nd = registerCapnpSubscriber uuid handler topic nd"

definition registerCapnpReplyServerAsync ::
  "env \<Rightarrow> (string \<Rightarrow> string option) \<Rightarrow> u64 \<Rightarrow> u64 \<Rightarrow> Topic \<Rightarrow> node \<Rightarrow> (server \<times> socket \<times> node \<times> dir_out list) result" where
  "registerCapnpReplyServerAsync env zbind RequestT ReplyT topic nd =
     and_then (make_ReplyServer env zbind (Topic_str topic) [typeOf RequestT] [typeOf ReplyT] False
        (Address_of_port (en_own env) 0) (nd_directory nd))
       (\<lambda>(sv, s, d, out). Inr (sv, s, nd\<lparr>nd_directory := d\<rparr>, out))"

definition newRequestClient ::
  "string \<Rightarrow> nat \<Rightarrow> DirectoryTopic \<Rightarrow> Topic \<Rightarrow> node \<Rightarrow> request_client \<times> string \<times> node \<times> dir_out list" where
  "newRequestClient uuid handler no_topic topic nd =
     (let (rc, ref, d, out) = make_RequestClient uuid handler no_topic (Topic_str topic) (nd_directory nd)
      in (rc, ref, nd\<lparr>nd_directory := d\<rparr>, out))"

definition registerRepeater :: "int \<Rightarrow> int \<Rightarrow> bool \<Rightarrow> repeater" where
  "registerRepeater now millis auto_start = Repeater_millis now millis auto_start"

definition newCapnpMessageBuilder :: "node \<Rightarrow> builder" where
  "newCapnpMessageBuilder nd = SmartCapnpBuilder (nd_pool nd)"

section \<open>Stopping a node\<close>

text \<open>
  A node that is told to stop comes to a stop, whatever the handlers before and after do and post: the loop returns
  at the latest after the handler that calls \<open>stop\<close>, so no handler queued behind it runs.
\<close>

theorem node_stops:
  assumes "\<And>nd. exec stopper nd = (Node_stop nd, posted)"
  shows "\<exists>nd' rest more. Node_run exec (before @ Node_post stopper [] @ after) nd = Some (nd', rest @ after @ more) \<and>
    nd_ios_stopped nd'"
proof (induction before arbitrary: nd after)
  case Nil
  have "Node_run exec (stopper # after) nd = Some (nd, [stopper] @ after)" if "nd_ios_stopped nd"
    using that by (simp add: Node_run.simps)
  moreover have "Node_run exec (stopper # after) nd = Some (Node_stop nd, after @ posted)" if "\<not> nd_ios_stopped nd"
    using that assms by (simp add: Node_run.simps [of _ "stopper # after"])
      (simp add: Node_run.simps Node_stop_def)
  moreover have "\<exists>rest more. stopper # after = rest @ after @ more" "\<exists>rest more. after @ posted = rest @ after @ more"
    by (rule exI [of _ "[stopper]"], simp) (rule exI [of _ "[]"], simp)
  ultimately show ?case
    by (cases "nd_ios_stopped nd") (simp_all add: Node_post_def Node_stop_def)
next
  case (Cons h before)
  obtain nd1 new where h: "exec h nd = (nd1, new)" by fastforce
  show ?case
  proof (cases "nd_ios_stopped nd")
    case True
    then show ?thesis
      by (intro exI [of _ nd] exI [of _ "h # before @ [stopper]"] exI [of _ "[]"]) (simp add: Node_run.simps Node_post_def)
  next
    case False
    then have "Node_run exec ((h # before) @ Node_post stopper [] @ after) nd = Node_run exec (before @ Node_post stopper [] @ (after @ new)) nd1"
      by (simp add: Node_run.simps [of _ "h # before @ Node_post stopper [] @ after"] h)
    with Cons.IH [of "after @ new" nd1] show ?thesis by fastforce
  qed
qed

section \<open>From a publisher to a subscriber\<close>

lemma typeOf_types_ok: "types_ok [typeOf T]"
proof -
  have "\<not> isdigit c \<Longrightarrow> c \<notin> set (typeOf T)" for c unfolding typeOf_def using to_string_digits by blast
  then have "SEP \<notin> set (typeOf T)" "CHR '' '' \<notin> set (typeOf T)" "NUL \<notin> set (typeOf T)" "CHR ''.'' \<notin> set (typeOf T)"
    by (simp_all add: isdigit_def)
  then show ?thesis by (auto simp: types_ok_def NO_TYPES_def typeOf_def)
qed

lemma observed_announcement:
  assumes receiver: "dir_ok env d" "g \<noteq> d_guid d"
    and words: "wire_word g" "wire_word name" "name \<noteq> []" "wire_word address" "address \<noteq> []"
      "types_ok ins" "types_ok outs"
    and type: "fromType type = Inr tname"
    and net: "onNetwork (en_inet_addr env) (en_own env) (ad_ip (Address_parse address))"
    and printable: "list_all isprint (packet_text g DISCOVERY_AVAILABLE (topic_info name tname address ins outs))"
    and short: "length (packet_text g DISCOVERY_AVAILABLE (topic_info name tname address ins outs)) < EVENT_BUFFER_SIZE"
    and unknown: "registered (d_topics d) name g = None"
  shows "\<exists>d' out m t. dir_event env False (packet_text g DISCOVERY_AVAILABLE (topic_info name tname address ins outs)) d
      = Some (Inr (d', out)) \<and>
    map_of (ts_network_topics (d_topics d')) name = Some m \<and> (g, t) \<in> set m \<and> dt_address t = address \<and>
    dt_timestamp t = en_now env \<and> registered (d_topics d') name = (registered (d_topics d) name)(g \<mapsto> t) \<and>
    (\<forall>ob. (name, ob) \<in> set (ts_observers (d_topics d)) \<longrightarrow> Called (ob_handler ob, name, m) \<in> set out)"
proof -
  obtain d' out t where ev: "dir_event env False (packet_text g DISCOVERY_AVAILABLE (topic_info name tname address ins outs)) d
      = Some (Inr (d', out))" "dt_name t = name" "dt_address t = address" "dt_guid t = g"
    "registered (d_topics d') = (\<lambda>n h. if n = name \<and> h = g \<and> \<not> unchanged t (d_topics d)
      then Some t else registered (d_topics d) n h)"
    "out = map Called (if unchanged t (d_topics d) then []
      else callObservers (d_topics d) name (gmap (d_topics d') name)) @ [Receive]" "dt_timestamp t = en_now env"
    using available_event [OF receiver words type net printable short] by blast
  have new: "\<not> unchanged t (d_topics d)" using unknown ev(2,4) by (simp add: unchanged_def)
  then have "(g, t) \<in> set (gmap (d_topics d') name)"
    using fun_cong [OF fun_cong [OF ev(5)], of name g] by (auto simp: registered_def intro: map_of_SomeD)
  moreover from this have "map_of (ts_network_topics (d_topics d')) name = Some (gmap (d_topics d') name)"
    by (cases "map_of (ts_network_topics (d_topics d')) name") (auto simp: net_get_def)
  moreover have "Called (ob_handler ob, name, gmap (d_topics d') name) \<in> set out"
    if "(name, ob) \<in> set (ts_observers (d_topics d))" for ob
    using that new unfolding ev(6) by (force simp: callObservers_def Let_def equal_range_def)
  moreover have "registered (d_topics d') name = (registered (d_topics d) name)(g \<mapsto> t)"
    using new by (auto simp: ev(5))
  ultimately show ?thesis using ev(1,3,7) by blast
qed

text \<open>A new server announces itself in one packet.\<close>

lemma make_Server_packet:
  assumes "dir_ok env d" and "fromType type = Inr tname"
    and "make_Server env zbind type className name ins outs address d = Inr (sv, d', out)"
  defines "info \<equiv> topic_info name tname (sv_address sv) ins outs"
  shows "packets out = [packet_text (d_guid d) DISCOVERY_AVAILABLE info]"
    and "length (packet_text (d_guid d) DISCOVERY_AVAILABLE info) < EVENT_BUFFER_SIZE"
proof -
  obtain d0 port where d0: "nextServerPort d = (d0, port)" by fastforce
  note f = nextServerPort_fields [OF d0]
  from assms(3) obtain d1 mine where add: "dir_add env name type (sv_address sv) ins outs (d_guid d0) d0 = Inr (d1, out, mine)"
    by (auto simp: make_Server_cases d0 f split: option.splits)
  from dir_add_own [OF _ add] assms(1,2) f show "packets out = [packet_text (d_guid d) DISCOVERY_AVAILABLE info]"
    "length (packet_text (d_guid d) DISCOVERY_AVAILABLE info) < EVENT_BUFFER_SIZE"
    by (auto simp: packets_called info_def)
qed

lemma registerCapnpPublisher_packet:
  assumes "dir_ok env (nd_directory a)" and "registerCapnpPublisher env zbind T topic a = Inr (sv, a', out)"
  defines "g \<equiv> d_guid (nd_directory a)"
  defines "info \<equiv> topic_info (Topic_str topic) ''PUB'' (sv_address sv) [] [typeOf T]"
  shows "packets out = [packet_text g DISCOVERY_AVAILABLE info]"
    and "length (packet_text g DISCOVERY_AVAILABLE info) < EVENT_BUFFER_SIZE"
proof -
  have "fromType 1 = Inr ''PUB''" by (simp add: fromType_def socket_types_def)
  then show "packets out = [packet_text g DISCOVERY_AVAILABLE info]"
    "length (packet_text g DISCOVERY_AVAILABLE info) < EVENT_BUFFER_SIZE"
    using make_Server_packet [OF assms(1)] assms(2)
    by (auto simp: registerCapnpPublisher_def make_Publisher_def g_def info_def)
qed

lemma registerCapnpSubscriber_observes:
  assumes "registerCapnpSubscriber uuid h topic b = (sb, b', out)"
  shows "sb = Inr \<lparr>sb_client = Client_topic ''Subscriber'' (Topic_str topic) False False, sb_ref = uuid,
      sb_socket = armed False, sb_prefixes = [[]]\<rparr>"
    and "Posted (Topic_str topic) h \<in> set out"
    and "d_topics (nd_directory b') = fst (ts_observe uuid (Topic_str topic) h (d_topics (nd_directory b)))"
    and "d_guid (nd_directory b') = d_guid (nd_directory b)"
    and "dir_ok env (nd_directory b) \<Longrightarrow> dir_ok env (nd_directory b')"
proof -
  let ?s = "fst (ts_observe uuid (Topic_str topic) h (d_topics (nd_directory b)))"
  have r: "sb = Inr \<lparr>sb_client = Client_topic ''Subscriber'' (Topic_str topic) False False, sb_ref = uuid,
      sb_socket = armed False, sb_prefixes = [[]]\<rparr>" "Posted (Topic_str topic) h \<in> set out"
    "nd_directory b' = (nd_directory b)\<lparr>d_topics := ?s, d_timer_active := True, d_interval := QUERY_INTERVAL\<rparr>"
    using assms by (auto simp: registerCapnpSubscriber_def make_Subscriber_def Client_observe_def dir_observe_def
        ts_observe_def startQueryTimer_def Listener_def Socket_receive_def Socket_def armed_def Let_def)
  then show "sb = Inr \<lparr>sb_client = Client_topic ''Subscriber'' (Topic_str topic) False False, sb_ref = uuid,
      sb_socket = armed False, sb_prefixes = [[]]\<rparr>" "Posted (Topic_str topic) h \<in> set out"
    "d_topics (nd_directory b') = ?s" "d_guid (nd_directory b') = d_guid (nd_directory b)"
    by simp_all
  assume "dir_ok env (nd_directory b)"
  with r(3) send_inv_fields [of "nd_directory b'" "nd_directory b"] show "dir_ok env (nd_directory b')"
    using ts_observe_ok by (auto simp: dir_ok_def ts_observe_def env_ok_def send_inv_def)
qed

text \<open>A new client connects to every address of the map it is called with.\<close>

lemma Client_topic_connects:
  assumes "e \<in> set m"
  shows "\<exists>c' out. Client_onDirectoryTopicsChanged m (Client_topic cn n hc hdc) = Inr (c', out) \<and>
    dt_address (snd e) \<in> set (connections out) \<and> set (cl_addresses c') = topic_addresses m"
  using Client_topics_known [of "Client_topic cn n hc hdc" m] assms
  by (auto simp: client_ok_def Client_topic_def topic_addresses_def)

text \<open>
  What the application of a subscriber of type \<open>T\<close> is told when the messages \<open>mss\<close> are published: those that pass its
  filters cross the socket and go to the handler \<open>registerCapnpSubscriber\<close> installs.
\<close>

definition received ::
  "(u64 list \<Rightarrow> 'r result) \<Rightarrow> u64 \<Rightarrow> ('r \<Rightarrow> fault option) \<Rightarrow> subscriber \<Rightarrow> message_vector list \<Rightarrow> 'r handled list" where
  "received parse T throws sb mss =
     (let frames = concat (map (\<lambda>ms. fst (Socket_send (\<lambda>i. None) ms)) (filter (passes (sb_prefixes sb)) mss));
          (s, out) = run (socket_step (Listener_onMessage (\<lambda>m. False) False)) (sb_socket sb) (map Inr frames)
      in concat (map (subscriber_handler parse T throws) (deliveries out)))"

lemma received_all:
  assumes "sb_socket sb = armed False" and "sb_prefixes sb = [[]]"
    and "\<And>body. body \<in> set bodies \<Longrightarrow> body \<noteq> [] \<and> length body mod WORD_SIZE = 0"
  shows "received parse T throws sb (map (getSmartMessage i) bodies) =
    concat (map (\<lambda>body. case getRoot parse T \<lparr>cr_id = i, cr_buffer = words_of_bytes body\<rparr> of
      Inl e \<Rightarrow> if thrown e then [Reported e] else [Undefined e]
    | Inr r \<Rightarrow> Handled r # (case throws r of None \<Rightarrow> [] | Some e \<Rightarrow> [Reported e])) bodies)"
proof -
  let ?mss = "map (getSmartMessage i) bodies"
  have "le_bytes 8 n \<noteq> []" for n by (metis length_le_bytes list.size(3) zero_neq_numeral)
  then have parts: "filter (\<lambda>m. m \<noteq> []) ms = ms \<and> passes [[]] ms" if "ms \<in> set ?mss" for ms
    using that assms(3) by (auto simp: getSmartMessage_def passes_def)
  have "filter (passes [[]]) ?mss = ?mss" "map (filter (\<lambda>m. m \<noteq> [])) ?mss = ?mss"
    using parts by (auto intro!: filter_True map_idI)
  moreover obtain out where "run (socket_step (Listener_onMessage (\<lambda>m. False) False)) (armed False)
      (map Inr (concat (map frames_of ?mss))) = (armed False, out)" "deliveries out = map (filter (\<lambda>m. m \<noteq> [])) ?mss"
    using listener.message_sequence [of ?mss False] by auto
  moreover have "subscriber_handler parse T throws (getSmartMessage i body) =
      (case getRoot parse T \<lparr>cr_id = i, cr_buffer = words_of_bytes body\<rparr> of
        Inl e \<Rightarrow> if thrown e then [Reported e] else [Undefined e]
      | Inr r \<Rightarrow> Handled r # (case throws r of None \<Rightarrow> [] | Some e \<Rightarrow> [Reported e]))" if "body \<in> set bodies" for body
    using reader_of_message [of body i] assms(3) [OF that] by (simp add: subscriber_handler_def capnp_root_def)
  ultimately show ?thesis
    unfolding received_def assms(1,2) Socket_send_ok [OF refl] fst_conv
    by (simp add: comp_def cong: map_cong)
qed

lemma received_parsed:
  assumes "sb_socket sb = armed False" and "sb_prefixes sb = [[]]"
    and "\<forall>body \<in> set bodies. body \<noteq> [] \<and> length body mod WORD_SIZE = 0"
  shows "received parse T (\<lambda>r. None) sb (map (getSmartMessage T) bodies) =
    map (\<lambda>body. case parse (words_of_bytes body) of
      Inr r \<Rightarrow> Handled r | Inl e \<Rightarrow> if thrown e then Reported e else Undefined e) bodies"
proof -
  have single: "concat (map f bodies) = map g bodies" if "\<And>body. f body = [g body]" for f :: "message \<Rightarrow> 'a handled list" and g
    using that by (induction bodies) auto
  have "received parse T (\<lambda>r. None) sb (map (getSmartMessage T) bodies) =
    concat (map (\<lambda>body. case getRoot parse T \<lparr>cr_id = T, cr_buffer = words_of_bytes body\<rparr> of
      Inl e \<Rightarrow> if thrown e then [Reported e] else [Undefined e]
    | Inr r \<Rightarrow> Handled r # (case None of None \<Rightarrow> [] | Some e \<Rightarrow> [Reported e])) bodies)"
    using assms(3) by (intro received_all [OF assms(1,2)]) blast
  also have "\<dots> = map (\<lambda>body. case parse (words_of_bytes body) of
      Inr r \<Rightarrow> Handled r | Inl e \<Rightarrow> if thrown e then Reported e else Undefined e) bodies"
    by (rule single) (simp add: getRoot_def split: sum.split)
  finally show ?thesis .
qed

text \<open>
  C11: A publisher and a subscriber on the same topic find each other, in whatever order they come.
  A node registers a publisher, which sends one packet; another node on the same network, which does
  not know this publisher yet, registers a subscriber. If the packet arrives after the subscriber
  was registered, the subscriber's handler is called with it; if it arrived before, the handler is
  called by the work posted at registration. Either way the subscriber connects to the endpoint the
  publisher is bound to, and from then on every message of the publisher's type that can be parsed is handed to the
  application's handler, once and in order, none kept back by a filter; parse errors are reported.
\<close>

theorem publisher_reaches_subscriber:
  fixes parse :: "u64 list \<Rightarrow> 'r result"
  assumes publisher: "dir_ok env1 (nd_directory a)"
      "registerCapnpPublisher env1 zbind T topic a = Inr (sv, a', out1)" "packet \<in> set (packets out1)"
    and words: "wire_word (d_guid (nd_directory a))" "wire_word (Topic_str topic)" "Topic_str topic \<noteq> []"
      "wire_word (sv_address sv)" "sv_address sv \<noteq> []" "list_all isprint packet"
    and subscriber: "dir_ok env2 (nd_directory b)" "d_guid (nd_directory b) \<noteq> d_guid (nd_directory a)"
      "onNetwork (en_inet_addr env2) (en_own env2) (ad_ip (Address_parse (sv_address sv)))"
      "registered (d_topics (nd_directory b)) (Topic_str topic) (d_guid (nd_directory a)) = None"
  defines "connects \<equiv> \<lambda>sb m. \<exists>c' out. Client_onDirectoryTopicsChanged m (sb_client sb) = Inr (c', out) \<and>
      sv_address sv \<in> set (connections out) \<and> set (cl_addresses c') = topic_addresses m \<and>
      (\<forall>bodies. (\<forall>body \<in> set bodies. body \<noteq> [] \<and> length body mod WORD_SIZE = 0) \<longrightarrow>
        received parse T (\<lambda>r. None) sb (map (getSmartMessage T) bodies) =
          map (\<lambda>body. case parse (words_of_bytes body) of
            Inr r \<Rightarrow> Handled r | Inl e \<Rightarrow> if thrown e then Reported e else Undefined e) bodies)"
  shows "(\<exists>sb b' o2 d out m. registerCapnpSubscriber uuid h topic b = (Inr sb, b', o2) \<and>
      dir_event env2 False packet (nd_directory b') = Some (Inr (d, out)) \<and>
      Called (h, Topic_str topic, m) \<in> set out \<and> connects sb m) \<and>
    (\<exists>d out sb b' o2 m. dir_event env2 False packet (nd_directory b) = Some (Inr (d, out)) \<and>
      registerCapnpSubscriber uuid h topic (b\<lparr>nd_directory := d\<rparr>) = (Inr sb, b', o2) \<and>
      Posted (Topic_str topic) h \<in> set o2 \<and>
      dir_posted (Topic_str topic) h (nd_directory b') = [Called (h, Topic_str topic, m)] \<and> connects sb m)"
proof -
  let ?g = "d_guid (nd_directory a)" and ?n = "Topic_str topic"
  let ?p = "packet_text ?g DISCOVERY_AVAILABLE (topic_info ?n ''PUB'' (sv_address sv) [] [typeOf T])"
  have type: "fromType 1 = Inr ''PUB''" by (simp add: fromType_def socket_types_def)
  have p: "packet = ?p" "length ?p < EVENT_BUFFER_SIZE"
    using registerCapnpPublisher_packet [OF publisher(1,2)] publisher(3) by auto
  note arrives = observed_announcement [OF _ _ words(1-5) _ typeOf_types_ok [of T] type subscriber(3)
      words(6) [unfolded p] p(2), folded p(1)]
  have nil: "types_ok []" by (simp add: types_ok_def NO_TYPES_def)
  have con: "connects sb m" if "(g, t) \<in> set m" "dt_address t = sv_address sv"
      "sb = \<lparr>sb_client = Client_topic ''Subscriber'' ?n False False, sb_ref = uuid, sb_socket = armed False, sb_prefixes = [[]]\<rparr>"
    for sb m g t
    using Client_topic_connects [OF that(1), of "''Subscriber''" ?n False False] that(2,3) received_parsed [of sb]
    by (auto simp: connects_def)
  obtain sb b' o2 where r1: "registerCapnpSubscriber uuid h topic b = (sb, b', o2)" by (metis prod_cases3)
  note o1 = registerCapnpSubscriber_observes [OF r1]
  have obs: "(?n, \<lparr>ob_handler = h, ob_ref = uuid\<rparr>) \<in> set (ts_observers (d_topics (nd_directory b')))"
    unfolding o1(3) by (simp add: ts_observe_def set_mmap_emplace)
  have unk: "registered (d_topics (nd_directory b')) ?n ?g = None"
    using subscriber(4) unfolding o1(3) by (simp add: ts_observe_def registered_def)
  obtain d out m t where first: "dir_event env2 False packet (nd_directory b') = Some (Inr (d, out))"
    "(?g, t) \<in> set m" "dt_address t = sv_address sv" "Called (h, ?n, m) \<in> set out"
    using arrives [OF o1(5) [OF subscriber(1)] _ nil unk] subscriber(2) obs unfolding o1(4) by fastforce
  obtain d2 out2 m2 t2 where second: "dir_event env2 False packet (nd_directory b) = Some (Inr (d2, out2))"
    "map_of (ts_network_topics (d_topics d2)) ?n = Some m2" "(?g, t2) \<in> set m2" "dt_address t2 = sv_address sv"
    using arrives [OF subscriber(1) _ nil subscriber(4)] subscriber(2) by fastforce
  obtain sb2 b2 o3 where r2: "registerCapnpSubscriber uuid h topic (b\<lparr>nd_directory := d2\<rparr>) = (sb2, b2, o3)"
    by (metis prod_cases3)
  note o2 = registerCapnpSubscriber_observes [OF r2]
  have "dir_posted ?n h (nd_directory b2) = [Called (h, ?n, m2)]"
    unfolding dir_posted_def o2(3) using second(2) by (simp add: ts_callImmediate_def ts_observe_def)
  with first second r1 r2 o1(1) o2(1,2) con [OF first(2,3) refl] con [OF second(3,4) refl] show ?thesis by blast
qed

definition example_node :: "string \<Rightarrow> node" where
  "example_node guid = \<lparr>nd_name = guid, nd_pool = BufferPool 500000 512 64 False, nd_directory = example_dir guid,
     nd_signaled_shutdown = False, nd_ios_stopped = False\<rparr>"

definition example_topic_name :: Topic where
  "example_topic_name = \<lparr>tp_device_name = [], tp_node_name = ''n'', tp_topic = ''t''\<rparr>"

lemma example_publisher:
  "\<exists>sv a' out. registerCapnpPublisher example_env (\<lambda>a. Some ''tcp://x:1'') 42 example_topic_name (example_node ''a'')
     = Inr (sv, a', out) \<and> sv_address sv = ''tcp://x:1'' \<and> packets out = [''DISPATCH a A n/t PUB tcp://x:1 . 42'']"
proof -
  let ?d = "example_dir ''a''"
  have n: "Topic_str example_topic_name = ''n/t''"
    by (simp add: example_topic_name_def Topic_str_def append_part_def)
  have g: "d_guid ?d = ''a''" "d_next_port ?d = 0" by (simp_all add: example_dir_def)
  have port: "nextServerPort ?d = (?d, 0)" by (simp add: nextServerPort_def g)
  have type: "fromType 1 = Inr ''PUB''" by (simp add: fromType_def socket_types_def)
  have "ts_findLocal ''n/t'' (d_topics ?d) = None"
    by (simp add: ts_findLocal_def example_dir_def DirectoryTopicStore_def)
  note own = dir_add_own_ok [OF example_dir_ok(1) this type, of "''tcp://x:1''" "[]" "[''42'']", unfolded g]
  have p: "packet_text ''a'' DISCOVERY_AVAILABLE (topic_info ''n/t'' ''PUB'' ''tcp://x:1'' [] [''42'']) =
      ''DISPATCH a A n/t PUB tcp://x:1 . 42''"
    by (simp add: packet_text_def topic_info_def DISPATCH_def writeTypes_def NO_TYPES_def)
  have ty: "typeOf 42 = ''42''" by (simp add: typeOf_def to_string.simps digit_char_def) (code_simp)
  obtain d1 cs buf where "dir_add example_env ''n/t'' 1 ''tcp://x:1'' [] [''42''] ''a'' ?d = Inr (d1, map Called cs @
      [Send_To buf ''DISPATCH a A n/t PUB tcp://x:1 . 42''], True)"
    using own [OF _ refl] by (auto simp: p)
  then show ?thesis
    by (simp add: registerCapnpPublisher_def make_Publisher_def make_Server_cases n ty bound_endpoint_def port g
        example_node_def packets_called)
qed

theorem publisher_reaches_subscriber_witness:
  "\<exists>sb b' o2 d out m.
     registerCapnpSubscriber ''u'' 7 example_topic_name (example_node ''b'') = (Inr sb, b', o2) \<and>
     dir_event example_env False ''DISPATCH a A n/t PUB tcp://x:1 . 42'' (nd_directory b') = Some (Inr (d, out)) \<and>
     Called (7, ''n/t'', m) \<in> set out"
proof -
  obtain sv a' out where pub: "registerCapnpPublisher example_env (\<lambda>a. Some ''tcp://x:1'') 42 example_topic_name (example_node ''a'')
     = Inr (sv, a', out)" "sv_address sv = ''tcp://x:1''" "packets out = [''DISPATCH a A n/t PUB tcp://x:1 . 42'']"
    using example_publisher by blast
  have n: "Topic_str example_topic_name = ''n/t''"
    by (simp add: example_topic_name_def Topic_str_def append_part_def)
  have d: "nd_directory (example_node g) = example_dir g" "d_guid (example_dir g) = g" for g
    by (simp_all add: example_node_def example_dir_def)
  have unk: "registered (d_topics (example_dir ''b'')) ''n/t'' ''a'' = None"
    by (simp add: example_dir_def DirectoryTopicStore_def registered_def net_get_def)
  have "onNetwork (en_inet_addr example_env) (en_own example_env) (ad_ip (Address_parse ''tcp://x:1''))"
    by (simp add: onNetwork_def example_env_def)
  from publisher_reaches_subscriber [OF _ pub(1), where packet = "''DISPATCH a A n/t PUB tcp://x:1 . 42''" and ?env2.0 = example_env
      and b = "example_node ''b''" and uuid = "''u''" and h = 7 and parse = Inr, unfolded pub n d, OF example_dir_ok(1) _ _ _ _ _ _ _ example_dir_ok(1) _ this unk]
  show ?thesis by (auto simp: wire_word_def isprint_def)
qed

end
