(* ===== verification/Connections.thy ===== *)
theory Connections
  imports Observers Nodes
begin

text \<open>
  Clients on the network: a node of \<open>Discovery_Network\<close> with one of its clients (\<open>Client\<close> and \<open>RequestClient\<close> of
  \<open>src/a17/dispatch\<close>), which its directory calls as an observer. The locale \<open>topic_client\<close> is what the directory expects of a
  client; both kinds of clients provide it, and so their connections follow what the other nodes offer.
\<close>

section \<open>Steps of the network with what they do\<close>

inductive net_does :: "bool \<Rightarrow> (string \<Rightarrow> env) \<Rightarrow> network \<Rightarrow> string \<Rightarrow> dir_out list \<Rightarrow> network \<Rightarrow> bool" for lossy envs where
  joins: "\<lbrakk>d_guid d \<notin> set (net_joined s); boots (envs (d_guid d)) d\<rbrakk> \<Longrightarrow> net_does lossy envs s (d_guid d) []
    (s\<lparr>net_dir := (net_dir s)(d_guid d \<mapsto> d), net_chan := cut_off (d_guid d) (net_chan s),
       net_joined := net_joined s @ [d_guid d]\<rparr>)"
| leaves: "\<lbrakk>net_dir s g = Some d; dir_destroy d = [Send_Now p]\<rbrakk> \<Longrightarrow> net_does lossy envs s g []
    (s\<lparr>net_dir := (net_dir s)(g := None),
       net_chan := cut_off g (post (net_dir s) g [p] (net_chan s))\<rparr>)"
| calls: "\<lbrakk>net_dir s g = Some d; do_call ((envs g)\<lparr>en_now := now\<rparr>) c d = Inr (d', out); call_ok lossy envs c out\<rbrakk>
    \<Longrightarrow> net_does lossy envs s g out
      (multicast g out (s\<lparr>net_dir := (net_dir s)(g \<mapsto> d'), net_offered := net_offered s \<union> offers d'\<rparr>))"
| receives: "\<lbrakk>net_dir s h = Some d; net_chan s g h = p # ps;
    dir_event ((envs h)\<lparr>en_now := now\<rparr>) False p d = Some (Inr (d', out))\<rbrakk> \<Longrightarrow> net_does lossy envs s h out
      (multicast h out (s\<lparr>net_dir := (net_dir s)(h \<mapsto> d'), net_chan := set_chan g h ps (net_chan s)\<rparr>))"
| disturbs: "\<lbrakk>lossy; set ps \<subseteq> set (net_chan s g h)\<rbrakk> \<Longrightarrow> net_does lossy envs s h []
    (s\<lparr>net_chan := set_chan g h ps (net_chan s)\<rparr>)"

lemma net_does_step: "net_does lossy envs s g out s' \<Longrightarrow> net_step lossy envs s s'"
  by (induction rule: net_does.induct) (auto intro: net_step.intros net_deliver.intros)

lemma net_step_does:
  assumes "net_step lossy envs s s'"
  shows "\<exists>g out. net_does lossy envs s g out s'"
  using assms
proof cases
  case delivery
  then show ?thesis by cases (blast intro: net_does.receives)
qed (blast intro: net_does.intros)+

text \<open>The labelled steps are those of the network.\<close>

lemma net_step_iff: "net_step lossy envs s s' \<longleftrightarrow> (\<exists>g out. net_does lossy envs s g out s')"
  using net_does_step net_step_does by blast

section \<open>A client and its node\<close>

text \<open>
  The maps a handler \<open>k\<close> is called with, whatever the topic, and that \<open>k\<close> is registered for the topic \<open>n\<close> alone, which is not the
  empty name (observers of the empty name hear of all topics).
\<close>

definition heard :: "nat \<Rightarrow> call list \<Rightarrow> guid_topic_map list" where
  "heard k cs = map (\<lambda>(k', n, m). m) (filter (\<lambda>(k', n, m). k' = k) cs)"

definition listens :: "topic_store \<Rightarrow> nat \<Rightarrow> string \<Rightarrow> bool" where
  "listens s k n \<longleftrightarrow> n \<noteq> [] \<and> watched s k n \<and> (\<forall>(n', ob) \<in> set (ts_observers s). ob_handler ob = k \<longrightarrow> n' = n)"

text \<open>
  A client of the node \<open>h\<close> with the handler \<open>k\<close> for the topic \<open>n\<close>, from its construction on and as long as it lives: the state of the
  network, the work the directory of \<open>h\<close> has posted and the client. \<open>changed\<close> is the handler, \<open>own\<close> what the client does otherwise.
  The constructor registers the handler, which posts its first call. Then the rest of the network goes on, the
  directory of \<open>h\<close> takes calls and packets and calls the handler, posted work is done in order, and the client acts. While the client lives
  its node does not leave and its handler stays registered for its topic alone, as only its destructor takes the registration back.
\<close>

inductive linked :: "bool \<Rightarrow> (string \<Rightarrow> env) \<Rightarrow> string \<Rightarrow> string \<Rightarrow> nat \<Rightarrow> (guid_topic_map \<Rightarrow> 'c \<Rightarrow> 'c) \<Rightarrow> ('c \<Rightarrow> 'c \<Rightarrow> bool) \<Rightarrow> 'c \<Rightarrow>
    network \<Rightarrow> (string \<times> nat) list \<Rightarrow> 'c \<Rightarrow> bool"
  for lossy envs h n k changed own start where
  construct: "\<lbrakk>(net_step lossy envs)\<^sup>*\<^sup>* net_empty s; net_dir s h = Some d;
    \<forall>(n', ob) \<in> set (ts_observers (d_topics d)). ob_handler ob \<noteq> k; n \<noteq> []; printable_word n;
    dir_observe uuid n k d = (d', out, ref)\<rbrakk> \<Longrightarrow> linked lossy envs h n k changed own start
      (multicast h out (s\<lparr>net_dir := (net_dir s)(h \<mapsto> d'), net_offered := net_offered s \<union> offers d'\<rparr>)) (posts out) start"
| elsewhere: "\<lbrakk>linked lossy envs h n k changed own start s q c; net_does lossy envs s g out s'; g \<noteq> h\<rbrakk> \<Longrightarrow>
    linked lossy envs h n k changed own start s' q c"
| here: "\<lbrakk>linked lossy envs h n k changed own start s q c; net_does lossy envs s h out s'; net_dir s' h = Some d';
    listens (d_topics d') k n\<rbrakk> \<Longrightarrow>
    linked lossy envs h n k changed own start s' (q @ posts out) (fold changed (heard k (called out)) c)"
| posted: "\<lbrakk>linked lossy envs h n k changed own start s ((n', k') # q) c; net_dir s h = Some d\<rbrakk> \<Longrightarrow>
    linked lossy envs h n k changed own start s q (fold changed (heard k (called (dir_posted n' k' d))) c)"
| acts: "\<lbrakk>linked lossy envs h n k changed own start s q c; own c c'\<rbrakk> \<Longrightarrow>
    linked lossy envs h n k changed own start s q c'"

lemma seen_heard:
  "\<forall>(k', n', m) \<in> set cs. k' = k \<longrightarrow> n' = n \<Longrightarrow> seen k n cs m0 = last (m0 # heard k cs)"
proof (induction cs arbitrary: m0)
  case (Cons c cs)
  obtain k' n' m where c: "c = (k', n', m)" by (cases c)
  have "seen k n (c # cs) m0 = seen k n cs (if k' = k then m else m0)"
    using Cons.prems by (auto simp: seen_def c)
  with Cons show ?case by (auto simp: heard_def c)
qed (simp add: heard_def)

text \<open>What the handler of a client hears of a step brings it up to date.\<close>

lemma tells_heard:
  assumes "tells s cs s'" and "listens s k n"
  shows "last (gmap s n # heard k cs) = gmap s' n"
proof -
  have "n' = n" if "(k, n', m) \<in> set cs" for n' m
    using assms that unfolding tells_def listens_def by fastforce
  then have "seen k n cs (gmap s n) = last (gmap s n # heard k cs)" by (intro seen_heard) auto
  with assms show ?thesis by (auto simp: tells_def listens_def)
qed

text \<open>A step at one node leaves the directories of the others alone.\<close>

lemma net_does_elsewhere: "net_does lossy envs s g out s' \<Longrightarrow> g \<noteq> h \<Longrightarrow> net_dir s' h = net_dir s h"
  by (induction rule: net_does.induct) (auto simp: multicast_def)

lemma net_does_here:
  assumes "net_does lossy envs s h out s'" and "(net_step lossy envs)\<^sup>*\<^sup>* net_empty s"
    and "net_dir s h = Some d" and "net_dir s' h = Some d'"
  shows "tells (d_topics d) (called out) (d_topics d')" and "(n, k) \<in> set (posts out) \<Longrightarrow> watched (d_topics d') k n"
proof -
  obtain chan where c: "carried envs s chan" using net_reach_carried [OF assms(2)] by blast
  have ok: "store_ok (d_topics d)" and joined: "h \<in> set (net_joined s)"
    using carriedD(3) [OF c assms(3)] dir_fineD(9) by blast+
  have "tells (d_topics d) (called out) (d_topics d') \<and> ((n, k) \<in> set (posts out) \<longrightarrow> watched (d_topics d') k n)"
    using assms(1)
  proof cases
    case (calls d0 now c d1)
    with do_call_tells [OF ok] assms(3,4) show ?thesis by (auto simp: multicast_def)
  next
    case (receives d0 g p ps now d1)
    with dir_event_tells [OF ok] assms(3,4) show ?thesis by (auto simp: multicast_def)
  qed (use assms(3,4) joined in \<open>auto simp: tells_same\<close>)
  then show "tells (d_topics d) (called out) (d_topics d')"
    "(n, k) \<in> set (posts out) \<Longrightarrow> watched (d_topics d') k n" by auto
qed

section \<open>What a client has to provide\<close>

text \<open>
  \<open>follows m c\<close>: the connections of the client are those for the map \<open>m\<close>. A new client follows the empty map, its handler makes it
  follow a new map, and it does nothing else to its connections.
\<close>

locale topic_client =
  fixes changed :: "guid_topic_map \<Rightarrow> 'c \<Rightarrow> 'c"
    and own :: "'c \<Rightarrow> 'c \<Rightarrow> bool"
    and start :: 'c
    and follows :: "guid_topic_map \<Rightarrow> 'c \<Rightarrow> bool"
  assumes start_follows: "follows [] start"
    and changed_follows: "follows m c \<Longrightarrow> follows m' (changed m' c)"
    and own_follows: "follows m c \<Longrightarrow> own c c' \<Longrightarrow> follows m c'"
begin

lemma fold_follows: "follows m c \<Longrightarrow> follows (last (m # ms)) (fold changed ms c)"
proof (induction ms arbitrary: m c)
  case (Cons m' ms)
  from Cons.IH [OF changed_follows [OF Cons.prems, of m']] show ?case by simp
qed simp

text \<open>The client follows the topics of its directory, or it has heard nothing and its first call is still posted.\<close>

definition current :: "string \<Rightarrow> nat \<Rightarrow> topic_store \<Rightarrow> (string \<times> nat) list \<Rightarrow> 'c \<Rightarrow> bool" where
  "current n k ts q c \<longleftrightarrow> listens ts k n \<and> (\<forall>(n', k') \<in> set q. k' = k \<longrightarrow> n' = n) \<and>
     (follows (gmap ts n) c \<or> (n, k) \<in> set q \<and> follows [] c)"

lemma current_tells:
  assumes "current n k ts q c" and "tells ts cs ts'" and "listens ts' k n"
    and "\<And>n' k'. (n', k') \<in> set ps \<Longrightarrow> watched ts' k' n'"
  shows "current n k ts' (q @ ps) (fold changed (heard k cs) c)"
proof -
  have last: "last (gmap ts n # heard k cs) = gmap ts' n"
    using assms(1) by (intro tells_heard [OF assms(2)]) (simp add: current_def)
  have "n' = n" if p: "(n', k) \<in> set ps" for n'
  proof -
    obtain ob where "(n', ob) \<in> set (ts_observers ts')" "ob_handler ob = k"
      using assms(4) [OF p] by (auto simp: watched_def equal_range_def)
    then show ?thesis using assms(3) by (auto simp: listens_def)
  qed
  moreover have "follows (gmap ts' n) (fold changed (heard k cs) c) \<or>
      (n, k) \<in> set q \<and> follows [] (fold changed (heard k cs) c)"
  proof (cases "heard k cs = [] \<or> follows (gmap ts n) c")
    case True
    with last assms(1) fold_follows [of "gmap ts n" c "heard k cs"] show ?thesis by (auto simp: current_def)
  next
    case False
    then have "follows [] c" using assms(1) by (auto simp: current_def)
    from fold_follows [OF this, of "heard k cs"] False last show ?thesis by (simp split: if_splits)
  qed
  ultimately show ?thesis using assms(1,3) by (auto simp: current_def)
qed

lemma current_posted:
  assumes "current n k ts ((n', k') # q) c" and "store_ok ts"
  shows "current n k ts q (fold changed (heard k (ts_callImmediate n' k' ts)) c)"
proof (cases "k' = k")
  case True
  then have "n' = n" using assms(1) by (auto simp: current_def)
  show ?thesis
  proof (cases "map_of (ts_network_topics ts) n")
    case None
    then have "gmap ts n = []" by (simp add: net_get_def)
    with None assms(1) show ?thesis by (auto simp: current_def ts_callImmediate_def heard_def \<open>n' = n\<close>)
  next
    case (Some m)
    then have "gmap ts n = m" by (rule net_get_Some)
    with Some assms(1) changed_follows [of _ c m] show ?thesis
      by (auto simp: current_def ts_callImmediate_def heard_def \<open>n' = n\<close> True)
  qed
next
  case False
  with assms(1) show ?thesis by (auto simp: current_def ts_callImmediate_def heard_def split: option.splits)
qed

lemma linked_current:
  assumes "linked lossy envs h n k changed own start s q c"
  shows "(net_step lossy envs)\<^sup>*\<^sup>* net_empty s \<and> (\<exists>d. net_dir s h = Some d \<and> current n k (d_topics d) q c)"
  using assms
proof induction
  case (construct s d uuid d' out ref)
  let ?s = "multicast h out (s\<lparr>net_dir := (net_dir s)(h \<mapsto> d'), net_offered := net_offered s \<union> offers d'\<rparr>)"
  have call: "do_call ((envs h)\<lparr>en_now := 0\<rparr>) (Call_Observe uuid n k) d = Inr (d', out)"
    using construct(6) by simp
  have "net_step lossy envs s ?s"
    by (rule net_step.call [where envs = envs, OF construct(2) call]) (use construct(5) in simp)
  moreover have out: "posts out = [(n, k)]" "d_topics d' = fst (ts_observe uuid n k (d_topics d))"
    using construct(6) by (auto simp: dir_observe_def silent_def split: prod.splits dest!: startQueryTimer_silent)
  moreover have "listens (d_topics d') k n"
    using construct(3,4) unfolding out(2)
    by (auto simp: listens_def watched_def ts_observe_def equal_range_def mmap_emplace_def
        dest: set_takeWhileD set_dropWhileD)
  moreover have "net_dir ?s h = Some d'" by (simp add: multicast_def)
  ultimately show ?case using construct(1) start_follows by (auto simp: current_def)
next
  case (elsewhere s q c g out s')
  then show ?case using net_does_elsewhere net_does_step by (metis rtranclp.rtrancl_into_rtrancl)
next
  case (here s q c out s' d')
  then obtain d where d: "net_dir s h = Some d" "current n k (d_topics d) q c" by blast
  have reach: "(net_step lossy envs)\<^sup>*\<^sup>* net_empty s" using here by blast
  note t = net_does_here [OF here(2) reach d(1) here(3)]
  from current_tells [OF d(2) t(1) here(4) t(2)] have "current n k (d_topics d') (q @ posts out) (fold changed (heard k (called out)) c)" .
  with here(3) reach net_does_step [OF here(2)] show ?case by (metis rtranclp.rtrancl_into_rtrancl)
next
  case (posted s n' k' q c d)
  then have cur: "current n k (d_topics d) ((n', k') # q) c" and reach: "(net_step lossy envs)\<^sup>*\<^sup>* net_empty s" by auto
  obtain chan where "carried envs s chan" using net_reach_carried [OF reach] by blast
  then have "store_ok (d_topics d)" using carriedD(3) posted(2) dir_fineD(9) by blast
  from current_posted [OF cur this] reach posted(2) show ?case by (simp add: dir_posted_def)
next
  case (acts s q c c')
  then show ?case using own_follows by (auto simp: current_def)
qed

end

section \<open>Both kinds of clients\<close>

definition rc_changed :: "guid_topic_map \<Rightarrow> request_client \<Rightarrow> request_client" where
  "rc_changed m r = fst (rc_step r (Ev_Topics m))"

text \<open>Requests, replies, errors and timeouts.\<close>

definition rc_acts :: "request_client \<Rightarrow> request_client \<Rightarrow> bool" where
  "rc_acts r r' \<longleftrightarrow> (\<exists>ev. (\<forall>m. ev \<noteq> Ev_Topics m) \<and> r' = fst (rc_step r ev))"

definition rc_follows :: "guid_topic_map \<Rightarrow> request_client \<Rightarrow> bool" where
  "rc_follows m r \<longleftrightarrow> (if m = [] then \<not> rc_connected r else rc_connected r \<and> NewestTopic m = Inr (rc_topic r))"

lemma rc_changed_follows: "rc_follows m' (rc_changed m' r)"
proof (cases "m' = []")
  case False
  then obtain t where "NewestTopic m' = Inr t" by (rule NewestTopic_max)
  with False show ?thesis by (auto simp: rc_follows_def rc_changed_def rc_step_topics rc_connect_def rc_disconnect_def)
qed (simp add: rc_follows_def rc_changed_def rc_step_topics rc_disconnect_def)

lemma rc_acts_keeps:
  assumes "rc_acts r r'"
  shows "rc_connected r' = rc_connected r \<and> (rc_connected r \<longrightarrow> rc_topic r' = rc_topic r)"
proof -
  obtain ev where ev: "\<And>m. ev \<noteq> Ev_Topics m" "r' = fst (rc_step r ev)" using assms by (auto simp: rc_acts_def)
  show ?thesis
  proof (cases ev)
    case Ev_Timeout
    then show ?thesis using ev(2) by (cases "rc_timer r") (auto simp: rc_defs Let_def)
  qed (use ev in \<open>auto simp: rc_defs Let_def\<close>)
qed

interpretation request_link: topic_client rc_changed rc_acts "RequestClient t" rc_follows for t
proof unfold_locales
  show "rc_follows m r'" if "rc_follows m r" "rc_acts r r'" for m r r'
    using that rc_acts_keeps [OF that(2)] by (auto simp: rc_follows_def split: if_splits)
qed (simp_all add: rc_changed_follows, simp add: rc_follows_def RequestClient_def)

text \<open>A client that has run into undefined behaviour stays an error.\<close>

definition Client_changed :: "guid_topic_map \<Rightarrow> client result \<Rightarrow> client result" where
  "Client_changed m c = and_then c (\<lambda>c. and_then (Client_onDirectoryTopicsChanged m c) (\<lambda>(c', out). Inr c'))"

definition Client_acts :: "client result \<Rightarrow> client result \<Rightarrow> bool" where
  "Client_acts c c' \<longleftrightarrow> (\<exists>con dis. c' = and_then c (\<lambda>c. Inr (setConnectionHandlers con dis c)))"

definition Client_follows :: "guid_topic_map \<Rightarrow> client result \<Rightarrow> bool" where
  "Client_follows m c \<longleftrightarrow> (case c of Inl e \<Rightarrow> e = Dangling
     | Inr c \<Rightarrow> client_ok c \<and> set (cl_addresses c) = topic_addresses m)"

interpretation client_link: topic_client Client_changed Client_acts "Inr (Client_topic class topic con dis)" Client_follows
  for "class" topic con dis
proof unfold_locales
  show "Client_follows m' (Client_changed m' c)" if "Client_follows m c" for m m' c
  proof (cases c)
    case (Inr c0)
    then have "client_ok c0" using that by (simp add: Client_follows_def)
    from Client_topics_cases [OF this, of m'] show ?thesis
      by (auto simp: Inr Client_changed_def Client_follows_def split: sum.splits)
  qed (use that in \<open>simp add: Client_changed_def Client_follows_def\<close>)
  show "Client_follows m c'" if "Client_follows m c" "Client_acts c c'" for m c c'
    using that by (cases c) (auto simp: Client_follows_def Client_acts_def setConnectionHandlers_def client_ok_def)
qed (simp add: Client_follows_def Client_topic_def client_ok_def topic_addresses_def)

section \<open>Connections and offers\<close>

text \<open>The addresses in the map of a topic are those the directory knows.\<close>

lemma known_addresses:
  assumes "store_ok (d_topics d)"
  shows "topic_addresses (gmap (d_topics d) n) = {a. \<exists>g. view d g n = Some a}"
proof -
  have ok: "omap_ok (gmap (d_topics d) n)" by (rule store_okD [OF assms])
  have "registered (d_topics d) n g = Some t \<longleftrightarrow> (g, t) \<in> set (gmap (d_topics d) n)" for g t
    unfolding registered_def by (rule map_of_eq_Some_iff) (use omap_ok_distinct [OF ok] in simp)
  then show ?thesis by (force simp: topic_addresses_def view_def)
qed

text \<open>What a directory has of a topic, once it has handled the packets on their way to it.\<close>

lemma quiet_addresses:
  assumes "(net_step False envs)\<^sup>*\<^sup>* net_empty s" and "net_dir s h = Some d" and "\<forall>g. g \<noteq> h \<longrightarrow> net_chan s g h = []"
  shows "topic_addresses (gmap (d_topics d) n) \<subseteq> {a. \<exists>g. net_own s g n = Some a}"
    and "{a. \<exists>g. net_own s g n = Some a \<and> (g = h \<or> before (net_joined s) h g)} \<subseteq> topic_addresses (gmap (d_topics d) n)"
proof -
  obtain chan where c: "carried envs s chan" using net_reach_carried [OF assms(1)] by blast
  have fine: "dir_fine envs h d" using carriedD(3) [OF c assms(2)] by blast
  note known = known_addresses [OF dir_fineD(9) [OF fine], of n]
  have own: "view d h = net_own s h"
    using own_view [OF fine] by (simp add: view_def net_own_def assms(2) fun_eq_iff)
  have "net_own s g n = Some a" if "view d g n = Some a" for g a
  proof (cases "g = h")
    case False
    from quiet_agreement(1) [OF assms(1,2) False] assms(3) False that show ?thesis
      unfolding map_le_def by (metis domI)
  qed (use that own in simp)
  then show "topic_addresses (gmap (d_topics d) n) \<subseteq> {a. \<exists>g. net_own s g n = Some a}" unfolding known by blast
  have "view d g = net_own s g" if "g = h \<or> before (net_joined s) h g" for g
    using that own quiet_agreement(2) [OF assms(1,2)] assms(3) by (cases "g = h") auto
  then have "view d g n = Some a" if "net_own s g n = Some a" "g = h \<or> before (net_joined s) h g" for g a using that by simp
  then show "{a. \<exists>g. net_own s g n = Some a \<and> (g = h \<or> before (net_joined s) h g)} \<subseteq> topic_addresses (gmap (d_topics d) n)"
    unfolding known by blast
qed

lemma rc_follows_address:
  assumes "rc_follows m r"
  shows "rc_connected r \<longleftrightarrow> m \<noteq> []" and "rc_connected r \<Longrightarrow> dt_address (rc_topic r) \<in> topic_addresses m"
proof -
  show "rc_connected r \<longleftrightarrow> m \<noteq> []" using assms by (auto simp: rc_follows_def split: if_splits)
  assume "rc_connected r"
  then have "m \<noteq> []" "NewestTopic m = Inr (rc_topic r)" using assms by (auto simp: rc_follows_def split: if_splits)
  then obtain t where "NewestTopic m = Inr t" "t \<in> snd ` set m" by (metis NewestTopic_max)
  with \<open>NewestTopic m = Inr (rc_topic r)\<close> show "dt_address (rc_topic r) \<in> topic_addresses m"
    by (force simp: topic_addresses_def)
qed

lemma rc_follows_newest:
  assumes "rc_follows m r" and "(g, u) \<in> set m"
  shows "rc_connected r \<and> dt_timestamp u \<le> dt_timestamp (rc_topic r)"
proof -
  have m: "m \<noteq> []" using assms(2) by auto
  then obtain t where t: "NewestTopic m = Inr t" "\<And>u. u \<in> snd ` set m \<Longrightarrow> dt_timestamp u \<le> dt_timestamp t"
    by (metis NewestTopic_max)
  have "u \<in> snd ` set m" using assms(2) by force
  with t assms(1) m show ?thesis by (simp add: rc_follows_def)
qed

section \<open>Deliveries and posted work\<close>

lemma linked_deliver:
  assumes "linked lossy envs h n k changed own start s q c" and "(net_step lossy envs)\<^sup>*\<^sup>* net_empty s"
    and "net_dir s h = Some d" and "listens (d_topics d) k n" and "net_deliver envs s s'"
  shows "\<exists>d' q' c'. linked lossy envs h n k changed own start s' q' c' \<and> net_dir s' h = Some d' \<and> listens (d_topics d') k n"
  using assms(5)
proof cases
  case (deliver b e a p ps now e' out)
  then have does: "net_does lossy envs s b out s'" by (auto intro: net_does.receives)
  show ?thesis
  proof (cases "b = h")
    case True
    obtain chan where "carried envs s chan" using net_reach_carried [OF assms(2)] by blast
    then have "store_ok (d_topics d)" using carriedD(3) assms(3) dir_fineD(9) by blast
    with deliver True assms(3) have "ts_observers (d_topics e') = ts_observers (d_topics d)"
      using dir_event_tells [of d] by auto
    then have l: "listens (d_topics e') k n" using assms(4) by (simp add: listens_def watched_def)
    have e': "net_dir s' h = Some e'" by (simp add: deliver(1) multicast_def True)
    from linked.here [OF assms(1) does [unfolded True] e' l] l e' show ?thesis by blast
  next
    case False
    with linked.elsewhere [OF assms(1) does] net_does_elsewhere [OF does] assms(3,4) show ?thesis by auto
  qed
qed

lemma linked_deliveries:
  assumes "(net_deliver envs)\<^sup>*\<^sup>* s s'" and "linked lossy envs h n k changed own start s q c"
    and "(net_step lossy envs)\<^sup>*\<^sup>* net_empty s" and "net_dir s h = Some d" and "listens (d_topics d) k n"
  shows "\<exists>d' q' c'. linked lossy envs h n k changed own start s' q' c' \<and> net_dir s' h = Some d' \<and> listens (d_topics d') k n"
  using assms(1)
proof induction
  case (step y z)
  then obtain d1 q1 c1 where y: "linked lossy envs h n k changed own start y q1 c1" "net_dir y h = Some d1"
    "listens (d_topics d1) k n" by blast
  have "(net_step lossy envs)\<^sup>*\<^sup>* net_empty y" using assms(3) deliveries_reach [OF step(1)] by (rule rtranclp_trans)
  from linked_deliver [OF y(1) this y(2,3) step(2)] show ?case .
qed (intro exI conjI, rule assms(2), rule assms(4), rule assms(5))

lemma deliveries_members: "(net_deliver envs)\<^sup>*\<^sup>* s s' \<Longrightarrow> net_dir s g \<noteq> None \<Longrightarrow> net_dir s' g \<noteq> None"
  by (induction rule: rtranclp_induct) (auto elim!: net_deliver.cases simp: multicast_def)

lemma linked_posted:
  assumes "linked lossy envs h n k changed own start s q c" and "net_dir s h = Some d"
  shows "\<exists>c'. linked lossy envs h n k changed own start s [] c'"
  using assms(1)
proof (induction q arbitrary: c)
  case (Cons p q)
  obtain n' k' where p: "p = (n', k')" by (cases p)
  from Cons.IH [OF linked.posted [OF Cons.prems [unfolded p] assms(2)]] show ?case .
qed blast

text \<open>The searches of the query timer bring a client of a missing topic up to date.\<close>

context topic_client
begin

lemma linked_search:
  assumes link: "linked False envs h n k changed own start s q c" and h: "net_dir s h = Some d"
    and missing: "\<not> ts_hasTopic n (d_topics d)"
    and timer: "queryMissingTopics ((envs h)\<lparr>en_now := now\<rparr>) False d = Inr (d', out)"
    and g: "g \<noteq> h" "net_own s g n = Some a"
  defines "s1 \<equiv> multicast h out (s\<lparr>net_dir := (net_dir s)(h \<mapsto> d'), net_offered := net_offered s \<union> offers d'\<rparr>)"
  shows "\<exists>s' c'. (net_deliver envs)\<^sup>*\<^sup>* s1 s' \<and> settled s' \<and> linked False envs h n k changed own start s' [] c'"
    and "(net_deliver envs)\<^sup>*\<^sup>* s1 s' \<Longrightarrow> settled s' \<Longrightarrow> linked False envs h n k changed own start s' [] c' \<Longrightarrow>
      \<exists>e. net_dir s' h = Some e \<and> view e g n = Some a \<and> follows (gmap (d_topics e) n) c'"
proof -
  have cur: "(net_step False envs)\<^sup>*\<^sup>* net_empty s" and l: "listens (d_topics d) k n"
    using linked_current [OF link] h by (auto simp: current_def)
  have m: "n \<in> set (ts_getMissing (d_topics d))"
    using missing l by (force simp: getMissing_set listens_def watched_def equal_range_def)
  note found = search_finds [OF cur h m timer g, folded s1_def]
  have call: "do_call ((envs h)\<lparr>en_now := now\<rparr>) (Call_Timer False) d = Inr (d', out)" using timer by simp
  have does: "net_does False envs s h out s1" unfolding s1_def by (rule net_does.calls [where envs = envs, OF h call]) simp
  have s1: "net_dir s1 h = Some d'" by (simp add: s1_def multicast_def)
  have l1: "listens (d_topics d') k n" using l query_silent [OF timer] by (simp add: silent_def)
  have reach1: "(net_step False envs)\<^sup>*\<^sup>* net_empty s1" using cur net_does_step [OF does] by (rule rtranclp.rtrancl_into_rtrancl)
  obtain s2 where s2: "(net_deliver envs)\<^sup>*\<^sup>* s1 s2" "settled s2" using found by blast
  obtain e q2 c2 where "linked False envs h n k changed own start s2 q2 c2" "net_dir s2 h = Some e"
    using linked_deliveries [OF s2(1) linked.here [OF link does s1 l1] reach1 s1 l1] by blast
  from linked_posted [OF this] s2
  show "\<exists>s' c'. (net_deliver envs)\<^sup>*\<^sup>* s1 s' \<and> settled s' \<and> linked False envs h n k changed own start s' [] c'" by blast
  assume s': "(net_deliver envs)\<^sup>*\<^sup>* s1 s'" "settled s'" and link': "linked False envs h n k changed own start s' [] c'"
  obtain e where e: "net_dir s' h = Some e" "follows (gmap (d_topics e) n) c'"
    using linked_current [OF link'] by (auto simp: current_def)
  have own: "net_own s1 g n = Some a" using g by (simp add: s1_def multicast_def net_own_def)
  have "net_dir s1 g \<noteq> None" using own by (auto simp: net_own_def split: option.splits)
  then have "net_dir s' g \<noteq> None" by (rule deliveries_members [OF s'(1)])
  then have "net_chan s' h g = []" "net_chan s' g h = []" using s'(2) e(1) by (auto simp: settled_def)
  with found s'(1) e show "\<exists>e. net_dir s' h = Some e \<and> view e g n = Some a \<and> follows (gmap (d_topics e) n) c'" by auto
qed

end

text \<open>
  The constructor of a request client registers its handler as in \<open>linked\<close>. The destructor takes back the registration but not the
  posted first call: a client that is destroyed before the event loop gets to it is called all the same.
\<close>

lemma posted_call_outlives_client:
  assumes "make_RequestClient uuid k t n d = (r, ref, d1, o1)" and "RequestClient_destroy n ref d1 = (d2, o2)"
    and "map_of (ts_network_topics (d_topics d)) n = Some m"
  shows "r = RequestClient t \<and> dir_observe uuid n k d = (d1, o1, ref) \<and> posts o1 = [(n, k)] \<and>
    dir_posted n k d2 = [Called (k, n, m)]"
  using assms by (auto simp: make_RequestClient_def RequestClient_destroy_def dir_observe_def dir_unobserve_def
      ts_observe_def ts_unobserve_def startQueryTimer_def dir_posted_def ts_callImmediate_def split: prod.splits if_splits)

section \<open>A client in the example network\<close>

text \<open>A client of \<open>v\<close> for the topic that \<open>u\<close> offers and \<open>v\<close> knows; its first call has been made.\<close>

lemma example_link:
  defines "u \<equiv> example_guid ''u''" and "v \<equiv> example_guid ''v''"
  shows "\<exists>s k m. linked lossy (\<lambda>_. example_env) v ''t'' k changed own start s [] (changed m start) \<and> m \<noteq> [] \<and>
    (\<forall>g. g \<noteq> v \<longrightarrow> net_chan s g v = [])"
proof -
  let ?E = "\<lambda>_ :: string. example_env"
  obtain s d t where s: "(net_step lossy ?E)\<^sup>*\<^sup>* net_empty s" "net_dir s v = Some d" "net_chan s u v = []"
    "registered (d_topics d) ''t'' u = Some t" "net_joined s = [v, u]"
    using example_network [of lossy, folded u_def v_def] by blast
  obtain k where "k \<notin> ob_handler ` snd ` set (ts_observers (d_topics d))"
    using ex_new_if_finite [OF infinite_UNIV_nat, of "ob_handler ` snd ` set (ts_observers (d_topics d))"] by auto
  then have k: "\<forall>(n', ob) \<in> set (ts_observers (d_topics d)). ob_handler ob \<noteq> k" by force
  obtain d' out ref where ob: "dir_observe ''r'' ''t'' k d = (d', out, ref)" using prod_cases3 by blast
  have word: "printable_word ''t''" by (simp add: printable_word_def wire_word_def isprint_def)
  have out: "posts out = [(''t'', k)]" "packets out = []" "ts_network_topics (d_topics d') = ts_network_topics (d_topics d)"
    using ob by (auto simp: dir_observe_def ts_observe_def startQueryTimer_def)
  let ?s = "multicast v out (s\<lparr>net_dir := (net_dir s)(v \<mapsto> d'), net_offered := net_offered s \<union> offers d'\<rparr>)"
  have link: "linked lossy ?E v ''t'' k changed own start ?s [(''t'', k)] start"
    using linked.construct [OF s(1,2) k _ word ob] out(1) by fastforce
  have dir: "net_dir ?s v = Some d'" and chan: "net_chan ?s = net_chan s" by (simp_all add: multicast_def post_def out(2) fun_eq_iff)
  obtain m where m: "map_of (ts_network_topics (d_topics d)) ''t'' = Some m" "m \<noteq> []"
    using s(4) by (cases "map_of (ts_network_topics (d_topics d)) ''t''") (fastforce simp: registered_def net_get_def)+
  have "called (dir_posted ''t'' k d') = [(k, ''t'', m)]" using m(1) out(3) by (simp add: dir_posted_def ts_callImmediate_def)
  with linked.posted [OF link dir] have "linked lossy ?E v ''t'' k changed own start ?s [] (changed m start)"
    by (simp add: heard_def)
  moreover have "net_chan s g v = []" if "g \<noteq> v" for g
  proof (rule ccontr)
    assume n: "net_chan s g v \<noteq> []"
    obtain ch where c: "carried ?E s ch" using net_reach_carried [OF s(1)] by blast
    from n obtain x where "x \<in> set (ch g v)" unfolding carriedD(1) [OF c] by (cases "ch g v") auto
    with carriedD(2) [OF c] have "g \<in> set (net_joined s)" by blast
    with s(3,5) that n show False by auto
  qed
  ultimately show ?thesis using m(2) unfolding chan [symmetric] by blast
qed

section \<open>Properties\<close>

text \<open>
  C4: A request client is connected to a server that exists. However the nodes of the network, among them that of the client,
  go on, and whatever requests, replies, errors and timeouts there are: once the packets on their way to its node have been
  handled and its first call is no longer posted, it is connected only to an address that a node offers for its topic at
  this moment, it is connected whenever its own node, or a node that joined after its own, offers the topic, and it is
  connected to the newest of the providers its node knows.
\<close>

theorem request_client_on_network:
  assumes "linked False envs h n k rc_changed rc_acts (RequestClient t) s q r"
    and "(n, k) \<notin> set q" and "\<forall>g. g \<noteq> h \<longrightarrow> net_chan s g h = []"
  shows "(rc_connected r \<longrightarrow> (\<exists>g. net_own s g n = Some (dt_address (rc_topic r)))) \<and>
    (\<forall>g. net_own s g n \<noteq> None \<longrightarrow> g = h \<or> before (net_joined s) h g \<longrightarrow> rc_connected r) \<and>
    (\<forall>d g u. net_dir s h = Some d \<longrightarrow> registered (d_topics d) n g = Some u \<longrightarrow>
       rc_connected r \<and> dt_timestamp u \<le> dt_timestamp (rc_topic r))"
proof -
  obtain d where d: "(net_step False envs)\<^sup>*\<^sup>* net_empty s" "net_dir s h = Some d" "rc_follows (gmap (d_topics d) n) r"
    using request_link.linked_current [OF assms(1)] assms(2) unfolding request_link.current_def by blast
  note quiet = quiet_addresses [OF d(1,2) assms(3), of n] and r = rc_follows_address [OF d(3)]
  have "rc_connected r" if "net_own s g n = Some a" "g = h \<or> before (net_joined s) h g" for g a
    using quiet(2) r(1) that by (force simp: topic_addresses_def)
  moreover have "rc_connected r \<and> dt_timestamp u \<le> dt_timestamp (rc_topic r)" if "registered (d_topics d) n g = Some u" for g u
    using rc_follows_newest [OF d(3)] that by (auto simp: registered_def dest!: map_of_SomeD)
  moreover have "\<exists>g. net_own s g n = Some (dt_address (rc_topic r))" if "rc_connected r" using quiet(1) r(2) [OF that] by blast
  ultimately show ?thesis using d(2) by auto
qed

theorem request_client_on_network_witness:
  "\<exists>s k r g. linked False (\<lambda>_. example_env) (example_guid ''v'') ''t'' k rc_changed rc_acts (RequestClient example_topic) s [] r \<and>
     rc_connected r \<and> net_own s g ''t'' = Some (dt_address (rc_topic r))"
proof -
  obtain s k m where s: "linked False (\<lambda>_. example_env) (example_guid ''v'') ''t'' k rc_changed rc_acts (RequestClient example_topic) s []
      (rc_changed m (RequestClient example_topic))" "m \<noteq> []" "\<forall>g. g \<noteq> example_guid ''v'' \<longrightarrow> net_chan s g (example_guid ''v'') = []"
    using example_link [where lossy = False and changed = rc_changed and own = rc_acts and start = "RequestClient example_topic"] by blast
  have "rc_connected (rc_changed m (RequestClient example_topic))"
    using s(2) by (simp add: rc_follows_address(1) [OF rc_changed_follows])
  with request_client_on_network [OF s(1) _ s(3)] s(1) show ?thesis by fastforce
qed

text \<open>
  C7: Also on a network that drops, repeats and reorders packets a request client is only ever connected to an address that
  some node has offered for its topic.
\<close>

theorem request_client_authentic:
  assumes "linked lossy envs h n k rc_changed rc_acts (RequestClient t) s q r" and "rc_connected r"
  shows "\<exists>g. (g, n, dt_address (rc_topic r)) \<in> net_offered s"
proof -
  obtain d where d: "(net_step lossy envs)\<^sup>*\<^sup>* net_empty s" "net_dir s h = Some d"
    "rc_follows (gmap (d_topics d) n) r \<or> rc_follows [] r"
    using request_link.linked_current [OF assms(1)] unfolding request_link.current_def by blast
  then have "rc_follows (gmap (d_topics d) n) r" using assms(2) by (auto simp: rc_follows_def)
  from rc_follows_address(2) [OF this assms(2)] have in_map: "dt_address (rc_topic r) \<in> topic_addresses (gmap (d_topics d) n)" .
  obtain chan where c: "carried envs s chan" using net_reach_carried [OF d(1)] by blast
  have "store_ok (d_topics d)" using carriedD(3) [OF c d(2)] dir_fineD(9) by blast
  with in_map obtain g where "view d g n = Some (dt_address (rc_topic r))" by (auto simp: known_addresses)
  with carriedD(3) [OF c d(2), of g] show ?thesis by (auto simp: known_def)
qed

theorem request_client_authentic_witness:
  "\<exists>s k r g. linked True (\<lambda>_. example_env) (example_guid ''v'') ''t'' k rc_changed rc_acts (RequestClient example_topic) s [] r \<and>
     rc_connected r \<and> (g, ''t'', dt_address (rc_topic r)) \<in> net_offered s"
proof -
  obtain s k m where s: "linked True (\<lambda>_. example_env) (example_guid ''v'') ''t'' k rc_changed rc_acts (RequestClient example_topic) s []
      (rc_changed m (RequestClient example_topic))" "m \<noteq> []"
    using example_link [where lossy = True and changed = rc_changed and own = rc_acts and start = "RequestClient example_topic"] by blast
  have "rc_connected (rc_changed m (RequestClient example_topic))"
    using s(2) by (simp add: rc_follows_address(1) [OF rc_changed_follows])
  with request_client_authentic [OF s(1)] s(1) show ?thesis by blast
qed

text \<open>
  C5: A client, that is a subscriber or a publishing client, has the right connections. As long as no address it was connected to has
  been withdrawn (which ends in undefined behaviour), once the packets on their way to its node have been handled and its first
  call is no longer posted, it is connected only to addresses that nodes offer for its topic at this moment, and to all
  those that its own node and the nodes that joined after its own offer.
\<close>

theorem client_on_network:
  assumes "linked False envs h n k Client_changed Client_acts (Inr (Client_topic class_name n con dis)) s q (Inr c)"
    and "(n, k) \<notin> set q" and "\<forall>g. g \<noteq> h \<longrightarrow> net_chan s g h = []"
  shows "client_ok c \<and> set (cl_addresses c) \<subseteq> {a. \<exists>g. net_own s g n = Some a} \<and>
    {a. \<exists>g. net_own s g n = Some a \<and> (g = h \<or> before (net_joined s) h g)} \<subseteq> set (cl_addresses c)"
proof -
  obtain d where d: "(net_step False envs)\<^sup>*\<^sup>* net_empty s" "net_dir s h = Some d" "Client_follows (gmap (d_topics d) n) (Inr c)"
    using client_link.linked_current [OF assms(1)] assms(2) unfolding client_link.current_def by blast
  with quiet_addresses [OF d(1,2) assms(3), of n] show ?thesis by (auto simp: Client_follows_def)
qed

theorem client_on_network_witness:
  "\<exists>s k c. linked False (\<lambda>_. example_env) (example_guid ''v'') ''t'' k Client_changed Client_acts
     (Inr (Client_topic ''Subscriber'' ''t'' False False)) s [] (Inr c) \<and>
     set (cl_addresses c) \<noteq> {} \<and> set (cl_addresses c) \<subseteq> {a. \<exists>g. net_own s g ''t'' = Some a}"
proof -
  let ?c = "Client_topic ''Subscriber'' ''t'' False False"
  obtain s k m where s: "linked False (\<lambda>_. example_env) (example_guid ''v'') ''t'' k Client_changed Client_acts (Inr ?c) s []
      (Client_changed m (Inr ?c))" "m \<noteq> []" "\<forall>g. g \<noteq> example_guid ''v'' \<longrightarrow> net_chan s g (example_guid ''v'') = []"
    using example_link [where lossy = False and changed = Client_changed and own = Client_acts and start = "Inr ?c"] by blast
  obtain c out where c: "Client_onDirectoryTopicsChanged m ?c = Inr (c, out)" "set (cl_addresses c) = topic_addresses m"
    using Client_topics_known [of ?c m] by (auto simp: Client_topic_def client_ok_def)
  then have "Client_changed m (Inr ?c) = Inr c" by (simp add: Client_changed_def)
  with s have l: "linked False (\<lambda>_. example_env) (example_guid ''v'') ''t'' k Client_changed Client_acts (Inr ?c) s [] (Inr c)" by simp
  have "set (cl_addresses c) \<noteq> {}" using c(2) s(2) by (simp add: topic_addresses_def)
  with client_on_network [OF l _ s(3)] l show ?thesis by auto
qed

text \<open>
  C18: A client without a server finds one. When the query timer of its node fires while nobody the node knows of provides the topic, and some other node \<open>g\<close>
  offers it, then the packets on their way and the answers are used up by finitely many deliveries, after which the posted work is
  done, and in every state this can lead to the client is connected, to an address a node offers at this moment.
\<close>

theorem request_client_finds_server:
  assumes link: "linked False envs h n k rc_changed rc_acts (RequestClient t) s q r" and h: "net_dir s h = Some d"
    and missing: "\<not> ts_hasTopic n (d_topics d)"
    and timer: "queryMissingTopics ((envs h)\<lparr>en_now := now\<rparr>) False d = Inr (d', out)"
    and g: "g \<noteq> h" "net_own s g n = Some a"
  defines "s1 \<equiv> multicast h out (s\<lparr>net_dir := (net_dir s)(h \<mapsto> d'), net_offered := net_offered s \<union> offers d'\<rparr>)"
  shows "(\<exists>s' r'. (net_deliver envs)\<^sup>*\<^sup>* s1 s' \<and> settled s' \<and> linked False envs h n k rc_changed rc_acts (RequestClient t) s' [] r') \<and>
    (\<forall>s' r'. (net_deliver envs)\<^sup>*\<^sup>* s1 s' \<longrightarrow> settled s' \<longrightarrow> linked False envs h n k rc_changed rc_acts (RequestClient t) s' [] r' \<longrightarrow>
      rc_connected r' \<and> (\<exists>b. net_own s' b n = Some (dt_address (rc_topic r'))))"
proof (intro conjI allI impI)
  note found = request_link.linked_search [OF assms(1-6), folded s1_def]
  show "\<exists>s' r'. (net_deliver envs)\<^sup>*\<^sup>* s1 s' \<and> settled s' \<and> linked False envs h n k rc_changed rc_acts (RequestClient t) s' [] r'"
    by (rule found(1))
  fix s' r'
  assume s': "(net_deliver envs)\<^sup>*\<^sup>* s1 s'" "settled s'" and link': "linked False envs h n k rc_changed rc_acts (RequestClient t) s' [] r'"
  obtain e where e: "net_dir s' h = Some e" "view e g n = Some a" "rc_follows (gmap (d_topics e) n) r'"
    using found(2) [OF s' link'] by blast
  from e(2) have "gmap (d_topics e) n \<noteq> []" by (auto simp: view_def registered_def)
  with rc_follows_address(1) [OF e(3)] show con: "rc_connected r'" by simp
  have "(net_step False envs)\<^sup>*\<^sup>* net_empty s'" using request_link.linked_current [OF link'] by blast
  from quiet_addresses(1) [OF this e(1), of n] s'(2) e(1) rc_follows_address(2) [OF e(3) con]
  show "\<exists>b. net_own s' b n = Some (dt_address (rc_topic r'))" by (auto simp: settled_def)
qed

theorem request_client_finds_server_witness:
  "\<exists>s r. linked False (\<lambda>_. example_env) (example_guid ''v'') ''t'' 3 rc_changed rc_acts (RequestClient example_topic) s [] r \<and>
     rc_connected r"
proof -
  let ?E = "\<lambda>_ :: string. example_env" and ?u = "example_guid ''u''" and ?v = "example_guid ''v''"
  let ?d = "fst (dir_observe ''u'' ''t'' 3 (example_dir ?v))"
  obtain s where s: "(net_step False ?E)\<^sup>*\<^sup>* net_empty s" "net_dir s ?v = Some (example_dir ?v)" "net_own s ?u ''t'' = Some ''tcp://x:1''"
    using example_offered(2) by blast
  obtain o1 ref where ob: "dir_observe ''u'' ''t'' 3 (example_dir ?v) = (?d, o1, ref)" by (metis prod.collapse)
  have new: "\<forall>(n', ob) \<in> set (ts_observers (d_topics (example_dir ?v))). ob_handler ob \<noteq> 3"
    by (simp add: example_dir_def DirectoryTopicStore_def)
  have word: "printable_word ''t''" by (simp add: printable_word_def wire_word_def isprint_def)
  let ?s = "multicast ?v o1 (s\<lparr>net_dir := (net_dir s)(?v \<mapsto> ?d), net_offered := net_offered s \<union> offers ?d\<rparr>)"
  have link: "linked False ?E ?v ''t'' 3 rc_changed rc_acts (RequestClient example_topic) ?s (posts o1) (RequestClient example_topic)"
    by (rule linked.construct [OF s(1,2) new _ word ob]) simp
  have dir: "net_dir ?s ?v = Some ?d" and own: "net_own ?s ?u ''t'' = Some ''tcp://x:1''"
    using s(3) example_guids(1) by (simp_all add: multicast_def net_own_def)
  have missing: "\<not> ts_hasTopic ''t'' (d_topics ?d)"
    using example_observing(2) [OF refl, where g = ?v] getMissing_set [of "d_topics ?d"] by auto
  have env: "example_env\<lparr>en_now := 7\<rparr> = example_env" by (simp add: example_env_def)
  obtain d' out where timer: "queryMissingTopics example_env False ?d = Inr (d', out)" using example_timer by blast
  from request_client_finds_server [where envs = ?E and now = 7, unfolded env, OF link dir missing timer example_guids(1) own]
  show ?thesis by blast
qed

end
