(* ===== verification/Request_Reply.thy ===== *)
theory Request_Reply
  imports Nodes
begin

text \<open>
  A \<open>RequestClient\<close> of one node and a \<open>ReplyServer\<close> of another one: the client finds the server through
  the directories, and its requests cross the sockets and come back as replies. The steps are those of
  \<open>Client_Sockets\<close>, \<open>Msg_Socket\<close>, \<open>Smart_Messages\<close> and \<open>Nodes\<close>, put together.
\<close>

section \<open>Requests and replies\<close>

text \<open>
  The client, the receiving side of its socket, and that of the server. \<open>reply_receiver\<close> stands for
  \<open>RequestClient::sendReplyToHandler\<close> as the handler of the client's socket, which starts no receive.
\<close>

record conversation =
  cv_client :: request_client
  cv_socket :: socket
  cv_server :: socket

definition reply_receiver :: "message_vector \<Rightarrow> socket \<Rightarrow> socket outcome" where
  "reply_receiver message s = Returned s [Deliver message]"

text \<open>
  A call of \<open>request\<close> and what follows: if the request is accepted, its frames reach the server, whose answer
  reaches the client. A request is the number of the reply handler, the message, the error handler
  and the timeout.
\<close>

type_synonym request = "nat \<times> message_vector \<times> nat option \<times> rat"

fun exchange ::
  "(message_vector \<Rightarrow> reply_behaviour) \<Rightarrow> bool \<Rightarrow> (conversation, request, rc_out) reaction" where
  "exchange reply_handler e cv (h, message, eh, timeout) =
     (let (r, o1) = rc_step (cv_client cv) (Ev_Request EC_Ok message (Some h) eh timeout) in
      if RC_Receive \<notin> set o1 then (cv\<lparr>cv_client := r\<rparr>, o1)
      else
        (let (frames, size, ec) = Socket_send (\<lambda>i. None) message;
             (cs, o2) = Socket_receive (eh \<noteq> None) (cv_socket cv);
             (ss, o3) = run (socket_step (onRequest (\<lambda>i. None) reply_handler e)) (cv_server cv) (map Inr frames);
             (cs, o4) = run (socket_step reply_receiver) cs (map Inr (sent_frames o3));
             (r, o5) = run rc_step r (map Ev_Reply (deliveries o4))
         in (\<lparr>cv_client = r, cv_socket = cs, cv_server = ss\<rparr>, o1 @ o5)))"

text \<open>The replies given to the application, and everything it is told of failures.\<close>

definition replies_in :: "rc_out list \<Rightarrow> (nat \<times> message_vector) list" where
  "replies_in out = concat (map (\<lambda>x. case x of RC_Reply h m \<Rightarrow> [(h, m)] | _ \<Rightarrow> []) out)"

definition failures_in :: "rc_out list \<Rightarrow> rc_out list" where
  "failures_in out = filter (\<lambda>x. case x of RC_Error h c \<Rightarrow> True | RC_Bad_Function_Call \<Rightarrow> True
     | RC_Return c \<Rightarrow> c \<noteq> EC_Ok | _ \<Rightarrow> False) out"

lemma out_simps [simp]:
  "replies_in [] = []" "replies_in (RC_Reply h m # out) = (h, m) # replies_in out"
  "replies_in (RC_Return c # out) = replies_in out" "replies_in (RC_Send m # out) = replies_in out"
  "replies_in (RC_Receive # out) = replies_in out" "replies_in (RC_Timer t # out) = replies_in out"
  "replies_in (RC_Timer_Cancel # out) = replies_in out"
  "replies_in (out @ out') = replies_in out @ replies_in out'"
  "failures_in [] = []" "failures_in (out @ out') = failures_in out @ failures_in out'"
  by (simp_all add: replies_in_def failures_in_def)

text \<open>A client that is connected and waits for nothing, and a server that waits for a request.\<close>

definition ready :: "bool \<Rightarrow> conversation \<Rightarrow> bool" where
  "ready e cv \<longleftrightarrow> rc_connected (cv_client cv) \<and> \<not> rc_waiting (cv_client cv) \<and> \<not> rc_receiving (cv_client cv) \<and>
     sk_received (cv_socket cv) = [] \<and> sk_pending (cv_socket cv) = 0 \<and> cv_server cv = armed e"

lemma reply_received:
  "\<exists>out. run (socket_step reply_receiver) (armed e) (map Inr (frames_of ms)) = ((armed e)\<lparr>sk_pending := 0\<rparr>, out) \<and>
     deliveries out = [filter (\<lambda>m. m \<noteq> []) ms]"
proof -
  define ns where "ns = (if ms = [] then [[]] else ms)"
  have ns: "ns \<noteq> []" and f: "filter (\<lambda>m. m \<noteq> []) ns = filter (\<lambda>m. m \<noteq> []) ms" by (simp_all add: ns_def)
  have fr: "map Inr (frames_of ms) = map (\<lambda>m. Inr (m, True)) (butlast ns) @ [Inr (last ns, False)]"
    by (simp add: frames_of_def ns_def Let_def)
  have quiet: "deliveries (replicate n Async_Receive) = []" for n by (induction n) simp_all
  have last: "socket_step reply_receiver (received_so_far e (filter (\<lambda>m. m \<noteq> []) (butlast ns))) (Inr (last ns, False))
      = ((armed e)\<lparr>sk_pending := 0\<rparr>, [Deliver (filter (\<lambda>m. m \<noteq> []) (butlast ns @ [last ns]))])"
    by (simp add: socket_step_def Socket_onReceive_def reply_receiver_def received_so_far_def armed_def Let_def)
  have "received_so_far e [] = armed e" by (simp add: received_so_far_def armed_def)
  with run_more_frames [of reply_receiver e "[]" "butlast ns"] last ns show ?thesis
    by (simp add: fr run_append_simp quiet f)
qed

text \<open>One request.\<close>

lemma exchange_answered:
  assumes cv: "ready e cv" and "[] \<notin> set message" and reply: "reply_handler message = ([reply], False)"
  shows "\<exists>cv' out. exchange reply_handler e cv (h, message, eh, timeout) = (cv', out) \<and> ready e cv' \<and>
    replies_in out = [(h, filter (\<lambda>m. m \<noteq> []) reply)] \<and> failures_in out = []"
proof -
  define b where "b = (eh \<noteq> None)"
  obtain r o1 where o1: "rc_step (cv_client cv) (Ev_Request EC_Ok message (Some h) eh timeout) = (r, o1)"
    "RC_Receive \<in> set o1" "replies_in o1 = []" "failures_in o1 = []"
    and r: "rc_receiving r" "rc_reply_handler r = Some h" "rc_connected r"
    using cv by (cases "timeout > 0") (auto simp: rc_step_def rc_request_def ready_def failures_in_def Let_def)
  have ms: "filter (\<lambda>m. m \<noteq> []) message = message" using assms(2) by (intro filter_True) auto
  obtain o3 where o3: "run (socket_step (onRequest (\<lambda>i. None) reply_handler e)) (armed e) (map Inr (frames_of message)) = (armed e, o3)"
    "sent_frames o3 = frames_of reply"
    using replier.one_message [of reply_handler message e] reply by (auto simp: ms)
  obtain o4 where o4: "run (socket_step reply_receiver) (armed b) (map Inr (frames_of reply)) = ((armed b)\<lparr>sk_pending := 0\<rparr>, o4)"
    "deliveries o4 = [filter (\<lambda>m. m \<noteq> []) reply]"
    using reply_received by blast
  have cs: "Socket_receive b (cv_socket cv) = (armed b, [Async_Receive])"
    using cv by (cases "cv_socket cv") (auto simp: Socket_receive_def armed_def ready_def)
  have step: "rc_step r (Ev_Reply m) = (r\<lparr>rc_receiving := False, rc_timer := None, rc_waiting := False\<rparr>,
      [RC_Timer_Cancel, RC_Reply h m])" for m
    by (simp add: rc_step_def rc_sendReplyToHandler_def rc_cleanupRequest_def r)
  have srv: "cv_server cv = armed e" using cv by (simp add: ready_def)
  have "exchange reply_handler e cv (h, message, eh, timeout) =
      (\<lparr>cv_client = r\<lparr>rc_receiving := False, rc_timer := None, rc_waiting := False\<rparr>,
        cv_socket = (armed b)\<lparr>sk_pending := 0\<rparr>, cv_server = armed e\<rparr>,
       o1 @ [RC_Timer_Cancel, RC_Reply h (filter (\<lambda>m. m \<noteq> []) reply)])"
    unfolding exchange.simps b_def [symmetric] by (simp add: o1(1,2) Socket_send_ok cs srv o3 o4 step)
  with r(3) o1(3,4) show ?thesis by (auto simp: ready_def armed_def failures_in_def)
qed

text \<open>Any number of requests.\<close>

lemma conversation_answered:
  assumes "ready e cv"
    and "\<And>h message eh timeout. (h, message, eh, timeout) \<in> set requests \<Longrightarrow>
      [] \<notin> set message \<and> reply_handler message = ([answer message], False)"
  shows "\<exists>cv' out. run (exchange reply_handler e) cv requests = (cv', out) \<and> ready e cv' \<and> failures_in out = [] \<and>
    replies_in out = map (\<lambda>(h, message, eh, timeout). (h, filter (\<lambda>m. m \<noteq> []) (answer message))) requests"
  using assms
proof (induction requests arbitrary: cv)
  case (Cons q requests)
  obtain h message eh timeout where q: "q = (h, message, eh, timeout)" by (metis prod_cases4)
  obtain cv1 o1 where 1: "exchange reply_handler e cv q = (cv1, o1)" "ready e cv1"
    "replies_in o1 = [(h, filter (\<lambda>m. m \<noteq> []) (answer message))]" "failures_in o1 = []"
    using exchange_answered [OF Cons.prems(1), of message reply_handler "answer message"] Cons.prems(2) q
    by (metis list.set_intros(1))
  obtain cv2 o2 where "run (exchange reply_handler e) cv1 requests = (cv2, o2)" "ready e cv2" "failures_in o2 = []"
    "replies_in o2 = map (\<lambda>(h, message, eh, timeout). (h, filter (\<lambda>m. m \<noteq> []) (answer message))) requests"
    using Cons.IH [OF 1(2)] Cons.prems(2) by fastforce
  with 1 q show ?case unfolding q by (auto simp del: exchange.simps)
qed simp

section \<open>Handlers that answer\<close>

text \<open>
  The reply of a server made by \<open>registerCapnpReplyServerAsync\<close> whose handlers behave as documented: the request
  handler replies once or throws before (\<open>None\<close>), the error handler replies once.
\<close>

definition capnp_answer ::
  "(u64 list \<Rightarrow> 'r result) \<Rightarrow> u64 \<Rightarrow> ('r \<Rightarrow> message_vector option) \<Rightarrow> (fault option \<Rightarrow> message_vector) \<Rightarrow>
    message_vector \<Rightarrow> message_vector" where
  "capnp_answer parse RequestT app err ms =
     (case capnp_root parse RequestT ms of Inl e \<Rightarrow> err (Some e)
      | Inr r \<Rightarrow> (case app r of None \<Rightarrow> err None | Some reply \<Rightarrow> reply))"

definition replies_once :: "('r \<Rightarrow> message_vector option) \<Rightarrow> 'r \<Rightarrow> reply_behaviour" where
  "replies_once app r = (case app r of None \<Rightarrow> ([], True) | Some reply \<Rightarrow> ([reply], False))"

text \<open>A message the reader does not run out of bounds on; a wrong type or a parse error is an exception.\<close>

definition readable :: "(u64 list \<Rightarrow> 'r result) \<Rightarrow> u64 \<Rightarrow> message_vector \<Rightarrow> bool" where
  "readable parse RequestT ms \<longleftrightarrow> [] \<notin> set ms \<and> (\<forall>e. capnp_root parse RequestT ms = Inl e \<longrightarrow> thrown e)"

lemma request_handler_once:
  "readable parse RequestT ms \<Longrightarrow>
    request_handler_of parse RequestT (replies_once app) (\<lambda>e. ([err e], False)) ms
      = Inr ([capnp_answer parse RequestT app err ms], False)"
  by (auto simp: request_handler_of_def readable_def capnp_answer_def replies_once_def split: sum.split option.split)

section \<open>Finding the server\<close>

lemma registerCapnpReplyServerAsync_packet:
  assumes "dir_ok env (nd_directory a)"
    and "registerCapnpReplyServerAsync env zbind RequestT ReplyT topic a = Inr (sv, ss, a', out)"
  defines "g \<equiv> d_guid (nd_directory a)"
  defines "info \<equiv> topic_info (Topic_str topic) ''REP'' (sv_address sv) [typeOf RequestT] [typeOf ReplyT]"
  shows "packets out = [packet_text g DISCOVERY_AVAILABLE info]"
    and "length (packet_text g DISCOVERY_AVAILABLE info) < EVENT_BUFFER_SIZE" and "ss = armed False"
proof -
  have type: "fromType 4 = Inr ''REP''" by (simp add: fromType_def socket_types_def)
  then show "packets out = [packet_text g DISCOVERY_AVAILABLE info]"
    "length (packet_text g DISCOVERY_AVAILABLE info) < EVENT_BUFFER_SIZE"
    using make_Server_packet [OF assms(1) type] assms(2)
    by (auto simp: registerCapnpReplyServerAsync_def make_ReplyServer_def g_def info_def)
  show "ss = armed False" using assms(2)
    by (auto simp: registerCapnpReplyServerAsync_def make_ReplyServer_def ReplyServer_def Socket_receive_def
        Socket_def armed_def)
qed

lemma newRequestClient_observes:
  fixes topic b uuid k
  defines "d \<equiv> nd_directory b" and "s \<equiv> fst (ts_observe uuid (Topic_str topic) k (d_topics (nd_directory b)))"
  defines "d' \<equiv> (nd_directory b)\<lparr>d_topics := s, d_timer_active := True, d_interval := QUERY_INTERVAL\<rparr>"
  shows "\<exists>out. newRequestClient uuid k no_topic topic b = (RequestClient no_topic, uuid, b\<lparr>nd_directory := d'\<rparr>, out)"
    and "dir_ok env d \<Longrightarrow> dir_ok env d'" and "topics_fit d \<Longrightarrow> topics_fit d'"
proof -
  show "\<exists>out. newRequestClient uuid k no_topic topic b = (RequestClient no_topic, uuid, b\<lparr>nd_directory := d'\<rparr>, out)"
    by (simp add: newRequestClient_def make_RequestClient_def dir_observe_def ts_observe_def startQueryTimer_def
        d'_def s_def Let_def)
  show "dir_ok env d \<Longrightarrow> dir_ok env d'"
    using send_inv_fields [of d' d] ts_observe_ok
    by (auto simp: dir_ok_def ts_observe_def env_ok_def send_inv_def d_def d'_def s_def)
  show "topics_fit d \<Longrightarrow> topics_fit d'" by (simp add: topics_fit_def d_def d'_def s_def ts_observe_def)
qed

text \<open>Among providers a request client takes the one that was announced last.\<close>

lemma NewestTopic_latest:
  assumes "(g, t) \<in> set m" and "\<And>h u. (h, u) \<in> set m \<Longrightarrow> u = t \<or> dt_timestamp u < dt_timestamp t"
  shows "NewestTopic m = Inr t"
proof -
  obtain u where u: "NewestTopic m = Inr u" "u \<in> snd ` set m" "dt_timestamp t \<le> dt_timestamp u"
    using NewestTopic_max [of m] assms(1) by (metis empty_iff image_eqI list.set(1) snd_conv)
  with assms(2) have "u = t" by force
  with u(1) show ?thesis by simp
qed

section \<open>Properties\<close>

text \<open>
  C8: Request and reply from end to end. One node registers a reply server, which sends one packet; another
  node of the same network creates a request client on the same topic and receives that packet. Unless
  it has heard of another provider at this very moment, the client then makes one connection, to the endpoint the server is bound
  to, and from there on every request is answered: whatever number of requests follow, the reply handler given with each of
  them gets exactly the reply the server's request handler gave for it, or that of the error handler when the request has
  the wrong type, cannot be parsed or the handler throws, in order, and no request is refused or reported as failed.
\<close>

theorem requests_reach_server:
  assumes server: "dir_ok env1 (nd_directory a)"
      "registerCapnpReplyServerAsync env1 zbind RequestT ReplyT topic a = Inr (sv, ss, a', out1)"
      "packet \<in> set (packets out1)"
    and handler: "\<And>ms behaviour. request_handler_of parse RequestT (replies_once app) (\<lambda>e. ([err e], False)) ms = Inr behaviour \<Longrightarrow>
      reply_handler ms = behaviour"
    and words: "wire_word (d_guid (nd_directory a))" "wire_word (Topic_str topic)" "Topic_str topic \<noteq> []"
      "wire_word (sv_address sv)" "sv_address sv \<noteq> []" "list_all isprint packet"
    and client: "dir_ok env2 (nd_directory b)" "topics_fit (nd_directory b)" "d_guid (nd_directory b) \<noteq> d_guid (nd_directory a)"
      "onNetwork (en_inet_addr env2) (en_own env2) (ad_ip (Address_parse (sv_address sv)))"
      "registered (d_topics (nd_directory b)) (Topic_str topic) (d_guid (nd_directory a)) = None"
      "\<And>h t. registered (d_topics (nd_directory b)) (Topic_str topic) h = Some t \<Longrightarrow> dt_timestamp t < en_now env2"
    and requests: "\<And>h ms eh timeout. (h, ms, eh, timeout) \<in> set requests \<Longrightarrow> readable parse RequestT ms"
  shows "\<exists>rc b' o2 d out m rc' cv o3. newRequestClient uuid k no_topic topic b = (rc, uuid, b', o2) \<and>
    dir_event env2 False packet (nd_directory b') = Some (Inr (d, out)) \<and> Called (k, Topic_str topic, m) \<in> set out \<and>
    rc_onDirectoryTopicsChanged m rc = Inr (rc', [RC_Socket (sv_address sv)]) \<and>
    run (exchange reply_handler False) \<lparr>cv_client = rc', cv_socket = Socket, cv_server = ss\<rparr> requests = (cv, o3) \<and>
    failures_in o3 = [] \<and>
    replies_in o3 = map (\<lambda>(h, ms, eh, timeout). (h, filter (\<lambda>m. m \<noteq> []) (capnp_answer parse RequestT app err ms))) requests"
proof -
  let ?g = "d_guid (nd_directory a)" and ?n = "Topic_str topic"
  let ?p = "packet_text ?g DISCOVERY_AVAILABLE (topic_info ?n ''REP'' (sv_address sv) [typeOf RequestT] [typeOf ReplyT])"
  define d1 where "d1 = (nd_directory b)\<lparr>d_topics := fst (ts_observe uuid ?n k (d_topics (nd_directory b))),
      d_timer_active := True, d_interval := QUERY_INTERVAL\<rparr>"
  note new = newRequestClient_observes [where uuid = uuid and k = k and topic = topic and b = b, folded d1_def]
  have d1: "d_guid d1 = d_guid (nd_directory b)" "registered (d_topics d1) = registered (d_topics (nd_directory b))"
    "(?n, \<lparr>ob_handler = k, ob_ref = uuid\<rparr>) \<in> set (ts_observers (d_topics d1))"
    by (auto simp: d1_def ts_observe_def registered_def set_mmap_emplace fun_eq_iff)
  have type: "fromType 4 = Inr ''REP''" by (simp add: fromType_def socket_types_def)
  note p = registerCapnpReplyServerAsync_packet [OF server(1,2)]
  have packet: "packet = ?p" using p(1) server(3) by simp
  obtain d out m t where ev: "dir_event env2 False packet d1 = Some (Inr (d, out))"
    "map_of (ts_network_topics (d_topics d)) ?n = Some m" "(?g, t) \<in> set m" "dt_address t = sv_address sv"
    "dt_timestamp t = en_now env2" "registered (d_topics d) ?n = (registered (d_topics d1) ?n)(?g \<mapsto> t)"
    "Called (k, ?n, m) \<in> set out"
    using observed_announcement [OF new(2) [OF client(1)] _ words(1-5) typeOf_types_ok typeOf_types_ok type client(4)
        words(6) [unfolded packet] p(2)] client(3,5) d1 unfolding packet by fastforce
  have "store_ok (d_topics d)"
    using dir_event_safe [OF new(2) [OF client(1)] new(3) [OF client(2)], of packet False] p(2) ev(1)
    by (auto simp: packet dir_ok_def)
  then have "distinct (map fst m)" using store_okD(3) [of "d_topics d" ?n] ev(2) omap_ok_distinct by (auto simp: net_get_def)
  then have reg: "registered (d_topics d) ?n h = Some u" if "(h, u) \<in> set m" for h u
    using that ev(2) by (simp add: registered_def net_get_def)
  have "u = t \<or> dt_timestamp u < dt_timestamp t" if "(h, u) \<in> set m" for h u
    using client(6) [of h u] reg [OF that] unfolding ev(5,6) d1(2) by (cases "h = ?g") auto
  then have newest: "NewestTopic m = Inr t" by (rule NewestTopic_latest [OF ev(3)])
  let ?rc = "(RequestClient no_topic)\<lparr>rc_topic := t, rc_connected := True\<rparr>"
  have con: "rc_onDirectoryTopicsChanged m (RequestClient no_topic) = Inr (?rc, [RC_Socket (sv_address sv)])"
    using newest ev(3,4) by (auto simp: rc_onDirectoryTopicsChanged_def rc_connect_def RequestClient_def)
  have "ready False \<lparr>cv_client = ?rc, cv_socket = Socket, cv_server = ss\<rparr>"
    by (simp add: ready_def RequestClient_def Socket_def p(3))
  moreover have "[] \<notin> set ms \<and> reply_handler ms = ([capnp_answer parse RequestT app err ms], False)"
    if "(h, ms, eh, timeout) \<in> set requests" for h ms eh timeout
    using handler [OF request_handler_once] requests [OF that] by (auto simp: readable_def)
  ultimately obtain cv o3 where
    "run (exchange reply_handler False) \<lparr>cv_client = ?rc, cv_socket = Socket, cv_server = ss\<rparr> requests = (cv, o3)"
    "failures_in o3 = []" "replies_in o3 = map (\<lambda>(h, ms, eh, timeout).
      (h, filter (\<lambda>m. m \<noteq> []) (capnp_answer parse RequestT app err ms))) requests"
    using conversation_answered [of False _ requests reply_handler "capnp_answer parse RequestT app err"] by blast
  with new(1) ev con show ?thesis by fastforce
qed

lemma example_reply_server:
  "\<exists>sv ss a' out. registerCapnpReplyServerAsync example_env (\<lambda>a. Some ''tcp://x:1'') 42 43 example_topic_name (example_node ''a'')
     = Inr (sv, ss, a', out) \<and> sv_address sv = ''tcp://x:1'' \<and> packets out = [''DISPATCH a A n/t REP tcp://x:1 42 43'']"
proof -
  let ?d = "example_dir ''a''"
  have n: "Topic_str example_topic_name = ''n/t''"
    by (simp add: example_topic_name_def Topic_str_def append_part_def)
  have g: "d_guid ?d = ''a''" "d_next_port ?d = 0" by (simp_all add: example_dir_def)
  have port: "nextServerPort ?d = (?d, 0)" by (simp add: nextServerPort_def g)
  have type: "fromType 4 = Inr ''REP''" by (simp add: fromType_def socket_types_def)
  have "ts_findLocal ''n/t'' (d_topics ?d) = None"
    by (simp add: ts_findLocal_def example_dir_def DirectoryTopicStore_def)
  note own = dir_add_own_ok [OF example_dir_ok(1) this type, of "''tcp://x:1''" "[''42'']" "[''43'']", unfolded g]
  have p: "packet_text ''a'' DISCOVERY_AVAILABLE (topic_info ''n/t'' ''REP'' ''tcp://x:1'' [''42''] [''43'']) =
      ''DISPATCH a A n/t REP tcp://x:1 42 43''"
    by (simp add: packet_text_def topic_info_def DISPATCH_def writeTypes_def NO_TYPES_def)
  have ty: "typeOf 42 = ''42''" "typeOf 43 = ''43''"
    by (simp_all add: typeOf_def to_string.simps digit_char_def) (code_simp+)
  obtain d1 cs buf where "dir_add example_env ''n/t'' 4 ''tcp://x:1'' [''42''] [''43''] ''a'' ?d = Inr (d1, map Called cs @
      [Send_To buf ''DISPATCH a A n/t REP tcp://x:1 42 43''], True)"
    using own [OF _ refl] by (auto simp: p)
  then show ?thesis
    by (simp add: registerCapnpReplyServerAsync_def make_ReplyServer_def make_Server_cases n ty bound_endpoint_def port g
        example_node_def packets_called)
qed

text \<open>A server that answers requests of type 42 with one byte, and others with another one.\<close>

definition example_handler :: "message_vector \<Rightarrow> reply_behaviour" where
  "example_handler ms = (case request_handler_of Inr 42 (replies_once (\<lambda>ws. Some [[1]])) (\<lambda>e. ([[[2]]], False)) ms of
     Inl e \<Rightarrow> ([], False) | Inr behaviour \<Rightarrow> behaviour)"

definition example_requests :: "request list" where
  "example_requests = [(3, getSmartMessage 42 (replicate 8 0), None, 0), (4, getSmartMessage 7 (replicate 8 0), Some 9, 5)]"

theorem requests_reach_server_witness:
  "\<exists>rc b' o2 d out m rc' cv o3. newRequestClient ''u'' 7 example_topic example_topic_name (example_node ''b'') = (rc, ''u'', b', o2) \<and>
     dir_event example_env False ''DISPATCH a A n/t REP tcp://x:1 42 43'' (nd_directory b') = Some (Inr (d, out)) \<and>
     Called (7, ''n/t'', m) \<in> set out \<and> rc_onDirectoryTopicsChanged m rc = Inr (rc', [RC_Socket ''tcp://x:1'']) \<and>
     run (exchange example_handler False) \<lparr>cv_client = rc', cv_socket = Socket, cv_server = armed False\<rparr> example_requests
       = (cv, o3) \<and> replies_in o3 = [(3, [[1]]), (4, [[2]])]"
proof -
  obtain sv ss a' out where srv: "registerCapnpReplyServerAsync example_env (\<lambda>a. Some ''tcp://x:1'') 42 43 example_topic_name (example_node ''a'')
     = Inr (sv, ss, a', out)" "sv_address sv = ''tcp://x:1''" "packets out = [''DISPATCH a A n/t REP tcp://x:1 42 43'']"
    using example_reply_server by blast
  have d: "nd_directory (example_node g) = example_dir g" "d_guid (example_dir g) = g" for g
    by (simp_all add: example_node_def example_dir_def)
  have ss: "ss = armed False"
    by (rule registerCapnpReplyServerAsync_packet(3) [OF _ srv(1)]) (simp add: d example_dir_ok)
  have n: "Topic_str example_topic_name = ''n/t''"
    by (simp add: example_topic_name_def Topic_str_def append_part_def)
  have unk: "registered (d_topics (example_dir ''b'')) ''n/t'' g = None" for g
    by (simp add: example_dir_def DirectoryTopicStore_def registered_def net_get_def)
  have net: "onNetwork (en_inet_addr example_env) (en_own example_env) (ad_ip (Address_parse ''tcp://x:1''))"
    by (simp add: onNetwork_def example_env_def)
  have "le_bytes 8 n \<noteq> []" "[] \<noteq> le_bytes 8 n" for n by (metis length_le_bytes list.size(3) zero_neq_numeral)+
  then have root: "capnp_root Inr 42 (getSmartMessage i (replicate 8 0)) = getRoot Inr 42 \<lparr>cr_id = i, cr_buffer = words_of_bytes (replicate 8 0)\<rparr>"
    and full: "[] \<notin> set (getSmartMessage i (replicate 8 0))" for i
    using reader_of_message [of "replicate 8 0" i] by (auto simp: capnp_root_def WORD_SIZE_def getSmartMessage_def)
  have readable: "readable Inr 42 ms" if "(h, ms, eh, timeout) \<in> set example_requests" for h ms eh timeout
    using that root full by (auto simp: example_requests_def readable_def getRoot_def thrown_def)
  have answers: "capnp_answer Inr 42 (\<lambda>ws. Some [[1]]) (\<lambda>e. [[2]]) (getSmartMessage i (replicate 8 0)) = (if i = 42 then [[1]] else [[2]])" for i
    by (simp add: capnp_answer_def root getRoot_def)
  have handler: "example_handler ms = behaviour"
    if "request_handler_of Inr 42 (replies_once (\<lambda>ws. Some [[1]])) (\<lambda>e. ([[[2]]], False)) ms = Inr behaviour" for ms behaviour
    by (simp add: example_handler_def that)
  note r = requests_reach_server [OF _ srv(1), of "''DISPATCH a A n/t REP tcp://x:1 42 43''" Inr "\<lambda>ws. Some [[1]]" "\<lambda>e. [[2]]"
      example_handler example_env "example_node ''b''" example_requests "''u''" 7 example_topic, unfolded srv n d ss,
      OF example_dir_ok(1) _ handler _ _ _ _ _ _ example_dir_ok _ net unk]
  have "map (\<lambda>(h, ms, eh, timeout). (h, filter (\<lambda>m. m \<noteq> []) (capnp_answer Inr 42 (\<lambda>ws. Some [[1]]) (\<lambda>e. [[2]]) ms))) example_requests
      = [(3, [[1]]), (4, [[2]])]" by (simp add: example_requests_def answers)
  then show ?thesis using r readable unk by (simp add: wire_word_def isprint_def) blast
qed

end
