(* ===== verification/Character_Device.thy ===== *)
theory Character_Device
  imports Buffer_Pool C_Strings
begin

text \<open>
  \<open>CharacterDevice\<close> and \<open>SendBuffer\<close> (\<open>src/a17/utils/character_device.{h,cpp}\<close>) with their one
  subclass \<open>SerialPort\<close> (\<open>serial_port.{h,cpp}\<close>): bytes to send are copied into buffers of a pool,
  queued, and handed to the operating system one buffer at a time. The operating system is the
  environment: the addresses of \<open>::malloc\<close> are a function of their number, and the completions
  of writes and reads are events. Outputs show the calls that are made and, for the statements
  below, the bytes queued and the bytes the operating system took.
\<close>

section \<open>SendBuffer\<close>

record send_buffer =
  sn_buffer :: nat
  sn_maxSize :: nat
  sn_size :: nat
  sn_pos :: nat
  sn_data :: "u8 list"

definition SendBuffer :: "nat \<Rightarrow> buffer_pool \<Rightarrow> buffer_pool \<times> send_buffer" where
  "SendBuffer os pool =
     (let (pool, ptr) = bp_malloc os pool
      in (pool, \<lparr>sn_buffer = ptr, sn_maxSize = bp_bufferSize pool, sn_size = 0, sn_pos = 0, sn_data = []\<rparr>))"

definition sn_reset :: "nat \<Rightarrow> send_buffer \<Rightarrow> send_buffer" where
  "sn_reset n b = b\<lparr>sn_size := n, sn_pos := 0\<rparr>"

definition sn_isSent :: "send_buffer \<Rightarrow> bool" where
  "sn_isSent b \<longleftrightarrow> sn_pos b \<ge> sn_size b"

definition sn_advance :: "nat \<Rightarrow> send_buffer \<Rightarrow> send_buffer \<times> bool" where
  "sn_advance bytes b = (let b = b\<lparr>sn_pos := sn_pos b + bytes\<rparr> in (b, sn_isSent b))"

definition sn_cbuffer :: "send_buffer \<Rightarrow> u8 list" where
  "sn_cbuffer b = drop (sn_pos b) (take (sn_size b) (sn_data b))"

definition sn_destroy :: "send_buffer \<Rightarrow> buffer_pool \<Rightarrow> buffer_pool" where
  "sn_destroy b pool = (if sn_buffer b \<noteq> 0 then fst (bp_free (sn_buffer b) pool) else pool)"

text \<open>
  The constructor with memory of its own (\<open>ptr\<close> from \<open>::malloc\<close>), and the move constructor: the new buffer and what is
  left of the old one.
\<close>

definition SendBuffer_own :: "nat \<Rightarrow> nat \<Rightarrow> send_buffer" where
  "SendBuffer_own ptr maxSize = \<lparr>sn_buffer = ptr, sn_maxSize = maxSize, sn_size = 0, sn_pos = 0, sn_data = []\<rparr>"

definition SendBuffer_move :: "send_buffer \<Rightarrow> send_buffer \<times> send_buffer" where
  "SendBuffer_move other = (other, other\<lparr>sn_buffer := 0\<rparr>)"

text \<open>Moving a buffer through the queue frees it once, when the last owner is destroyed.\<close>

lemma moved_buffer_freed_once:
  "SendBuffer_move b = (new, old) \<Longrightarrow> sn_destroy new (sn_destroy old pool) = sn_destroy b pool \<and> sn_cbuffer new = sn_cbuffer b"
  by (auto simp: SendBuffer_move_def sn_destroy_def)

section \<open>CharacterDevice\<close>

definition kHighWaterMark :: u32 where
  "kHighWaterMark = 1024"

text \<open>\<open>cd_writing\<close>: a write is outstanding; \<open>cd_port\<close>: the port of the subclass has been opened.\<close>

record device =
  cd_pool :: buffer_pool
  cd_mallocs :: nat
  cd_sendBuffers :: "send_buffer list"
  cd_highWaterMark :: u32
  cd_has_receive_handler :: bool
  cd_has_error_handler :: bool
  cd_writing :: bool
  cd_port :: bool

datatype dev_out =
    Async_Write "u8 list"
  | Async_Read
  | Receive_Handler "u8 list"
  | Device_Error nat
  | Queued "u8 list"
  | Written "u8 list"

definition CharacterDevice :: "buffer_pool \<Rightarrow> bool \<Rightarrow> bool \<Rightarrow> device" where
  "CharacterDevice pool has_receive_handler has_error_handler =
     \<lparr>cd_pool = pool, cd_mallocs = 0, cd_sendBuffers = [], cd_highWaterMark = kHighWaterMark,
      cd_has_receive_handler = has_receive_handler, cd_has_error_handler = has_error_handler,
      cd_writing = False, cd_port = False\<rparr>"

text \<open>
  The move constructor: the handlers and the high water mark; the pool and the queue are new, what was
  queued is not taken over.
\<close>

definition CharacterDevice_move :: "buffer_pool \<Rightarrow> device \<Rightarrow> device" where
  "CharacterDevice_move pool other =
     (CharacterDevice pool (cd_has_receive_handler other) (cd_has_error_handler other))
       \<lparr>cd_highWaterMark := cd_highWaterMark other\<rparr>"

type_synonym dev_step = "(device \<times> dev_out list) result"

definition asyncSend :: "send_buffer \<Rightarrow> device \<Rightarrow> dev_step" where
  "asyncSend b d =
     (if \<not> cd_port d then Inl Null_Pointer
      else Inr (d\<lparr>cd_writing := True\<rparr>, [Async_Write (sn_cbuffer b)]))"

definition asyncReceive :: "device \<Rightarrow> dev_step" where
  "asyncReceive d = (if \<not> cd_port d then Inl Null_Pointer else Inr (d, [Async_Read]))"

definition SerialPort :: "buffer_pool \<Rightarrow> bool \<Rightarrow> bool \<Rightarrow> bool \<Rightarrow> dev_step" where
  "SerialPort pool opens has_receive_handler has_error_handler =
     (let d = CharacterDevice pool has_receive_handler has_error_handler
      in if \<not> opens then Inr (d, []) else asyncReceive (d\<lparr>cd_port := True\<rparr>))"

definition exceededHighWaterMark :: "device \<Rightarrow> bool" where
  "exceededHighWaterMark d \<longleftrightarrow> length (cd_sendBuffers d) \<ge> unat (cd_highWaterMark d)"

text \<open>\<open>onReceive\<close>: an error number or the bytes read into \<open>receiveBuffer_\<close>.\<close>

definition dev_onReceive :: "nat + u8 list \<Rightarrow> device \<Rightarrow> dev_step" where
  "dev_onReceive ev d =
     and_then (asyncReceive d) (\<lambda>(d, out).
       Inr (d, (case ev of
                  Inr bytes \<Rightarrow> if cd_has_receive_handler d then [Receive_Handler bytes] else []
                | Inl ec \<Rightarrow> if cd_has_error_handler d then [Device_Error ec] else []) @ out))"

text \<open>
  \<open>send(copy)\<close>: \<open>copy\<close> writes \<open>bytes\<close>, at most a buffer full, to the start of the buffer; with
  a null pointer that is undefined unless there is nothing to write.
\<close>

definition send_copy :: "(nat \<Rightarrow> nat) \<Rightarrow> u8 list \<Rightarrow> device \<Rightarrow> dev_step" where
  "send_copy os bytes d =
     (if exceededHighWaterMark d then Inr (d, [])
      else
       (let (pool, buffer) = SendBuffer (os (cd_mallocs d)) (cd_pool d);
            d = d\<lparr>cd_pool := pool, cd_mallocs := Suc (cd_mallocs d)\<rparr>
        in if sn_buffer buffer = 0 \<and> bytes \<noteq> [] then Inl Null_Pointer
           else if length bytes > sn_maxSize buffer then Inl Buffer_Overflow
           else
            (let buffer = sn_reset (length bytes) (buffer\<lparr>sn_data := bytes\<rparr>);
                 wasEmpty = (cd_sendBuffers d = []);
                 d = d\<lparr>cd_sendBuffers := cd_sendBuffers d @ [buffer]\<rparr>
             in if wasEmpty
                then and_then (asyncSend (hd (cd_sendBuffers d)) d) (\<lambda>(d, out). Inr (d, Queued bytes # out))
                else Inr (d, [Queued bytes]))))"

text \<open>The loop over the chunks; the pool has its default size, so a chunk is never empty.\<close>

function send_chunks :: "(nat \<Rightarrow> nat) \<Rightarrow> nat \<Rightarrow> u8 list \<Rightarrow> device \<Rightarrow> dev_step" where
  "send_chunks os n bytes d =
     (if bytes = [] \<or> n = 0 then Inr (d, [])
      else and_then (send_copy os (take n bytes) d) (\<lambda>(d, o1).
           and_then (send_chunks os n (drop n bytes) d) (\<lambda>(d, o2). Inr (d, o1 @ o2))))"
  by pat_completeness auto
termination
  by (relation "measure (\<lambda>(os, n, bytes, d). length bytes)") auto

declare send_chunks.simps [simp del]

definition dev_send :: "(nat \<Rightarrow> nat) \<Rightarrow> u8 list \<Rightarrow> device \<Rightarrow> dev_step" where
  "dev_send os bytes d =
     (if exceededHighWaterMark d then Inr (d, []) else send_chunks os (bp_bufferSize (cd_pool d)) bytes d)"

text \<open>\<open>onSend\<close>: an error number or the number of bytes taken; \<open>front\<close> of an empty queue is undefined.\<close>

definition dev_onSend :: "nat + nat \<Rightarrow> device \<Rightarrow> dev_step" where
  "dev_onSend ev d =
     (let d = d\<lparr>cd_writing := False\<rparr> in
      case ev of
        Inl ec \<Rightarrow> Inr (d, [])
      | Inr bytes \<Rightarrow>
          (case cd_sendBuffers d of
             [] \<Rightarrow> Inl Dangling
           | buffer # rest \<Rightarrow>
              (let (buffer', sent) = sn_advance bytes buffer;
                   d = (if sent then d\<lparr>cd_sendBuffers := rest, cd_pool := sn_destroy buffer' (cd_pool d)\<rparr>
                        else d\<lparr>cd_sendBuffers := buffer' # rest\<rparr>)
               in and_then (if cd_sendBuffers d \<noteq> [] then asyncSend (hd (cd_sendBuffers d)) d else Inr (d, []))
                    (\<lambda>(d, out). Inr (d, Written (take bytes (sn_cbuffer buffer)) # out)))))"

definition setReceiveHandler :: "bool \<Rightarrow> device \<Rightarrow> device" where
  "setReceiveHandler has_handler d = d\<lparr>cd_has_receive_handler := has_handler\<rparr>"

definition sendHighWaterMark :: "u32 \<Rightarrow> device \<Rightarrow> device" where
  "sendHighWaterMark hwm d = d\<lparr>cd_highWaterMark := hwm\<rparr>"

text \<open>Whether asio says that the port is open is an argument.\<close>

definition SerialPort_isOpen :: "bool \<Rightarrow> device \<Rightarrow> bool" where
  "SerialPort_isOpen is_open d \<longleftrightarrow> cd_port d \<and> is_open"

section \<open>The byte stream\<close>

text \<open>
  The events of a device: a call of \<open>send\<close>, and the completion of an outstanding write, which
  takes at most the bytes it was given.
\<close>

datatype dev_event = Dev_Send "u8 list" | Dev_Sent nat | Dev_Send_Error nat

definition dev_step :: "(nat \<Rightarrow> nat) \<Rightarrow> device \<Rightarrow> dev_event \<Rightarrow> dev_step" where
  "dev_step os d ev =
     (case ev of
        Dev_Send bytes \<Rightarrow> dev_send os bytes d
      | Dev_Sent n \<Rightarrow>
          if cd_writing d \<and> n \<le> length (sn_cbuffer (hd (cd_sendBuffers d))) then dev_onSend (Inr n) d
          else Inr (d, [])
      | Dev_Send_Error ec \<Rightarrow> if cd_writing d then dev_onSend (Inl ec) d else Inr (d, []))"

fun dev_run :: "(nat \<Rightarrow> nat) \<Rightarrow> device \<Rightarrow> dev_event list \<Rightarrow> dev_step" where
  "dev_run os d [] = Inr (d, [])"
| "dev_run os d (ev # evs) =
     and_then (dev_step os d ev) (\<lambda>(d, o1). and_then (dev_run os d evs) (\<lambda>(d, o2). Inr (d, o1 @ o2)))"

definition written :: "dev_out list \<Rightarrow> u8 list" where
  "written out = concat (map (\<lambda>x. case x of Written bs \<Rightarrow> bs | _ \<Rightarrow> []) out)"

definition queued :: "dev_out list \<Rightarrow> u8 list" where
  "queued out = concat (map (\<lambda>x. case x of Queued bs \<Rightarrow> bs | _ \<Rightarrow> []) out)"

definition backlog :: "device \<Rightarrow> u8 list" where
  "backlog d = concat (map sn_cbuffer (cd_sendBuffers d))"

definition buffers_of :: "device \<Rightarrow> nat list" where
  "buffers_of d = map sn_buffer (cd_sendBuffers d)"

text \<open>
  The buffers of the queue are distinct, the pool knows which are in use, and every buffer holds
  the bytes it announces.
\<close>

definition dev_ok :: "(nat \<Rightarrow> nat) \<Rightarrow> device \<Rightarrow> bool" where
  "dev_ok os d \<longleftrightarrow>
     cd_port d \<and> 0 < bp_bufferSize (cd_pool d) \<and> 0 \<notin> pool_region (cd_pool d) \<and>
     pool_inv (cd_pool d) (set (buffers_of d) \<inter> pool_region (cd_pool d)) \<and> distinct (buffers_of d) \<and>
     (\<forall>b \<in> set (cd_sendBuffers d). length (sn_data b) = sn_size b) \<and>
     (\<forall>b \<in> set (buffers_of d). b \<in> pool_region (cd_pool d) \<or> (\<exists>i < cd_mallocs d. b = os i)) \<and>
     inj os \<and> (\<forall>i. os i \<noteq> 0 \<and> os i \<notin> pool_region (cd_pool d)) \<and>
     (cd_writing d \<longrightarrow> cd_sendBuffers d \<noteq> [])"

lemma trace_simps [simp]:
  "written [] = []" "queued [] = []"
  "written (o1 @ o2) = written o1 @ written o2" "queued (o1 @ o2) = queued o1 @ queued o2"
  "written (Written bs # out) = bs @ written out" "queued (Written bs # out) = queued out"
  "written (Queued bs # out) = written out" "queued (Queued bs # out) = bs @ queued out"
  "written (Async_Write bs # out) = written out" "queued (Async_Write bs # out) = queued out"
  by (simp_all add: written_def queued_def)

definition alive :: "device \<Rightarrow> bool" where
  "alive d \<longleftrightarrow> (cd_sendBuffers d \<noteq> [] \<longrightarrow> cd_writing d)"

definition same_limits :: "device \<Rightarrow> device \<Rightarrow> bool" where
  "same_limits d d' \<longleftrightarrow> cd_highWaterMark d' = cd_highWaterMark d \<and>
     bp_bufferSize (cd_pool d') = bp_bufferSize (cd_pool d)"

text \<open>Appending a freshly allocated buffer keeps the invariant.\<close>

lemma dev_ok_push:
  assumes ok: "dev_ok os d" and buf: "SendBuffer (os (cd_mallocs d)) (cd_pool d) = (pool, b)"
    and b': "sn_buffer b' = sn_buffer b" "length (sn_data b') = sn_size b'"
    and d': "d' = d\<lparr>cd_pool := pool, cd_mallocs := Suc (cd_mallocs d), cd_sendBuffers := cd_sendBuffers d @ [b'],
      cd_writing := w\<rparr>"
  shows "dev_ok os d' \<and> sn_buffer b \<noteq> 0 \<and> same_limits d d' \<and> sn_maxSize b = bp_bufferSize (cd_pool d)"
proof -
  let ?R = "pool_region (cd_pool d)" and ?B = "set (buffers_of d)" and ?o = "os (cd_mallocs d)"
  have m: "bp_malloc ?o (cd_pool d) = (pool, sn_buffer b)" "sn_maxSize b = bp_bufferSize pool"
    using buf by (auto simp: SendBuffer_def split: prod.splits)
  have o: "?o \<notin> ?R" "?o \<noteq> 0" "\<forall>i < cd_mallocs d. os i \<noteq> ?o" and inv: "pool_inv (cd_pool d) (?B \<inter> ?R)"
    using ok by (auto simp: dev_ok_def inj_def)
  have new: "sn_buffer b = ?o \<or> sn_buffer b \<in> ?R - (?B \<inter> ?R)"
    and inv': "pool_inv pool (?B \<inter> ?R \<union> ({sn_buffer b} \<inter> ?R))" "pool_region pool = ?R"
    using bpool.alloc_fresh [OF inv o(1) m(1)] bpool.alloc_ok [OF inv o(1) m(1)] by auto
  have size: "bp_bufferSize pool = bp_bufferSize (cd_pool d)"
    using m(1) by (auto simp: bp_malloc_def split: if_splits)
  have bufs: "buffers_of d' = buffers_of d @ [sn_buffer b]" by (simp add: d' buffers_of_def b')
  have "sn_buffer b \<notin> ?B" using new o ok by (auto simp: dev_ok_def)
  moreover have "set (buffers_of d') \<inter> ?R = ?B \<inter> ?R \<union> ({sn_buffer b} \<inter> ?R)" by (auto simp: bufs)
  ultimately have "dev_ok os d'"
    using ok inv' size new b'(2) unfolding dev_ok_def bufs by (auto simp: d' less_Suc_eq)
  moreover have "0 \<notin> ?R" using ok by (simp add: dev_ok_def)
  then have "sn_buffer b \<noteq> 0" using new o(2) by (metis DiffD1)
  ultimately show ?thesis using size m(2) by (simp add: same_limits_def d')
qed

lemma send_copy_ok:
  assumes ok: "dev_ok os d" and len: "length bytes \<le> bp_bufferSize (cd_pool d)"
  shows "\<exists>d' out. send_copy os bytes d = Inr (d', out) \<and> dev_ok os d' \<and> same_limits d d' \<and>
    backlog d' = backlog d @ queued out \<and> written out = [] \<and> (alive d \<longrightarrow> alive d') \<and>
    (if exceededHighWaterMark d then d' = d \<and> out = []
     else queued out = bytes \<and> length (cd_sendBuffers d') = Suc (length (cd_sendBuffers d)))"
proof (cases "exceededHighWaterMark d")
  case True
  then show ?thesis using ok by (simp add: send_copy_def same_limits_def)
next
  case False
  obtain pool b where buf: "SendBuffer (os (cd_mallocs d)) (cd_pool d) = (pool, b)" by fastforce
  define b' where "b' = sn_reset (length bytes) (b\<lparr>sn_data := bytes\<rparr>)"
  have b': "sn_buffer b' = sn_buffer b" "length (sn_data b') = sn_size b'" "sn_cbuffer b' = bytes"
    by (simp_all add: b'_def sn_reset_def sn_cbuffer_def)
  define d' where "d' = d\<lparr>cd_pool := pool, cd_mallocs := Suc (cd_mallocs d), cd_sendBuffers := cd_sendBuffers d @ [b'],
      cd_writing := (if cd_sendBuffers d = [] then True else cd_writing d)\<rparr>"
  note p = dev_ok_push [OF ok buf b'(1,2) d'_def]
  have "\<exists>out. send_copy os bytes d = Inr (d', out) \<and> queued out = bytes \<and> written out = []"
    using False p len ok buf
    by (auto simp: send_copy_def b'_def [symmetric] d'_def asyncSend_def dev_ok_def Let_def)
  then show ?thesis using False p by (auto simp: d'_def backlog_def b' alive_def)
qed

lemma send_chunks_ok:
  assumes "dev_ok os d" and "bp_bufferSize (cd_pool d) = n"
  shows "\<exists>d' out rest. send_chunks os n bytes d = Inr (d', out) \<and> dev_ok os d' \<and> same_limits d d' \<and>
    backlog d' = backlog d @ queued out \<and> written out = [] \<and> (alive d \<longrightarrow> alive d') \<and>
    bytes = queued out @ rest \<and> (rest \<noteq> [] \<longrightarrow> exceededHighWaterMark d') \<and>
    (exceededHighWaterMark d \<longrightarrow> queued out = [] \<and> exceededHighWaterMark d')"
  using assms
proof (induction bytes arbitrary: d rule: length_induct)
  case (1 bytes)
  have n: "n \<noteq> 0" using 1 by (auto simp: dev_ok_def)
  show ?case
  proof (cases "bytes = []")
    case True
    then show ?thesis using 1 by (simp add: send_chunks.simps same_limits_def)
  next
    case False
    obtain d1 o1 where s: "send_copy os (take n bytes) d = Inr (d1, o1)" "dev_ok os d1" "same_limits d d1"
      "backlog d1 = backlog d @ queued o1" "written o1 = []" "alive d \<longrightarrow> alive d1"
      "if exceededHighWaterMark d then d1 = d \<and> o1 = []
       else queued o1 = take n bytes \<and> length (cd_sendBuffers d1) = Suc (length (cd_sendBuffers d))"
      using send_copy_ok [OF 1(2), of "take n bytes"] 1(3) by auto
    have len: "length (drop n bytes) < length bytes" and size: "bp_bufferSize (cd_pool d1) = n"
      using s(3) 1(3) False n by (simp_all add: same_limits_def)
    obtain d2 o2 rest where r: "send_chunks os n (drop n bytes) d1 = Inr (d2, o2)" "dev_ok os d2" "same_limits d1 d2"
      "backlog d2 = backlog d1 @ queued o2" "written o2 = []" "alive d1 \<longrightarrow> alive d2"
      "drop n bytes = queued o2 @ rest" "rest \<noteq> [] \<longrightarrow> exceededHighWaterMark d2"
      "exceededHighWaterMark d1 \<longrightarrow> queued o2 = [] \<and> exceededHighWaterMark d2"
      using 1(1) [rule_format, OF len s(2) size] by blast
    have step: "send_chunks os n bytes d = Inr (d2, o1 @ o2)"
      using False n s(1) r(1) by (subst send_chunks.simps) simp
    have lim: "same_limits d d2" using s(3) r(3) by (simp add: same_limits_def)
    have traces: "backlog d2 = backlog d @ queued (o1 @ o2)" "written (o1 @ o2) = []" "alive d \<longrightarrow> alive d2"
      using s r by simp_all
    show ?thesis
    proof (cases "exceededHighWaterMark d")
      case True
      with s(7) r(9) have "queued (o1 @ o2) = []" "exceededHighWaterMark d2" by auto
      then have "bytes = queued (o1 @ o2) @ bytes" by simp
      with step r(2) lim traces \<open>exceededHighWaterMark d2\<close> \<open>queued (o1 @ o2) = []\<close> show ?thesis by blast
    next
      case False
      with s(7) r(7) have "bytes = queued (o1 @ o2) @ rest"
        by (metis append.assoc append_take_drop_id trace_simps(4))
      with False step r(2,8) lim traces show ?thesis by blast
    qed
  qed
qed

lemma dev_send_ok:
  assumes "dev_ok os d"
  shows "\<exists>d' out rest. dev_send os bytes d = Inr (d', out) \<and> dev_ok os d' \<and> same_limits d d' \<and>
    backlog d' = backlog d @ queued out \<and> written out = [] \<and> (alive d \<longrightarrow> alive d') \<and>
    bytes = queued out @ rest \<and> (rest \<noteq> [] \<longrightarrow> exceededHighWaterMark d')"
proof (cases "exceededHighWaterMark d")
  case True
  then show ?thesis using assms by (simp add: dev_send_def same_limits_def)
next
  case False
  then show ?thesis using send_chunks_ok [OF assms refl, of bytes] unfolding dev_send_def by auto
qed

lemma dev_ok_advance:
  assumes ok: "dev_ok os d" and q: "cd_sendBuffers d = b # rest" and b': "sn_buffer b' = sn_buffer b"
    "length (sn_data b') = sn_size b'"
  shows "dev_ok os (d\<lparr>cd_sendBuffers := b' # rest, cd_writing := w\<rparr>)"
proof -
  have bufs: "buffers_of (d\<lparr>cd_sendBuffers := b' # rest, cd_writing := w\<rparr>) = buffers_of d"
    by (simp add: buffers_of_def q b')
  show ?thesis using ok b'(2) unfolding dev_ok_def bufs by (simp add: q)
qed

lemma dev_ok_pop:
  assumes ok: "dev_ok os d" and q: "cd_sendBuffers d = b # rest" and b': "sn_buffer b' = sn_buffer b"
    and w: "w \<longrightarrow> rest \<noteq> []"
  shows "dev_ok os (d\<lparr>cd_sendBuffers := rest, cd_pool := sn_destroy b' (cd_pool d), cd_writing := w\<rparr>)"
proof -
  let ?R = "pool_region (cd_pool d)" and ?B = "set (buffers_of d)"
  let ?d = "d\<lparr>cd_sendBuffers := rest, cd_pool := sn_destroy b' (cd_pool d), cd_writing := w\<rparr>"
  have bufs: "buffers_of d = sn_buffer b # buffers_of ?d" by (simp add: buffers_of_def q)
  have inv: "pool_inv (cd_pool d) (?B \<inter> ?R)" using ok by (simp add: dev_ok_def)
  have "sn_buffer b \<in> ?R \<or> (\<exists>i. sn_buffer b = os i)" "0 \<notin> ?R" "\<forall>i. os i \<noteq> 0"
    using ok by (auto simp: dev_ok_def bufs)
  then have nz: "sn_buffer b \<noteq> 0" by metis
  have "sn_buffer b \<in> ?B \<inter> ?R \<or> sn_buffer b \<notin> ?R" by (auto simp: bufs)
  then have "pool_inv (sn_destroy b' (cd_pool d)) (?B \<inter> ?R - {sn_buffer b})"
    "pool_region (sn_destroy b' (cd_pool d)) = ?R"
    using bpool.release_ok [OF inv] nz by (auto simp: sn_destroy_def b')
  moreover have "?B \<inter> ?R - {sn_buffer b} = set (buffers_of ?d) \<inter> ?R"
    using ok by (auto simp: bufs dev_ok_def)
  moreover have "bp_bufferSize (sn_destroy b' (cd_pool d)) = bp_bufferSize (cd_pool d)"
    by (simp add: sn_destroy_def bp_free_def)
  ultimately show ?thesis using ok w by (auto simp: dev_ok_def bufs q)
qed

text \<open>Taking \<open>n\<close> bytes of the first buffer; the buffer goes when it is empty.\<close>

lemma sn_advance_cbuffer:
  assumes "n \<le> length (sn_cbuffer b)" and "sn_advance n b = (b', sent)"
  shows "sn_cbuffer b = take n (sn_cbuffer b) @ sn_cbuffer b'" and "sent \<Longrightarrow> sn_cbuffer b' = []"
    and "sn_buffer b' = sn_buffer b" and "length (sn_data b) = sn_size b \<Longrightarrow> length (sn_data b') = sn_size b'"
proof -
  have b': "b' = b\<lparr>sn_pos := sn_pos b + n\<rparr>" and sent: "sent \<longleftrightarrow> sn_isSent b'"
    using assms(2) by (auto simp: sn_advance_def Let_def)
  have "sn_cbuffer b' = drop n (sn_cbuffer b)" by (simp add: b' sn_cbuffer_def add.commute)
  then show "sn_cbuffer b = take n (sn_cbuffer b) @ sn_cbuffer b'" by simp
  show "sent \<Longrightarrow> sn_cbuffer b' = []" by (simp add: sent sn_isSent_def sn_cbuffer_def)
qed (use assms(2) in \<open>auto simp: sn_advance_def Let_def\<close>)

lemma dev_onSend_ok:
  assumes ok: "dev_ok os d" and q: "cd_sendBuffers d = b # rest" and n: "n \<le> length (sn_cbuffer b)"
  shows "\<exists>d' out. dev_onSend (Inr n) d = Inr (d', out) \<and> dev_ok os d' \<and> same_limits d d' \<and> alive d' \<and>
    queued out = [] \<and> backlog d = written out @ backlog d'"
proof -
  obtain b' sent where a: "sn_advance n b = (b', sent)" by fastforce
  note f = sn_advance_cbuffer [OF n a]
  have port: "cd_port d" and data: "length (sn_data b) = sn_size b" using ok by (auto simp: dev_ok_def q)
  show ?thesis
  proof (cases sent)
    case True
    define d' where "d' = d\<lparr>cd_sendBuffers := rest, cd_pool := sn_destroy b' (cd_pool d), cd_writing := (rest \<noteq> [])\<rparr>"
    have "\<exists>out. dev_onSend (Inr n) d = Inr (d', out) \<and> queued out = [] \<and> written out = take n (sn_cbuffer b)"
      using True port by (auto simp: dev_onSend_def q a d'_def asyncSend_def Let_def)
    moreover have "dev_ok os d'" unfolding d'_def by (rule dev_ok_pop [OF ok q f(3)]) simp
    moreover have "backlog d = take n (sn_cbuffer b) @ backlog d'"
      using f(1,2) True by (simp add: backlog_def q d'_def)
    moreover have "bp_bufferSize (cd_pool d') = bp_bufferSize (cd_pool d)"
      by (simp add: d'_def sn_destroy_def bp_free_def)
    ultimately show ?thesis by (auto simp: same_limits_def alive_def d'_def)
  next
    case False
    define d' where "d' = d\<lparr>cd_sendBuffers := b' # rest, cd_writing := True\<rparr>"
    have "\<exists>out. dev_onSend (Inr n) d = Inr (d', out) \<and> queued out = [] \<and> written out = take n (sn_cbuffer b)"
      using False port by (auto simp: dev_onSend_def q a d'_def asyncSend_def Let_def)
    moreover have "dev_ok os d'" unfolding d'_def by (rule dev_ok_advance [OF ok q f(3) f(4) [OF data]])
    moreover have "backlog d = take n (sn_cbuffer b) @ backlog d'"
      using f(1) by (simp add: backlog_def q d'_def)
    ultimately show ?thesis by (auto simp: same_limits_def alive_def d'_def)
  qed
qed

lemma dev_step_ok:
  assumes "dev_ok os d"
  shows "\<exists>d' out. dev_step os d ev = Inr (d', out) \<and> dev_ok os d' \<and>
    backlog d @ queued out = written out @ backlog d' \<and>
    (alive d \<and> (\<forall>ec. ev \<noteq> Dev_Send_Error ec) \<longrightarrow> alive d')"
proof (cases ev)
  case (Dev_Send bytes)
  then show ?thesis using dev_send_ok [OF assms, of bytes] by (auto simp: dev_step_def)
next
  case (Dev_Sent n)
  show ?thesis
  proof (cases "cd_writing d \<and> n \<le> length (sn_cbuffer (hd (cd_sendBuffers d)))")
    case True
    then obtain b rest where q: "cd_sendBuffers d = b # rest"
      using assms by (cases "cd_sendBuffers d") (auto simp: dev_ok_def)
    with dev_onSend_ok [OF assms q, of n] True Dev_Sent show ?thesis by (fastforce simp: dev_step_def)
  next
    case False
    then show ?thesis using assms Dev_Sent by (auto simp: dev_step_def)
  qed
next
  case (Dev_Send_Error ec)
  have "dev_ok os (d\<lparr>cd_writing := False\<rparr>)" using assms by (simp add: dev_ok_def buffers_of_def)
  moreover have "backlog (d\<lparr>cd_writing := False\<rparr>) = backlog d" by (simp add: backlog_def)
  ultimately show ?thesis using assms Dev_Send_Error by (auto simp: dev_step_def dev_onSend_def)
qed


definition example_device :: device where
  "example_device = (CharacterDevice (BufferPool 1000 512 64 False) True True)\<lparr>cd_port := True\<rparr>"

lemma example_device_ok: "dev_ok (\<lambda>i. 100000 + i) example_device"
proof -
  have "pool_region (BufferPool 1000 512 64 False) = {1000..<1000 + 64 * 512}"
    by (simp add: pool_region_def BufferPool_def)
  moreover have "pool_inv (BufferPool 1000 512 64 False) {}" by (rule BufferPool_inv) simp
  ultimately show ?thesis
    by (simp add: dev_ok_def example_device_def CharacterDevice_def buffers_of_def inj_def)
      (simp add: BufferPool_def)
qed


definition stalled :: "device \<Rightarrow> bool" where
  "stalled d \<longleftrightarrow> \<not> cd_writing d \<and> cd_sendBuffers d \<noteq> []"

lemma send_copy_stalled:
  "stalled d \<Longrightarrow> send_copy os bytes d = Inr (d', out) \<Longrightarrow> stalled d' \<and> written out = []"
  by (auto simp: stalled_def send_copy_def Let_def split: if_splits prod.splits)

lemma send_chunks_stalled:
  "stalled d \<Longrightarrow> send_chunks os n bytes d = Inr (d', out) \<Longrightarrow> stalled d' \<and> written out = []"
proof (induction bytes arbitrary: d d' out rule: length_induct)
  case (1 bytes)
  show ?case
  proof (cases "bytes = [] \<or> n = 0")
    case True
    then show ?thesis using 1(2,3) by (simp add: send_chunks.simps)
  next
    case False
    then obtain d1 o1 o2 where s: "send_copy os (take n bytes) d = Inr (d1, o1)"
      "send_chunks os n (drop n bytes) d1 = Inr (d', o2)" "out = o1 @ o2"
      using 1(3) by (subst (asm) send_chunks.simps) auto
    have len: "length (drop n bytes) < length bytes" using False by simp
    note d1 = send_copy_stalled [OF 1(2) s(1)]
    from 1(1) [rule_format, OF len conjunct1 [OF d1] s(2)] d1 show ?thesis by (simp add: s(3))
  qed
qed

lemma dev_step_stalled:
  "stalled d \<Longrightarrow> dev_step os d ev = Inr (d', out) \<Longrightarrow> stalled d' \<and> written out = []"
  by (cases ev) (auto simp: dev_step_def dev_send_def stalled_def
      dest: send_chunks_stalled [unfolded stalled_def, rotated] split: if_splits)

lemma dev_run_stalled:
  "stalled d \<Longrightarrow> dev_run os d evs = Inr (d', out) \<Longrightarrow> stalled d' \<and> written out = []"
proof (induction evs arbitrary: d out)
  case (Cons ev evs)
  then obtain d1 o1 o2 where s: "dev_step os d ev = Inr (d1, o1)" "dev_run os d1 evs = Inr (d', o2)" "out = o1 @ o2"
    by auto
  with Cons.IH [of d1 o2] dev_step_stalled [OF Cons.prems(1) s(1)] show ?case by simp
qed simp



end
