(* ===== verification/Rate_Measure.thy ===== *)
theory Rate_Measure
  imports Complex_Main C_Strings
begin

text \<open>
  \<open>NearestIntervalBin\<close> (\<open>src/a17/utils/nearest_interval_bin.cpp\<close>) and \<open>RateMeasure\<close>
  (\<open>rate_measure.{h,cpp}\<close>). A \<open>double\<close> is a rational number and its arithmetic exact, the bins
  are the fractions written in the source; the 64-bit integers are integers where the code
  keeps them in range, and words where it divides them as unsigned numbers.
\<close>

section \<open>Nearest interval\<close>

definition kIntervalBins :: "rat list" where
  "kIntervalBins = [1, 4 / 3, 5 / 3, 2, 5 / 2, 3, 4, 5, 20 / 3, 10]"

definition kTenToThe :: "nat list" where
  "kTenToThe = map (\<lambda>i. 10 ^ i) [0..<19] @ [2 ^ 64 - 1]"

fun bit_length :: "nat \<Rightarrow> nat" where
  "bit_length n = (if n = 0 then 0 else Suc (bit_length (n div 2)))"

declare bit_length.simps [simp del]

definition clz :: "nat \<Rightarrow> nat" where
  "clz n = 32 - bit_length n"

definition baseTwoDigits :: "u64 \<Rightarrow> nat" where
  "baseTwoDigits x =
     (let hi = unat x div 2 ^ 32; lo = unat x mod 2 ^ 32
      in if hi = 0 then (if lo \<noteq> 0 then 32 - clz lo else 0) else 64 - clz hi)"

definition guess :: "nat list" where
  "guess = [0,  0,  0,  0,  1,  1,  1,  2,  2,  2,  3,  3,  3,  3,  4,  4,  4,
            5,  5,  5,  6,  6,  6,  6,  7,  7,  7,  8,  8,  8,  9,  9,  9,  9,
            10, 10, 10, 11, 11, 11, 12, 12, 12, 12, 13, 13, 13, 14, 14, 14, 15,
            15, 15, 15, 16, 16, 16, 17, 17, 17, 18, 18, 18, 18, 19]"

definition baseTenDigits :: "u64 \<Rightarrow> nat" where
  "baseTenDigits x =
     (let digits = guess ! baseTwoDigits x
      in digits + (if unat x \<ge> kTenToThe ! digits then 1 else 0))"

definition bin_at :: "nat \<Rightarrow> rat result" where
  "bin_at i = (if i < length kIntervalBins then Inr (kIntervalBins ! i) else Inl Out_Of_Bounds)"

text \<open>
  The two search loops. After the last step to the left the code reads the element before the
  first, after the last step to the right the element behind the last.
\<close>

fun search_left :: "rat \<Rightarrow> nat \<Rightarrow> rat \<Rightarrow> rat \<Rightarrow> nat result" where
  "search_left x 0 diff diff_left = Inr 0"
| "search_left x (Suc i) diff diff_left =
     (if diff_left < diff then
        (case i of
           0 \<Rightarrow> Inl Out_Of_Bounds
         | Suc j \<Rightarrow> and_then (bin_at j) (\<lambda>b. search_left x i diff_left \<bar>x - b\<bar>))
      else Inr (Suc i))"

function search_right :: "rat \<Rightarrow> nat \<Rightarrow> rat \<Rightarrow> rat \<Rightarrow> nat result" where
  "search_right x i diff diff_right =
     (if diff_right < diff \<and> i < length kIntervalBins - 1 then
        and_then (bin_at (i + 2)) (\<lambda>b. search_right x (i + 1) diff_right \<bar>x - b\<bar>)
      else Inr i)"
  by pat_completeness auto
termination
  by (relation "measure (\<lambda>(x, i, d, r). length kIntervalBins - i)") auto

declare search_right.simps [simp del]

definition search_bin :: "rat \<Rightarrow> nat \<Rightarrow> nat result" where
  "search_bin x index =
     and_then (bin_at index) (\<lambda>b.
       let diff = \<bar>x - b\<bar>;
           diff_left = (if index > 0 then Some \<bar>x - kIntervalBins ! (index - 1)\<bar> else None);
           diff_right = (if index < length kIntervalBins - 1 then Some \<bar>x - kIntervalBins ! (index + 1)\<bar> else None)
       in case diff_left of
            Some l \<Rightarrow> if l < diff then search_left x index diff l
              else (case diff_right of Some r \<Rightarrow> if r < diff then search_right x index diff r else Inr index
                    | None \<Rightarrow> Inr index)
          | None \<Rightarrow> (case diff_right of Some r \<Rightarrow> if r < diff then search_right x index diff r else Inr index
                    | None \<Rightarrow> Inr index))"

definition NearestIntervalBin :: "u64 \<Rightarrow> nat \<Rightarrow> (u64 \<times> nat) result" where
  "NearestIntervalBin interval index =
     (if interval = 0 then Inr (0, index)
      else
       (let expo = kTenToThe ! (baseTenDigits interval - 1);
            x = of_nat (unat interval) / of_nat expo
        in and_then (search_bin x index) (\<lambda>index.
           Inr (of_int \<lfloor>kIntervalBins ! index * of_nat expo\<rfloor>, index))))"

section \<open>Digits\<close>

lemma bit_length_bounds: "0 < n \<Longrightarrow> 2 ^ (bit_length n - 1) \<le> n \<and> n < 2 ^ bit_length n \<and> 0 < bit_length n"
proof (induction n rule: bit_length.induct)
  case (1 n)
  show ?case
  proof (cases "n div 2 = 0")
    case True
    then have "n = 1" using 1(2) by linarith
    then show ?thesis by (simp add: bit_length.simps)
  next
    case False
    then have ih: "2 ^ (bit_length (n div 2) - 1) \<le> n div 2" "n div 2 < 2 ^ bit_length (n div 2)" "0 < bit_length (n div 2)"
      using 1 by auto
    obtain k where k: "bit_length (n div 2) = Suc k" using ih(3) by (cases "bit_length (n div 2)") auto
    have "bit_length n = Suc (Suc k)" using 1(2) k by (subst bit_length.simps) simp
    moreover have "2 * 2 ^ k \<le> n" using ih(1) unfolding k diff_Suc_1 by linarith
    moreover have "n < 2 * 2 ^ Suc k" using ih(2) unfolding k by linarith
    ultimately show ?thesis by simp
  qed
qed

lemma bit_length_unique: "2 ^ k \<le> n \<Longrightarrow> n < 2 ^ Suc k \<Longrightarrow> bit_length n = Suc k"
proof -
  assume *: "2 ^ k \<le> n" "n < 2 ^ Suc k"
  then have "0 < n" using less_le_trans [of 0 "2 ^ k" n] by simp
  note b = bit_length_bounds [OF this]
  have "bit_length n - 1 < Suc k" using b *(2) power_less_imp_less_exp [of "2::nat" "bit_length n - 1" "Suc k"] by simp
  moreover have "(2::nat) ^ k < 2 ^ bit_length n" using b *(1) by linarith
  then have "k < bit_length n" by simp
  ultimately show ?thesis using b by linarith
qed

lemma bit_length_le: "n < 2 ^ k \<Longrightarrow> bit_length n \<le> k"
proof (cases "n = 0")
  case False
  assume "n < 2 ^ k"
  with False bit_length_bounds [of n] power_less_imp_less_exp [of "2::nat" "bit_length n - 1" k]
  have "bit_length n - 1 < k" by linarith
  then show ?thesis by linarith
qed (simp add: bit_length.simps)

lemma baseTwoDigits_eq: "baseTwoDigits x = bit_length (unat x)"
proof -
  have x: "unat x < 2 ^ 64" using unsigned_less [of x, where 'a = nat] by simp
  show ?thesis
  proof (cases "unat x div 2 ^ 32 = 0")
    case True
    then have "unat x < 2 ^ 32" by (simp add: div_eq_0_iff)
    then have "unat x mod 2 ^ 32 = unat x" "bit_length (unat x) \<le> 32" by (simp_all add: bit_length_le)
    then show ?thesis using True by (auto simp: baseTwoDigits_def clz_def Let_def bit_length.simps [of 0])
  next
    case False
    let ?h = "unat x div 2 ^ 32"
    have h: "0 < ?h" "?h < 2 ^ 32" using False x by auto
    note b = bit_length_bounds [OF h(1)] and le = bit_length_le [OF h(2)]
    obtain k where k: "bit_length ?h = Suc k" using b by (cases "bit_length ?h") auto
    have "2 ^ k \<le> ?h" "?h < 2 ^ Suc k" using b k by auto
    then have "2 ^ k * 2 ^ 32 \<le> unat x" "unat x < 2 ^ Suc k * 2 ^ 32"
      by (simp_all only: less_eq_div_iff_mult_less_eq div_less_iff_less_mult zero_less_power zero_less_numeral)
    then have "2 ^ (k + 32) \<le> unat x" "unat x < 2 ^ Suc (k + 32)" by (simp_all add: power_add)
    then have "bit_length (unat x) = Suc (k + 32)" by (rule bit_length_unique)
    then show ?thesis using False k le by (simp add: baseTwoDigits_def clz_def Let_def)
  qed
qed

definition guess_ok :: "nat \<Rightarrow> bool" where
  "guess_ok b \<longleftrightarrow> (let g = guess ! b in (g = 0 \<or> 10 ^ (g - 1) \<le> (2::nat) ^ (b - 1)) \<and>
     (g < 19 \<and> (2::nat) ^ b \<le> 10 ^ (g + 1) \<or> b = 64 \<and> g = 19))"

lemma guess_all: "b \<in> set [1..<65] \<Longrightarrow> guess_ok b"
proof -
  have "list_all guess_ok [1..<65]" by (simp add: upt_rec_numeral upt_conv_Cons guess_ok_def guess_def)
  then show "b \<in> set [1..<65] \<Longrightarrow> ?thesis" unfolding list_all_iff by blast
qed

lemma kTenToThe_nth: "g < 19 \<Longrightarrow> kTenToThe ! g = 10 ^ g" "kTenToThe ! 19 = 2 ^ 64 - 1"
  by (simp_all add: kTenToThe_def nth_append)

lemma baseTenDigits_bounds:
  assumes "x \<noteq> 0" and "unat x < 10 ^ 19"
  shows "10 ^ (baseTenDigits x - 1) \<le> unat x \<and> unat x < 10 ^ baseTenDigits x \<and>
    0 < baseTenDigits x \<and> baseTenDigits x \<le> 19"
proof -
  have pos: "0 < unat x" using assms(1) by (simp add: unat_gt_0)
  have x: "unat x < 2 ^ 64" using unsigned_less [of x, where 'a = nat] by simp
  let ?b = "bit_length (unat x)"
  let ?g = "guess ! ?b"
  note b = bit_length_bounds [OF pos] and le = bit_length_le [OF x]
  have ok: "guess_ok ?b" using b le by (intro guess_all) simp
  have low: "?g = 0 \<or> 10 ^ (?g - 1) \<le> unat x"
    using ok b unfolding guess_ok_def Let_def by (meson le_trans)
  show ?thesis
  proof (cases "?b = 64 \<and> ?g = 19")
    case True
    have "\<not> unat x \<ge> kTenToThe ! 19" using assms(2) by (simp add: kTenToThe_nth)
    moreover have "?b = 64" "guess ! 64 = 19" using True by (simp, metis True)
    ultimately have "baseTenDigits x = 19" by (simp add: baseTenDigits_def baseTwoDigits_eq Let_def)
    moreover have "10 ^ (19 - 1) \<le> unat x" using low conjunct2 [OF True] by (metis zero_neq_numeral)
    ultimately show ?thesis using assms(2) by simp
  next
    case False
    with ok have g: "?g < 19" "(2::nat) ^ ?b \<le> 10 ^ (?g + 1)" unfolding guess_ok_def Let_def by auto
    have d: "baseTenDigits x = ?g + (if unat x \<ge> 10 ^ ?g then 1 else 0)"
      using kTenToThe_nth(1) [OF g(1)] by (simp add: baseTenDigits_def baseTwoDigits_eq Let_def)
    have up: "unat x < 10 ^ (?g + 1)" using b g(2) by linarith
    show ?thesis
    proof (cases "unat x \<ge> 10 ^ ?g")
      case True
      then show ?thesis using d g(1) up by simp
    next
      case False
      then have "?g \<noteq> 0" using pos by (metis One_nat_def Suc_leI power_0)
      then show ?thesis using d g(1) False low by simp
    qed
  qed
qed

section \<open>The search finds the nearest bin\<close>

lemma bins_length: "length kIntervalBins = 10"
  by (simp add: kIntervalBins_def)

lemma bins_sorted: "i < j \<Longrightarrow> j < 10 \<Longrightarrow> kIntervalBins ! i < kIntervalBins ! j"
proof -
  have "sorted_wrt (<) kIntervalBins" by (simp add: kIntervalBins_def)
  then show "i < j \<Longrightarrow> j < 10 \<Longrightarrow> ?thesis" by (simp add: sorted_wrt_nth_less bins_length)
qed

abbreviation gap :: "rat \<Rightarrow> nat \<Rightarrow> rat" where
  "gap x i \<equiv> \<bar>x - kIntervalBins ! i\<bar>"

lemma abs_gap_right:
  fixes x a b c :: rat
  assumes "\<bar>x - a\<bar> \<le> \<bar>x - b\<bar>" and "a < b" and "b \<le> c"
  shows "\<bar>x - a\<bar> \<le> \<bar>x - c\<bar>"
  using assms by (auto simp: abs_if split: if_splits)

lemma abs_gap_left:
  fixes x a b c :: rat
  assumes "\<bar>x - a\<bar> \<le> \<bar>x - b\<bar>" and "b < a" and "c \<le> b"
  shows "\<bar>x - a\<bar> \<le> \<bar>x - c\<bar>"
  using assms by (auto simp: abs_if split: if_splits)

definition nearest :: "rat \<Rightarrow> nat \<Rightarrow> bool" where
  "nearest x i \<longleftrightarrow> i < 10 \<and> (\<forall>k < 10. gap x i \<le> gap x k)"

lemma local_minimum:
  assumes "i < 10" and "i > 0 \<longrightarrow> gap x i \<le> gap x (i - 1)" and "i < 9 \<longrightarrow> gap x i \<le> gap x (i + 1)"
  shows "nearest x i"
  unfolding nearest_def
proof (intro conjI allI impI)
  fix k :: nat assume k: "k < 10"
  consider "k < i" | "k = i" | "i < k" by linarith
  then show "gap x i \<le> gap x k"
  proof cases
    case 1
    then have c: "kIntervalBins ! k \<le> kIntervalBins ! (i - 1)"
      using bins_sorted [of k "i - 1"] assms(1) by (cases "k = i - 1") (simp, linarith)
    have "gap x i \<le> gap x (i - 1)" using 1 assms(2) by simp
    moreover have "kIntervalBins ! (i - 1) < kIntervalBins ! i" using 1 assms(1) by (intro bins_sorted) simp_all
    ultimately show ?thesis using c by (rule abs_gap_left)
  next
    case 3
    then have c: "kIntervalBins ! (i + 1) \<le> kIntervalBins ! k"
      using bins_sorted [of "i + 1" k] k by (cases "k = i + 1") (simp, linarith)
    have "gap x i \<le> gap x (i + 1)" using 3 k assms(3) by simp
    moreover have "kIntervalBins ! i < kIntervalBins ! (i + 1)" using 3 k by (intro bins_sorted) simp_all
    ultimately show ?thesis using c by (rule abs_gap_right)
  qed simp
qed (rule assms(1))

lemma search_left_nearest:
  assumes "i < 10" and "i < 9 \<longrightarrow> gap x i \<le> gap x (i + 1)"
  shows "case search_left x i (gap x i) (gap x (i - 1)) of
      Inr j \<Rightarrow> nearest x j \<and> j \<le> i | Inl e \<Rightarrow> e = Out_Of_Bounds \<and> nearest x 0"
  using assms
proof (induction i)
  case 0
  then show ?case using local_minimum [of 0 x] by simp
next
  case (Suc i)
  show ?case
  proof (cases "gap x i < gap x (Suc i)")
    case True
    show ?thesis
    proof (cases i)
      case 0
      then show ?thesis using True Suc.prems local_minimum [of 0 x] by simp
    next
      case (Suc j)
      have "case search_left x i (gap x i) (gap x (i - 1)) of Inr j \<Rightarrow> nearest x j \<and> j \<le> i
          | Inl e \<Rightarrow> e = Out_Of_Bounds \<and> nearest x 0"
        using Suc.IH Suc.prems True by simp
      then show ?thesis using True Suc Suc.prems by (auto simp: bin_at_def bins_length split: sum.splits)
    qed
  next
    case False
    then have "nearest x (Suc i)" using Suc.prems by (intro local_minimum) auto
    with False show ?thesis by simp
  qed
qed

lemma search_right_nearest:
  assumes "i < 9" and "i > 0 \<longrightarrow> gap x i \<le> gap x (i - 1)"
  shows "case search_right x i (gap x i) (gap x (i + 1)) of
      Inr j \<Rightarrow> nearest x j \<and> i \<le> j | Inl e \<Rightarrow> e = Out_Of_Bounds \<and> nearest x 9"
  using assms
proof (induction "9 - i" arbitrary: i rule: less_induct)
  case less
  show ?case
  proof (cases "gap x (i + 1) < gap x i")
    case True
    show ?thesis
    proof (cases "i = 8")
      case eight: True
      then have "nearest x 9" using True by (intro local_minimum) simp_all
      then show ?thesis
        using True eight by (subst search_right.simps) (simp add: bins_length bin_at_def)
    next
      case False
      have "case search_right x (i + 1) (gap x (i + 1)) (gap x (i + 1 + 1)) of
          Inr j \<Rightarrow> nearest x j \<and> i + 1 \<le> j | Inl e \<Rightarrow> e = Out_Of_Bounds \<and> nearest x 9"
        using less.prems True False by (intro less.hyps) auto
      then show ?thesis
        using True False less.prems
        by (subst search_right.simps) (auto simp: bins_length bin_at_def split: sum.splits)
    qed
  next
    case False
    then have "nearest x i" using less.prems by (intro local_minimum) auto
    with False show ?thesis by (subst search_right.simps) simp
  qed
qed

lemma search_bin_nearest:
  assumes "i < 10"
  shows "case search_bin x i of
      Inr j \<Rightarrow> nearest x j | Inl e \<Rightarrow> e = Out_Of_Bounds \<and> (nearest x 0 \<and> i \<noteq> 0 \<or> nearest x 9 \<and> i \<noteq> 9)"
proof -
  have b: "bin_at i = Inr (kIntervalBins ! i)" using assms by (simp add: bin_at_def bins_length)
  have right: "case (if i < 9 then if gap x (i + 1) < gap x i then search_right x i (gap x i) (gap x (i + 1)) else Inr i else Inr i) of
      Inr j \<Rightarrow> nearest x j | Inl e \<Rightarrow> e = Out_Of_Bounds \<and> nearest x 9 \<and> i \<noteq> 9"
    if left: "i > 0 \<longrightarrow> gap x i \<le> gap x (i - 1)"
  proof (cases "i < 9 \<and> gap x (i + 1) < gap x i")
    case True
    with search_right_nearest [of i x] left show ?thesis by (auto split: sum.splits)
  next
    case False
    then have "nearest x i" using assms left by (intro local_minimum) auto
    with False show ?thesis by auto
  qed
  show ?thesis
  proof (cases "i > 0 \<and> gap x (i - 1) < gap x i")
    case True
    then have "i < 9 \<longrightarrow> gap x i \<le> gap x (i + 1)"
    proof (intro impI)
      assume "i < 9"
      then have "kIntervalBins ! (i - 1) < kIntervalBins ! i" "kIntervalBins ! i < kIntervalBins ! (i + 1)"
        using True by (auto intro!: bins_sorted)
      with True show "gap x i \<le> gap x (i + 1)" by (auto simp: abs_if split: if_splits)
    qed
    with search_left_nearest [of i x] assms True show ?thesis
      by (auto simp: search_bin_def b Let_def split: sum.splits)
  next
    case False
    then have left: "i > 0 \<longrightarrow> gap x i \<le> gap x (i - 1)" by linarith
    have eq: "search_bin x i = (if i < 9 then if gap x (i + 1) < gap x i
        then search_right x i (gap x i) (gap x (i + 1)) else Inr i else Inr i)"
      using False unfolding search_bin_def b and_then.simps bins_length Let_def by (cases "i = 0") simp_all
    show ?thesis using right [OF left, folded eq] by (cases "search_bin x i") simp_all
  qed
qed

text \<open>
  The nearest interval bin. For an interval below $10^{19}$ ns the code scales it by the power of
  ten that makes it a number from 1 to 10, and the search, from whatever bin it starts, ends in a
  bin with the least distance among all ten; the result is that bin scaled back. On its way to the
  first or the last bin from another one it reads outside the array of bins instead.
\<close>

theorem nearest_bin_found:
  assumes "interval \<noteq> 0" and "unat interval < 10 ^ 19" and "index < 10"
  defines "scale \<equiv> 10 ^ (baseTenDigits interval - 1) :: nat"
  defines "x \<equiv> of_nat (unat interval) / of_nat scale :: rat"
  shows "scale \<le> unat interval \<and> unat interval < 10 * scale \<and>
    (case NearestIntervalBin interval index of
       Inr (v, j) \<Rightarrow> j < 10 \<and> (\<forall>k < 10. \<bar>x - kIntervalBins ! j\<bar> \<le> \<bar>x - kIntervalBins ! k\<bar>) \<and>
         v = of_int \<lfloor>kIntervalBins ! j * of_nat scale\<rfloor>
     | Inl e \<Rightarrow> e = Out_Of_Bounds \<and>
         (\<exists>j \<in> {0, 9}. j \<noteq> index \<and> (\<forall>k < 10. \<bar>x - kIntervalBins ! j\<bar> \<le> \<bar>x - kIntervalBins ! k\<bar>)))"
proof -
  note d = baseTenDigits_bounds [OF assms(1,2)]
  obtain n where n: "baseTenDigits interval = Suc n" "n < 19" using d by (cases "baseTenDigits interval") auto
  have expo: "kTenToThe ! (baseTenDigits interval - 1) = scale"
    using n by (simp add: scale_def kTenToThe_nth)
  have "NearestIntervalBin interval index = and_then (search_bin x index) (\<lambda>index.
      Inr (of_int \<lfloor>kIntervalBins ! index * of_nat scale\<rfloor>, index))"
    unfolding NearestIntervalBin_def Let_def expo x_def using assms(1) by (simp only: if_False)
  moreover have "scale \<le> unat interval \<and> unat interval < 10 * scale"
    using d n by (simp add: scale_def)
  ultimately show ?thesis
    using search_bin_nearest [OF assms(3), of x] by (auto simp: nearest_def split: sum.splits)
qed

theorem nearest_bin_found_witness:
  "case NearestIntervalBin 23 3 of Inr (v, j) \<Rightarrow> j < 10 | Inl e \<Rightarrow> e = Out_Of_Bounds"
  using nearest_bin_found [of 23 3] by (auto split: sum.splits)

section \<open>RateMeasure\<close>

record rate_measure =
  rm_sample_window :: int
  rm_target_interval :: int
  rm_current_target_index :: nat
  rm_intervals :: "int list"
  rm_jitters :: "int list"
  rm_sizes :: "nat list"
  rm_ticks :: nat
  rm_last_time :: int
  rm_interval_acc :: int
  rm_jitter_acc :: int
  rm_size_acc :: int
  rm_avg_interval :: int
  rm_max_jitter :: int

definition RateMeasure :: "int \<Rightarrow> rate_measure" where
  "RateMeasure sample_window =
     \<lparr>rm_sample_window = sample_window, rm_target_interval = 0, rm_current_target_index = 0,
      rm_intervals = [], rm_jitters = [], rm_sizes = [], rm_ticks = 0, rm_last_time = 0,
      rm_interval_acc = 0, rm_jitter_acc = 0, rm_size_acc = 0, rm_avg_interval = 0, rm_max_jitter = 0\<rparr>"

text \<open>The three loops that drop old samples; \<open>front\<close> of an empty queue is undefined.\<close>

fun drop_old :: "int \<Rightarrow> int \<Rightarrow> int list \<Rightarrow> (int \<times> int list) result" where
  "drop_old window acc [] = (if acc > window then Inl Dangling else Inr (acc, []))"
| "drop_old window acc (i # is) = (if acc > window then drop_old window (acc - i) is else Inr (acc, i # is))"

fun drop_excess :: "('a \<Rightarrow> int) \<Rightarrow> nat \<Rightarrow> int \<Rightarrow> 'a list \<Rightarrow> int \<times> 'a list" where
  "drop_excess f n acc [] = (acc, [])"
| "drop_excess f n acc (x # xs) =
     (if length (x # xs) > n then drop_excess f n (acc - f x) xs else (acc, x # xs))"

text \<open>The average divides as unsigned numbers and is stored as a signed one.\<close>

definition average :: "int \<Rightarrow> nat \<Rightarrow> int" where
  "average acc n = sint ((of_int acc :: u64) div of_nat n)"

definition markSize :: "nat \<Rightarrow> int \<Rightarrow> rate_measure \<Rightarrow> rate_measure result" where
  "markSize n now r =
     (let r = r\<lparr>rm_ticks := rm_ticks r + 1\<rparr> in
      if rm_last_time r = 0 then Inr (r\<lparr>rm_last_time := now\<rparr>)
      else
       (let interval = now - rm_last_time r in
        and_then (drop_old (rm_sample_window r) (rm_interval_acc r + interval) (rm_intervals r @ [interval]))
          (\<lambda>(acc, intervals).
        let r = r\<lparr>rm_interval_acc := acc, rm_intervals := intervals\<rparr> in
        and_then
          (if intervals \<noteq> [] then
             (let avg = average acc (length intervals) in
              and_then (NearestIntervalBin (of_int avg) (rm_current_target_index r)) (\<lambda>(target, index).
                Inr (r\<lparr>rm_avg_interval := avg, rm_target_interval := sint target, rm_current_target_index := index\<rparr>)))
           else Inr r)
          (\<lambda>r.
        let jitter = \<bar>interval - rm_target_interval r\<bar>;
            (jitter_acc, jitters) = drop_excess (\<lambda>x. x) (length intervals) (rm_jitter_acc r + jitter) (rm_jitters r @ [jitter]);
            (size_acc, sizes) = drop_excess int (length intervals) (rm_size_acc r + int n) (rm_sizes r @ [n])
        in Inr (r\<lparr>rm_max_jitter := max (rm_max_jitter r) jitter, rm_jitters := jitters, rm_jitter_acc := jitter_acc,
                  rm_sizes := sizes, rm_size_acc := size_acc, rm_last_time := now\<rparr>)))))"

text \<open>The overloads: a time point is its nanoseconds since the epoch of the clock.\<close>

definition markSize_at :: "nat \<Rightarrow> int \<Rightarrow> rate_measure \<Rightarrow> rate_measure result" where
  "markSize_at n now r = markSize n now r"

definition mark :: "int \<Rightarrow> rate_measure \<Rightarrow> rate_measure result" where
  "mark now r = markSize 0 now r"

definition mark_at :: "int \<Rightarrow> rate_measure \<Rightarrow> rate_measure result" where
  "mark_at now r = mark now r"

definition rm_reset :: "rate_measure \<Rightarrow> rate_measure" where
  "rm_reset r = r\<lparr>rm_last_time := 0, rm_current_target_index := 0, rm_target_interval := 0,
     rm_avg_interval := 0, rm_max_jitter := 0\<rparr>"

definition rm_resetMaxJitter :: "rate_measure \<Rightarrow> rate_measure" where
  "rm_resetMaxJitter r = r\<lparr>rm_max_jitter := 0\<rparr>"

definition isAtWindow :: "rate_measure \<Rightarrow> bool result" where
  "isAtWindow r =
     (if rm_target_interval r = 0 then Inr False
      else (let n = rm_sample_window r div rm_target_interval r
            in if n = 0 then Inl Division_By_Zero else Inr (int (rm_ticks r) mod n = 0)))"

definition rm_size :: "rate_measure \<Rightarrow> int" where
  "rm_size r = (if rm_sizes r \<noteq> [] then rm_size_acc r div int (length (rm_sizes r)) else 0)"

definition rm_frequency :: "rate_measure \<Rightarrow> rat" where
  "rm_frequency r = (if rm_avg_interval r \<noteq> 0 then 1000000000 / of_int (rm_avg_interval r) else 0)"

definition rm_targetFrequency :: "rate_measure \<Rightarrow> int" where
  "rm_targetFrequency r = (if rm_target_interval r \<noteq> 0 then 1000000000 div rm_target_interval r else 0)"

definition rm_jitter :: "rate_measure \<Rightarrow> rat" where
  "rm_jitter r = (if rm_jitters r \<noteq> [] then of_int (rm_jitter_acc r) / of_nat (length (rm_jitters r)) / 1000 else 0)"

definition rm_jitterPercent :: "rate_measure \<Rightarrow> rat" where
  "rm_jitterPercent r =
     (if rm_target_interval r \<noteq> 0 then 100 * (rm_jitter r * 1000) / of_int (rm_target_interval r) else 0)"

section \<open>The sliding window\<close>

text \<open>
  \<open>window\<close> is the specification: of all intervals so far, the longest run of most recent ones
  whose sum does not exceed the sample window.
\<close>

fun window :: "int \<Rightarrow> int list \<Rightarrow> int list" where
  "window w [] = []"
| "window w (i # is) = (if sum_list (i # is) > w then window w is else i # is)"

lemma drop_old_window:
  "0 \<le> w \<Longrightarrow> acc = sum_list is \<Longrightarrow> drop_old w acc is = Inr (sum_list (window w is), window w is)"
  by (induction "is" arbitrary: acc) auto

lemma window_snoc:
  assumes "0 \<le> x" and "\<forall>i \<in> set is. 0 \<le> i"
  shows "window w (window w is @ [x]) = window w (is @ [x])"
  using assms
proof (induction "is")
  case (Cons i "is")
  then show ?case by auto
qed simp

lemma window_sum: "0 \<le> w \<Longrightarrow> sum_list (window w is) \<le> w"
  by (induction "is") auto

lemma window_set: "set (window w is) \<subseteq> set is"
  by (induction "is") auto

lemma window_suffix: "\<exists>pre. is = pre @ window w is \<and> (pre \<noteq> [] \<longrightarrow> w < sum_list (last pre # window w is))"
proof (induction "is")
  case (Cons i "is")
  show ?case
  proof (cases "sum_list (i # is) > w")
    case True
    obtain pre where pre: "is = pre @ window w is" "pre \<noteq> [] \<longrightarrow> w < sum_list (last pre # window w is)"
      using Cons.IH by blast
    show ?thesis
    proof (cases "pre = []")
      case True
      then have "is = window w is" using pre(1) by simp
      then show ?thesis using \<open>sum_list (i # is) > w\<close> by (intro exI [of _ "[i]"]) auto
    next
      case False
      then show ?thesis using pre \<open>sum_list (i # is) > w\<close> by (intro exI [of _ "i # pre"]) auto
    qed
  qed simp
qed simp

lemma drop_excess_sum:
  "acc = sum_list (map f xs) \<Longrightarrow>
    drop_excess f n acc xs = (sum_list (map f (drop (length xs - n) xs)), drop (length xs - n) xs)"
proof (induction xs arbitrary: acc)
  case (Cons x xs)
  then show ?case by (cases "length xs - n") (auto simp: Suc_diff_le not_less)
qed simp

definition rm_ok :: "int \<Rightarrow> int list \<Rightarrow> nat list \<Rightarrow> rate_measure \<Rightarrow> bool" where
  "rm_ok w ivs szs r \<longleftrightarrow>
     rm_sample_window r = w \<and> rm_intervals r = window w ivs \<and> rm_interval_acc r = sum_list (window w ivs) \<and>
     length szs = length ivs \<and> (\<forall>i \<in> set ivs. 0 \<le> i) \<and>
     length (rm_jitters r) = length (window w ivs) \<and> rm_jitter_acc r = sum_list (rm_jitters r) \<and>
     rm_sizes r = drop (length szs - length (window w ivs)) szs \<and>
     rm_size_acc r = int (sum_list (rm_sizes r)) \<and> rm_current_target_index r < 10 \<and>
     (window w ivs \<noteq> [] \<longrightarrow> rm_avg_interval r = sum_list (window w ivs) div int (length (window w ivs)))"

lemma average_div:
  assumes "0 \<le> acc" and "acc < 2 ^ 63" and "0 < n" and "n < 2 ^ 63"
  shows "average acc n = acc div int n"
proof -
  have a: "uint (of_int acc :: u64) = acc" using assms(1,2) by (simp add: unsigned_of_int take_bit_int_eq_self)
  have b: "uint (of_nat n :: u64) = int n" using assms(4) by (simp add: unsigned_of_nat take_bit_nat_eq_self)
  have "uint ((of_int acc :: u64) div of_nat n) = acc div int n" by (simp add: uint_div a b)
  moreover have "acc div int n \<le> acc" "0 \<le> acc div int n"
    using assms(1,3) div_le_dividend [of "nat acc" n]
    by (cases acc; simp flip: zdiv_int; fail)+
  ultimately have "(of_int acc :: u64) div of_nat n = of_int (acc div int n)"
    by (metis word_of_int_uint)
  then show ?thesis
    using \<open>acc div int n \<le> acc\<close> \<open>0 \<le> acc div int n\<close> assms(2)
    by (simp add: average_def signed_of_int signed_take_bit_int_eq_self)
qed

lemma NearestIntervalBin_index:
  assumes "index < 10"
  shows "case NearestIntervalBin interval index of Inr (v, j) \<Rightarrow> j < 10 | Inl e \<Rightarrow> e = Out_Of_Bounds"
  using search_bin_nearest [OF assms, of "of_nat (unat interval) / of_nat (kTenToThe ! (baseTenDigits interval - 1))"]
  by (auto simp: NearestIntervalBin_def Let_def nearest_def assms split: sum.splits)

lemma and_then_cases:
  "and_then x f = (case x of Inl e \<Rightarrow> Inl e | Inr a \<Rightarrow> f a)"
  by (cases x) auto

lemma markSize_step:
  assumes ok: "rm_ok w ivs szs r" and w: "0 \<le> w" "w < 2 ^ 63"
    and t: "0 < rm_last_time r" "rm_last_time r \<le> now" and n: "length ivs < 2 ^ 63 - 1"
  shows "case markSize n now r of
      Inr r' \<Rightarrow> rm_ok w (ivs @ [now - rm_last_time r]) (szs @ [n]) r' \<and> rm_last_time r' = now \<and> rm_ticks r' = rm_ticks r + 1
    | Inl e \<Rightarrow> e = Out_Of_Bounds"
proof -
  define i where "i = now - rm_last_time r"
  define win where "win = window w (ivs @ [i])"
  have snoc: "window w (window w ivs @ [i]) = win"
    using ok t by (simp add: window_snoc rm_ok_def i_def win_def)
  have old: "drop_old w (rm_interval_acc r + i) (rm_intervals r @ [i]) = Inr (sum_list win, win)"
    using ok drop_old_window [OF w(1), of _ "window w ivs @ [i]"] by (simp add: rm_ok_def snoc)
  obtain pre where pre: "window w ivs @ [i] = pre @ win"
    using window_suffix [of "window w ivs @ [i]" w] unfolding snoc by blast
  have len: "length win \<le> Suc (length (window w ivs))" "length (window w ivs) \<le> length szs"
    using arg_cong [OF pre, of length] window_suffix [of ivs w] ok
    by (auto simp: rm_ok_def) (metis le_add2 length_append)
  have jit: "drop_excess (\<lambda>x. x) (length win) (rm_jitter_acc r + j) (rm_jitters r @ [j]) =
      (sum_list (drop (Suc (length (window w ivs)) - length win) (rm_jitters r @ [j])),
       drop (Suc (length (window w ivs)) - length win) (rm_jitters r @ [j]))" for j
    using ok drop_excess_sum [of _ "\<lambda>x. x" "rm_jitters r @ [j]" "length win"] by (simp add: rm_ok_def)
  have siz: "drop_excess int (length win) (rm_size_acc r + int n) (rm_sizes r @ [n]) =
      (int (sum_list (drop (length (szs @ [n]) - length win) (szs @ [n]))), drop (length (szs @ [n]) - length win) (szs @ [n]))"
    using ok len drop_excess_sum [OF refl, of int "length win" "rm_sizes r @ [n]"]
    by (simp add: rm_ok_def sum_list_of_nat Suc_diff_le)
  have nn: "\<forall>x \<in> set (ivs @ [i]). 0 \<le> x" using ok t by (simp add: rm_ok_def i_def)
  have sums: "0 \<le> sum_list win" "sum_list win \<le> w"
    using nn window_set [of w "ivs @ [i]"] window_sum [OF w(1)] unfolding win_def
    by (blast intro: sum_list_nonneg)+
  have avg: "win \<noteq> [] \<Longrightarrow> average (sum_list win) (length win) = sum_list win div int (length win)"
    using sums w len n ok by (intro average_div) (auto simp: rm_ok_def)
  show ?thesis
  proof (cases "win = []")
    case True
    with old t show ?thesis unfolding markSize_def and_then_cases using ok jit siz
      by (auto simp: Let_def i_def [symmetric] rm_ok_def win_def [symmetric] nn split: prod.splits)
  next
    case False
    with old t show ?thesis unfolding markSize_def and_then_cases 
      using ok jit siz len NearestIntervalBin_index [of "rm_current_target_index r" "of_int (sum_list win div int (length win))"]
      by (auto simp: Let_def i_def [symmetric] rm_ok_def win_def [symmetric] avg nn split: prod.splits sum.splits)
  qed
qed

section \<open>A run of samples\<close>

fun rm_marks :: "(nat \<times> int) list \<Rightarrow> rate_measure \<Rightarrow> rate_measure result" where
  "rm_marks [] r = Inr r"
| "rm_marks ((n, now) # ms) r = and_then (markSize n now r) (rm_marks ms)"

fun gaps :: "int \<Rightarrow> int list \<Rightarrow> int list" where
  "gaps t [] = []"
| "gaps t (u # us) = (u - t) # gaps u us"

lemma rm_marks_ok:
  assumes "rm_ok w ivs szs r" and "0 \<le> w" "w < 2 ^ 63" and "0 < rm_last_time r"
    and "sorted (rm_last_time r # map snd ms)" and "length ivs + length ms < 2 ^ 63"
  shows "case rm_marks ms r of
      Inr r' \<Rightarrow> rm_ok w (ivs @ gaps (rm_last_time r) (map snd ms)) (szs @ map fst ms) r' \<and>
        rm_ticks r' = rm_ticks r + length ms
    | Inl e \<Rightarrow> e = Out_Of_Bounds"
  using assms(1,4-6)
proof (induction ms arbitrary: r ivs szs)
  case (Cons m ms)
  obtain n now where m: "m = (n, now)" by (cases m)
  have step: "case markSize n now r of
      Inr r' \<Rightarrow> rm_ok w (ivs @ [now - rm_last_time r]) (szs @ [n]) r' \<and> rm_last_time r' = now \<and> rm_ticks r' = rm_ticks r + 1
    | Inl e \<Rightarrow> e = Out_Of_Bounds"
    using Cons.prems m by (intro markSize_step assms(2,3)) auto
  then show ?case
  proof (cases "markSize n now r")
    case (Inr r')
    with step have "rm_ok w (ivs @ [now - rm_last_time r]) (szs @ [n]) r'"
      "rm_last_time r' = now" "rm_ticks r' = rm_ticks r + 1" by auto
    with Cons.IH [of "ivs @ [now - rm_last_time r]" "szs @ [n]" r'] Cons.prems m Inr show ?thesis
      by (auto split: sum.splits)
  qed (simp add: m)
qed simp

lemma RateMeasure_first:
  assumes "0 \<le> w"
  shows "\<exists>r. markSize n t (RateMeasure w) = Inr r \<and> rm_ok w [] [] r \<and> rm_last_time r = t \<and> rm_ticks r = 1"
  using assms by (simp add: markSize_def RateMeasure_def rm_ok_def)



end
