(* ===== verification/Udp_Socket.thy ===== *)
theory Udp_Socket
  imports Smart_Messages
begin

text \<open>
  \<open>GenericUdp\<close> (\<open>src/a17/utils/udp_socket.{h,cpp}\<close>): vectors of \<open>double\<close> in datagrams. A \<open>double\<close> is its
  bit pattern, a 64-bit word, stored as eight bytes, low byte first. An endpoint is a number, 0
  the unset one. The socket's completions are events, its calls outputs; the second argument
  of \<open>boost::asio::buffer\<close> counts bytes.
\<close>

section \<open>Definitions\<close>

record generic_udp =
  ud_target :: nat
  ud_receiveBuffer :: "u8 list"
  ud_firstMessage :: bool

datatype udp_out =
    Udp_Receive nat               \<comment> \<open>\<open>async_receive_from\<close> into that many bytes\<close>
  | Udp_Handler "u64 list"
  | Udp_Send nat "u8 list"        \<comment> \<open>\<open>async_send_to\<close> an endpoint\<close>
  | Udp_Wait nat                  \<comment> \<open>the recovery timer, in seconds\<close>

definition udp_receive :: "udp_out list" where
  "udp_receive = [Udp_Receive 1024]"

definition GenericUdp :: "u8 list \<Rightarrow> generic_udp \<times> udp_out list" where
  "GenericUdp memory =
     (\<lparr>ud_target = 0, ud_receiveBuffer = memory, ud_firstMessage = False\<rparr>, udp_receive)"

definition udp_parser :: "nat \<Rightarrow> generic_udp \<Rightarrow> udp_out list" where
  "udp_parser bytes u =
     (if bytes < 8 then []
      else [Udp_Handler (map (\<lambda>i. words_of_bytes (ud_receiveBuffer u) ! i) [0..<bytes div 8])])"

text \<open>
  \<open>onReceive\<close>: an error, or a datagram, of which asio stores at most the size of the buffer it
  was given, with its sender.
\<close>

definition udp_onReceive :: "nat + nat \<times> u8 list \<Rightarrow> generic_udp \<Rightarrow> generic_udp \<times> udp_out list" where
  "udp_onReceive ev u =
     (let u = (case ev of
                 Inl ec \<Rightarrow> u
               | Inr (sender, datagram) \<Rightarrow>
                   u\<lparr>ud_target := sender,
                     ud_receiveBuffer := take 1024 datagram @ drop (length (take 1024 datagram)) (ud_receiveBuffer u)\<rparr>);
          u = (if \<not> ud_firstMessage u then u\<lparr>ud_firstMessage := True\<rparr> else u)
      in case ev of
           Inr (sender, datagram) \<Rightarrow> (u, udp_parser (length (take 1024 datagram)) u @ udp_receive)
         | Inl ec \<Rightarrow> (u, [Udp_Wait 1]))"

definition udp_onRecovery :: "generic_udp \<Rightarrow> generic_udp \<times> udp_out list" where
  "udp_onRecovery u = (u, udp_receive)"

definition udp_send :: "u64 list \<Rightarrow> generic_udp \<Rightarrow> generic_udp \<times> udp_out list" where
  "udp_send v u =
     (u, if ud_firstMessage u then [Udp_Send (ud_target u) (take (length v) (bytes_of_words v))] else [])"

definition udp_connected :: "generic_udp \<Rightarrow> bool" where
  "udp_connected u \<longleftrightarrow> ud_firstMessage u"

section \<open>Properties\<close>

lemma words_of_bytes_nth:
  "length bs = 8 * n \<Longrightarrow> i < n \<Longrightarrow> words_of_bytes (bs @ rest) ! i = words_of_bytes bs ! i"
proof (induction n arbitrary: bs i)
  case (Suc n)
  then have len: "8 \<le> length bs" "length (drop 8 bs) = 8 * n" by simp_all
  from Suc show ?case
    using len Suc.IH [OF len(2), of "i - 1"]
    by (cases i) (simp_all add: words_of_bytes_take [of bs] words_of_bytes_take [of "bs @ rest"])
qed simp

lemma length_words_of_bytes: "length (words_of_bytes bs) = length bs div 8"
  by (induction bs rule: words_of_bytes.induct) auto

lemma words_of_bytes_whole: "words_of_bytes (take (length bs div 8 * 8) bs) = words_of_bytes bs"
proof (induction "length bs div 8" arbitrary: bs)
  case 0
  then have "words_of_bytes bs = []" using length_words_of_bytes [of bs] by simp
  with 0 show ?case by (simp flip: 0(1))
next
  case (Suc n)
  then have len: "8 \<le> length bs" "n = length (drop 8 bs) div 8" "8 \<le> length (take (Suc n * 8) bs)" by auto
  have "drop 8 (take (Suc n * 8) bs) = take (n * 8) (drop 8 bs)" by (simp add: drop_take)
  with Suc.hyps(1) [OF len(2)] words_of_bytes_take [OF len(1)] words_of_bytes_take [OF len(3)] len(2) show ?case
    by (simp add: min_def flip: Suc.hyps(2))
qed

lemma udp_parser_words:
  assumes "8 \<le> length bs" and "ud_receiveBuffer u = bs @ rest"
  shows "udp_parser (length bs) u = [Udp_Handler (words_of_bytes bs)]"
proof -
  let ?n = "length bs div 8" and ?w = "take (length bs div 8 * 8) bs"
  have "length ?w = 8 * ?n" using div_times_less_eq_dividend [of "length bs" 8] by (simp add: min_absorb2)
  then have "words_of_bytes (?w @ drop (?n * 8) bs @ rest) ! i = words_of_bytes ?w ! i" if "i < ?n" for i
    using words_of_bytes_nth that by blast
  then have "words_of_bytes (bs @ rest) ! i = words_of_bytes bs ! i" if "i < ?n" for i
    using that by (metis append.assoc append_take_drop_id words_of_bytes_whole)
  then have "map (\<lambda>i. words_of_bytes (bs @ rest) ! i) [0..<?n] = map (\<lambda>i. words_of_bytes bs ! i) [0..<length (words_of_bytes bs)]"
    by (simp add: length_words_of_bytes)
  with assms show ?thesis by (simp add: udp_parser_def map_nth)
qed

text \<open>
  What arrives of a vector of doubles. Once a peer has been heard from, \<open>send\<close> hands over as many
  bytes as the vector has elements, an eighth of the vector; the receiver's handler gets the first
  eighth of the elements, or is not called at all for fewer than eight, and the receiver listens
  again in either case. A receive error also counts as the first message: the socket then
  sends to whatever endpoint it has, the unset one if nothing was received.
\<close>

theorem udp_sends_an_eighth:
  assumes "ud_firstMessage u" and "length v \<le> 1024"
  shows "\<exists>datagram. udp_send v u = (u, [Udp_Send (ud_target u) datagram]) \<and> length datagram = length v \<and>
    snd (udp_onReceive (Inr (sender, datagram)) r) =
      (if length v < 8 then [] else [Udp_Handler (take (length v div 8) v)]) @ [Udp_Receive 1024] \<and>
    udp_connected (fst (udp_onReceive (Inl ec) (fst (GenericUdp memory)))) \<and>
    udp_send v (fst (udp_onReceive (Inl ec) (fst (GenericUdp memory)))) =
      (fst (udp_onReceive (Inl ec) (fst (GenericUdp memory))), [Udp_Send 0 datagram])"
proof -
  let ?d = "take (length v) (bytes_of_words v)"
  have len: "length ?d = length v" by (simp add: WORD_SIZE_def)
  have "take (length v div 8 * 8) ?d = bytes_of_words (take (length v div 8) v)"
  proof -
    have "bytes_of_words v = bytes_of_words (take (length v div 8) v) @ bytes_of_words (drop (length v div 8) v)"
      by (simp add: bytes_of_words_def flip: concat_append map_append)
    moreover have "length (bytes_of_words (take (length v div 8) v)) = length v div 8 * 8"
      by (simp add: WORD_SIZE_def min_absorb2)
    moreover have "min (length v div 8 * 8) (length v) = length v div 8 * 8" by (simp add: min_absorb1)
    ultimately show ?thesis unfolding take_take by (metis append_eq_conv_conj)
  qed
  then have words: "words_of_bytes ?d = take (length v div 8) v"
    using words_of_bytes_whole [of ?d, unfolded len] words_of_bytes_of_words [of "take (length v div 8) v" "[]"]
    by (metis append_Nil2 words_of_bytes.simps(2))
  have parse: "udp_parser (length v) x = (if length v < 8 then [] else [Udp_Handler (take (length v div 8) v)])"
    if "take (length v) (ud_receiveBuffer x) = ?d" for x
  proof (cases "length v < 8")
    case False
    have "ud_receiveBuffer x = ?d @ drop (length v) (ud_receiveBuffer x)" using that by (metis append_take_drop_id)
    with False udp_parser_words [of ?d x] show ?thesis unfolding len words by simp
  qed (simp add: udp_parser_def)
  have "snd (udp_onReceive (Inr (sender, ?d)) r) =
      (if length v < 8 then [] else [Udp_Handler (take (length v div 8) v)]) @ [Udp_Receive 1024]"
    using assms(2) len by (simp add: udp_onReceive_def udp_receive_def parse Let_def)
  with assms(1) len show ?thesis
    by (intro exI [of _ ?d]) (simp add: udp_send_def udp_onReceive_def GenericUdp_def udp_connected_def)
qed

theorem udp_sends_an_eighth_witness:
  "\<exists>datagram. udp_send [1, 2, 3] \<lparr>ud_target = 5, ud_receiveBuffer = [], ud_firstMessage = True\<rparr> =
     (\<lparr>ud_target = 5, ud_receiveBuffer = [], ud_firstMessage = True\<rparr>, [Udp_Send 5 datagram]) \<and> length datagram = 3"
  using udp_sends_an_eighth [of "\<lparr>ud_target = 5, ud_receiveBuffer = [], ud_firstMessage = True\<rparr>" "[1, 2, 3]" 0 undefined 0 "[]"]
  by auto

end
