(* ===== verification/Pid.thy ===== *)
theory Pid
  imports Complex_Main A17_Prelude
begin

text \<open>
  The PID controller of \<open>src/a17/utils/pid.{h,cpp}\<close>. A \<open>double\<close> is the rational number it
  stands for and arithmetic is exact: rounding, infinities and NaN are not modelled. \<open>M_PI\<close> is the
  \<open>double\<close> nearest to pi, times are in seconds and read from the clock by the caller. A failed
  assertion is an output.
\<close>

section \<open>The controller\<close>

definition M_PI :: rat where
  "M_PI = 884279719003555 / 281474976710656"

definition DBL_MAX :: rat where
  "DBL_MAX = 2 ^ 1024 - 2 ^ 971"

datatype pid_type = LINEAR | ANGULAR

record pid =
  pd_kP :: rat
  pd_kI :: rat
  pd_kD :: rat
  pd_min_output :: rat
  pd_max_output :: rat
  pd_antiwindup_damping :: rat
  pd_integral_error_limit :: rat
  pd_type :: pid_type
  pd_first_sample_computed :: bool
  pd_integral_error :: rat
  pd_last_error :: rat
  pd_last_timepoint :: rat

definition PID :: "rat \<Rightarrow> rat \<Rightarrow> rat \<Rightarrow> rat \<Rightarrow> pid" where
  "PID kp ki kd now =
     \<lparr>pd_kP = kp, pd_kI = ki, pd_kD = kd, pd_min_output = - DBL_MAX, pd_max_output = DBL_MAX,
      pd_antiwindup_damping = 1, pd_integral_error_limit = DBL_MAX, pd_type = LINEAR,
      pd_first_sample_computed = False, pd_integral_error = 0, pd_last_error = 0,
      pd_last_timepoint = now\<rparr>"

lemma M_PI_pos: "0 < M_PI"
  by (simp add: M_PI_def)

lemma turns_decrease: "x = y - 1 \<Longrightarrow> 1 < y \<Longrightarrow> nat \<lceil>x\<rceil> < nat \<lceil>y\<rceil>" for x y :: rat
  by simp

text \<open>The two loops of \<open>handleAngularDiscontinuity\<close>.\<close>

function reduce_down :: "rat \<Rightarrow> rat" where
  "reduce_down error = (if error > 2 * M_PI then reduce_down (error - 2 * M_PI) else error)"
  by pat_completeness auto
termination
proof (relation "measure (\<lambda>e. nat \<lceil>e / (2 * M_PI)\<rceil>)")
  fix error :: rat
  assume *: "2 * M_PI < error"
  have "(error - 2 * M_PI) / (2 * M_PI) = error / (2 * M_PI) - 1"
    using M_PI_pos by (simp add: diff_divide_distrib)
  moreover have "1 < error / (2 * M_PI)" using * M_PI_pos by (simp add: less_divide_eq)
  ultimately show "(error - 2 * M_PI, error) \<in> measure (\<lambda>e. nat \<lceil>e / (2 * M_PI)\<rceil>)"
    by (simp only: in_measure turns_decrease)
qed simp

function reduce_up :: "rat \<Rightarrow> rat" where
  "reduce_up error = (if error < - 2 * M_PI then reduce_up (error + 2 * M_PI) else error)"
  by pat_completeness auto
termination
proof (relation "measure (\<lambda>e. nat \<lceil>- e / (2 * M_PI)\<rceil>)")
  fix error :: rat
  assume *: "error < - 2 * M_PI"
  have "- (error + 2 * M_PI) / (2 * M_PI) = - error / (2 * M_PI) - 1"
    using M_PI_pos by (simp add: field_simps)
  moreover have "1 < - error / (2 * M_PI)" using * M_PI_pos by (simp add: field_simps)
  ultimately show "(error + 2 * M_PI, error) \<in> measure (\<lambda>e. nat \<lceil>- e / (2 * M_PI)\<rceil>)"
    by (simp only: in_measure turns_decrease)
qed simp

declare reduce_down.simps [simp del] reduce_up.simps [simp del]

definition handleAngularDiscontinuity :: "pid_type \<Rightarrow> rat \<Rightarrow> rat" where
  "handleAngularDiscontinuity type error =
     (if type = ANGULAR then
        (let error = reduce_up (reduce_down error)
         in if error > M_PI then error - 2 * M_PI else if error < - M_PI then error + 2 * M_PI else error)
      else error)"

definition clip :: "rat \<Rightarrow> rat \<Rightarrow> rat option" where
  "clip value limit = (if limit \<ge> 0 then Some (min limit (max (- limit) value)) else None)"

datatype pid_out = Output rat | Assertion_Failed

definition computeP :: "rat \<Rightarrow> rat \<Rightarrow> rat \<Rightarrow> pid \<Rightarrow> pid \<times> pid_out list" where
  "computeP now reference signal p =
     (let error = reference - signal;
          p = p\<lparr>pd_last_error := error, pd_last_timepoint := now\<rparr>;
          error = (if pd_type p = ANGULAR then handleAngularDiscontinuity (pd_type p) error else error)
      in (p, [Output (pd_kP p * error)]))"

definition compute :: "rat \<Rightarrow> rat \<Rightarrow> rat \<Rightarrow> pid \<Rightarrow> pid \<times> pid_out list" where
  "compute now reference signal p =
     (if \<not> pd_first_sample_computed p
      then computeP now reference signal (p\<lparr>pd_first_sample_computed := True\<rparr>)
      else
       (let elapsed = now - pd_last_timepoint p;
            error = reference - signal;
            error = (if pd_type p = ANGULAR then handleAngularDiscontinuity (pd_type p) error else error);
            integral = pd_integral_error p * pd_antiwindup_damping p + error * elapsed
        in case clip integral (pd_integral_error_limit p) of
             None \<Rightarrow> (p, [Assertion_Failed])
           | Some integral \<Rightarrow>
              (let derivative = (if elapsed > 0 then (error - pd_last_error p) / elapsed else 0);
                   p = p\<lparr>pd_integral_error := integral, pd_last_error := error, pd_last_timepoint := now\<rparr>;
                   output = pd_kP p * error + pd_kI p * integral + pd_kD p * derivative;
                   output = min output (pd_max_output p);
                   output = max output (pd_min_output p)
               in (p, [Output output]))))"

definition restartController :: "rat \<Rightarrow> pid \<Rightarrow> pid" where
  "restartController now p =
     p\<lparr>pd_first_sample_computed := False, pd_integral_error := 0, pd_last_error := 0, pd_last_timepoint := now\<rparr>"

definition setKP :: "rat \<Rightarrow> pid \<Rightarrow> pid" where
  "setKP kp p = p\<lparr>pd_kP := kp\<rparr>"

definition setKI :: "rat \<Rightarrow> pid \<Rightarrow> pid" where
  "setKI ki p = p\<lparr>pd_kI := ki\<rparr>"

definition setKD :: "rat \<Rightarrow> pid \<Rightarrow> pid" where
  "setKD kd p = p\<lparr>pd_kD := kd\<rparr>"

definition setGains :: "rat \<Rightarrow> rat \<Rightarrow> rat \<Rightarrow> pid \<Rightarrow> pid" where
  "setGains kp ki kd p = p\<lparr>pd_kP := kp, pd_kI := ki, pd_kD := kd\<rparr>"

definition setMaxOutput :: "rat \<Rightarrow> pid \<Rightarrow> pid" where
  "setMaxOutput v p = p\<lparr>pd_max_output := v\<rparr>"

definition setMinOutput :: "rat \<Rightarrow> pid \<Rightarrow> pid" where
  "setMinOutput v p = p\<lparr>pd_min_output := v\<rparr>"

definition setAntiWindup :: "rat \<Rightarrow> rat \<Rightarrow> pid \<Rightarrow> pid \<times> pid_out list" where
  "setAntiWindup damping integral_error_limit p =
     (if damping \<ge> 0 \<and> damping \<le> 1
      then (p\<lparr>pd_antiwindup_damping := damping, pd_integral_error_limit := \<bar>integral_error_limit\<bar>\<rparr>, [])
      else (p, [Assertion_Failed]))"

definition setType :: "pid_type \<Rightarrow> pid \<Rightarrow> pid" where
  "setType type p = p\<lparr>pd_type := type\<rparr>"

datatype pid_event =
    Pid_Compute rat rat rat
  | Pid_ComputeP rat rat rat
  | Pid_Restart rat
  | Pid_KP rat
  | Pid_KI rat
  | Pid_KD rat
  | Pid_Gains rat rat rat
  | Pid_Max rat
  | Pid_Min rat
  | Pid_AntiWindup rat rat
  | Pid_Type pid_type

definition pid_step :: "(pid, pid_event, pid_out) reaction" where
  "pid_step p ev =
     (case ev of
        Pid_Compute now reference signal \<Rightarrow> compute now reference signal p
      | Pid_ComputeP now reference signal \<Rightarrow> computeP now reference signal p
      | Pid_Restart now \<Rightarrow> (restartController now p, [])
      | Pid_KP kp \<Rightarrow> (setKP kp p, [])
      | Pid_KI ki \<Rightarrow> (setKI ki p, [])
      | Pid_KD kd \<Rightarrow> (setKD kd p, [])
      | Pid_Gains kp ki kd \<Rightarrow> (setGains kp ki kd p, [])
      | Pid_Max v \<Rightarrow> (setMaxOutput v p, [])
      | Pid_Min v \<Rightarrow> (setMinOutput v p, [])
      | Pid_AntiWindup damping limit \<Rightarrow> setAntiWindup damping limit p
      | Pid_Type type \<Rightarrow> (setType type p, []))"

section \<open>Properties\<close>

lemma reduce_down_turns: "\<exists>k :: int. reduce_down e = e + 2 * M_PI * of_int k"
proof (induction e rule: reduce_down.induct)
  case (1 e)
  show ?case
  proof (cases "e > 2 * M_PI")
    case True
    then obtain k :: int where "reduce_down (e - 2 * M_PI) = e - 2 * M_PI + 2 * M_PI * of_int k" using 1 by blast
    then have "reduce_down e = e + 2 * M_PI * of_int (k - 1)"
      using True by (subst reduce_down.simps) (simp add: algebra_simps)
    then show ?thesis by blast
  qed (subst reduce_down.simps, auto intro: exI [of _ 0])
qed

lemma reduce_down_range:
  "reduce_down e \<le> 2 * M_PI \<and> (e \<ge> - 2 * M_PI \<longrightarrow> reduce_down e \<ge> - 2 * M_PI)"
proof (induction e rule: reduce_down.induct)
  case (1 e)
  then show ?case using M_PI_pos by (cases "e > 2 * M_PI"; subst (1 2) reduce_down.simps) auto
qed

lemma reduce_up_turns: "\<exists>k :: int. reduce_up e = e + 2 * M_PI * of_int k"
proof (induction e rule: reduce_up.induct)
  case (1 e)
  show ?case
  proof (cases "e < - 2 * M_PI")
    case True
    then obtain k :: int where "reduce_up (e + 2 * M_PI) = e + 2 * M_PI + 2 * M_PI * of_int k" using 1 by blast
    then have "reduce_up e = e + 2 * M_PI * of_int (k + 1)"
      using True by (subst reduce_up.simps) (simp add: algebra_simps)
    then show ?thesis by blast
  qed (subst reduce_up.simps, auto intro: exI [of _ 0])
qed

lemma reduce_up_range:
  "reduce_up e \<ge> - 2 * M_PI \<and> (e \<le> 2 * M_PI \<longrightarrow> reduce_up e \<le> 2 * M_PI)"
proof (induction e rule: reduce_up.induct)
  case (1 e)
  then show ?case using M_PI_pos by (cases "e < - 2 * M_PI"; subst (1 2) reduce_up.simps) auto
qed

lemma angular_error:
  "\<bar>handleAngularDiscontinuity ANGULAR e\<bar> \<le> M_PI \<and>
   (\<exists>k :: int. handleAngularDiscontinuity ANGULAR e = e + 2 * M_PI * of_int k)"
proof -
  define f where "f = reduce_up (reduce_down e)"
  define g where "g = (if f > M_PI then f - 2 * M_PI else if f < - M_PI then f + 2 * M_PI else f)"
  have h: "handleAngularDiscontinuity ANGULAR e = g"
    by (simp add: handleAngularDiscontinuity_def f_def g_def Let_def)
  obtain j k :: int where j: "reduce_down e = e + 2 * M_PI * of_int j" and k: "f = reduce_down e + 2 * M_PI * of_int k"
    using reduce_down_turns reduce_up_turns unfolding f_def by blast
  then have f: "f = e + 2 * M_PI * of_int (j + k)" by (simp add: algebra_simps)
  have "- 2 * M_PI \<le> f" "f \<le> 2 * M_PI"
    using reduce_down_range [of e] reduce_up_range [of "reduce_down e"] unfolding f_def by auto
  then have "\<bar>g\<bar> \<le> M_PI" using M_PI_pos unfolding g_def by (cases "f > M_PI"; cases "f < - M_PI") auto
  moreover have "f - 2 * M_PI = e + 2 * M_PI * of_int (j + k - 1)" "f + 2 * M_PI = e + 2 * M_PI * of_int (j + k + 1)"
    unfolding f by (simp_all add: algebra_simps)
  then have "\<exists>k :: int. g = e + 2 * M_PI * of_int k" unfolding g_def using f by metis
  ultimately show ?thesis unfolding h by blast
qed

definition pid_ok :: "pid \<Rightarrow> bool" where
  "pid_ok p \<longleftrightarrow> 0 \<le> pd_integral_error_limit p \<and> 0 \<le> pd_antiwindup_damping p \<and> pd_antiwindup_damping p \<le> 1"

lemma pid_step_ok: "pid_ok p \<Longrightarrow> pid_ok (fst (pid_step p ev))"
  by (cases ev)
    (auto simp: pid_ok_def pid_step_def compute_def computeP_def restartController_def setKP_def setKI_def setKD_def setGains_def
      setMaxOutput_def setMinOutput_def setAntiWindup_def setType_def Let_def split: option.split)

interpretation pid_machine: machine pid_step pid_ok
  by unfold_locales (rule pid_step_ok)

lemma PID_ok: "pid_ok (PID kp ki kd now)"
  by (simp add: pid_ok_def PID_def DBL_MAX_def)

definition tracking_error :: "pid \<Rightarrow> rat \<Rightarrow> rat \<Rightarrow> rat" where
  "tracking_error p reference signal = handleAngularDiscontinuity (pd_type p) (reference - signal)"

lemma compute_first:
  "\<not> pd_first_sample_computed p \<Longrightarrow> compute now reference signal p =
     (p\<lparr>pd_first_sample_computed := True, pd_last_error := reference - signal, pd_last_timepoint := now\<rparr>,
      [Output (pd_kP p * tracking_error p reference signal)])"
  by (simp add: compute_def computeP_def tracking_error_def handleAngularDiscontinuity_def Let_def)

lemma compute_next:
  assumes "pid_ok p" and "pd_first_sample_computed p"
    and "e = tracking_error p reference signal" and "dt = now - pd_last_timepoint p"
    and "i = min (pd_integral_error_limit p) (max (- pd_integral_error_limit p)
           (pd_integral_error p * pd_antiwindup_damping p + e * dt))"
    and "dv = (if dt > 0 then (e - pd_last_error p) / dt else 0)"
  shows "compute now reference signal p =
     (p\<lparr>pd_integral_error := i, pd_last_error := e, pd_last_timepoint := now\<rparr>,
      [Output (max (min (pd_kP p * e + pd_kI p * i + pd_kD p * dv) (pd_max_output p)) (pd_min_output p))])"
proof -
  have e: "(if pd_type p = ANGULAR then handleAngularDiscontinuity (pd_type p) (reference - signal) else reference - signal) = e"
    by (simp add: assms(3) tracking_error_def handleAngularDiscontinuity_def)
  have c: "clip (pd_integral_error p * pd_antiwindup_damping p + e * dt) (pd_integral_error_limit p) = Some i"
    using assms(1) by (simp add: clip_def pid_ok_def assms(5))
  show ?thesis
    unfolding compute_def Let_def e assms(4) [symmetric] c assms(6) [symmetric] using assms(2) by simp
qed

text \<open>
  C34: A PID controller stays within its limits. In every state it can reach, the assertions hold,
  and every sample after the first gives the weighted sum of error, integral and derivative, cut to
  the output limits; the integral stays within the wind-up limit; the error of an angular controller
  is within half a turn of zero and differs from the plain difference by whole turns. The first
  sample gives the proportional part only and is not limited, and an angular controller keeps its
  plain, unreduced difference for the next derivative.
\<close>

theorem pid_within_limits:
  assumes "p = fst (run pid_step (PID kp ki kd t0) evs)"
  shows "(pd_first_sample_computed p \<and> pd_min_output p \<le> pd_max_output p \<longrightarrow>
      (case pid_step p (Pid_Compute now reference signal) of (p', out) \<Rightarrow> \<exists>v dv. out = [Output v] \<and>
         pd_min_output p \<le> v \<and> v \<le> pd_max_output p \<and>
         \<bar>pd_integral_error p'\<bar> \<le> pd_integral_error_limit p \<and>
         v = max (min (pd_kP p * pd_last_error p' + pd_kI p * pd_integral_error p' + pd_kD p * dv)
               (pd_max_output p)) (pd_min_output p) \<and>
         (now > pd_last_timepoint p \<longrightarrow> dv * (now - pd_last_timepoint p) = pd_last_error p' - pd_last_error p) \<and>
         (pd_type p = ANGULAR \<longrightarrow> \<bar>pd_last_error p'\<bar> \<le> M_PI \<and>
            (\<exists>k :: int. pd_last_error p' = reference - signal + 2 * M_PI * of_int k)) \<and>
         (pd_type p = LINEAR \<longrightarrow> pd_last_error p' = reference - signal))) \<and>
    (\<not> pd_first_sample_computed p \<longrightarrow>
      (case pid_step p (Pid_Compute now reference signal) of (p', out) \<Rightarrow>
         out = [Output (pd_kP p * tracking_error p reference signal)] \<and>
         pd_last_error p' = reference - signal))"
proof (rule conjI; rule impI)
  assume *: "pd_first_sample_computed p \<and> pd_min_output p \<le> pd_max_output p"
  have ok: "pid_ok p" using pid_machine.inv_run [OF PID_ok] assms by blast
  define e where "e = tracking_error p reference signal"
  define dt where "dt = now - pd_last_timepoint p"
  define i where "i = min (pd_integral_error_limit p) (max (- pd_integral_error_limit p)
           (pd_integral_error p * pd_antiwindup_damping p + e * dt))"
  define dv where "dv = (if dt > 0 then (e - pd_last_error p) / dt else 0)"
  note c = compute_next [OF ok conjunct1 [OF *] e_def dt_def i_def dv_def]
  have "\<bar>i\<bar> \<le> pd_integral_error_limit p" using ok by (auto simp: i_def pid_ok_def abs_le_iff min_def max_def)
  moreover have "pd_type p = ANGULAR \<longrightarrow> \<bar>e\<bar> \<le> M_PI \<and> (\<exists>k :: int. e = reference - signal + 2 * M_PI * of_int k)"
    using angular_error [of "reference - signal"] by (simp add: e_def tracking_error_def)
  moreover have "pd_type p = LINEAR \<longrightarrow> e = reference - signal"
    by (simp add: e_def tracking_error_def handleAngularDiscontinuity_def)
  moreover have "now > pd_last_timepoint p \<longrightarrow> dv * (now - pd_last_timepoint p) = e - pd_last_error p"
    by (simp add: dv_def dt_def)
  ultimately show "case pid_step p (Pid_Compute now reference signal) of (p', out) \<Rightarrow> \<exists>v dv. out = [Output v] \<and>
         pd_min_output p \<le> v \<and> v \<le> pd_max_output p \<and>
         \<bar>pd_integral_error p'\<bar> \<le> pd_integral_error_limit p \<and>
         v = max (min (pd_kP p * pd_last_error p' + pd_kI p * pd_integral_error p' + pd_kD p * dv)
               (pd_max_output p)) (pd_min_output p) \<and>
         (now > pd_last_timepoint p \<longrightarrow> dv * (now - pd_last_timepoint p) = pd_last_error p' - pd_last_error p) \<and>
         (pd_type p = ANGULAR \<longrightarrow> \<bar>pd_last_error p'\<bar> \<le> M_PI \<and>
            (\<exists>k :: int. pd_last_error p' = reference - signal + 2 * M_PI * of_int k)) \<and>
         (pd_type p = LINEAR \<longrightarrow> pd_last_error p' = reference - signal)"
    using * unfolding pid_step_def pid_event.case c by (auto intro!: exI [of _ dv])
next
  assume "\<not> pd_first_sample_computed p"
  then show "case pid_step p (Pid_Compute now reference signal) of (p', out) \<Rightarrow>
         out = [Output (pd_kP p * tracking_error p reference signal)] \<and>
         pd_last_error p' = reference - signal"
    by (simp add: pid_step_def compute_first)
qed

theorem pid_within_limits_witness:
  "snd (pid_step (fst (run pid_step (PID 10 0 0 0) [Pid_Max 5, Pid_Min (-5)])) (Pid_Compute 1 3 1)) = [Output 20]"
  using pid_within_limits [of _ 10 0 0 0 "[Pid_Max 5, Pid_Min (-5)]" 1 3 1]
  by (simp add: pid_step_def setMaxOutput_def setMinOutput_def PID_def tracking_error_def
      handleAngularDiscontinuity_def split: prod.splits)

end
