(* ===== verification/Angles.thy ===== *)
theory Angles
  imports Pid
begin

text \<open>
  Angles: \<open>constants.cpp\<close>, \<open>angle_utils.cpp\<close> and \<open>angle_unroller.{h,cpp}\<close> of \<open>src/a17/maths\<close>. As in the
  controller a \<open>double\<close> is a rational number and arithmetic is exact; the literal of \<open>kPi\<close> and
  \<open>M_PI\<close> denote the same \<open>double\<close>. With exact arithmetic the loops of \<open>WrapToPi\<close> end; with rounding
  they do not when subtracting a turn from a huge angle changes nothing.
\<close>

section \<open>Definitions\<close>

definition kPi :: "'a::floor_ceiling" where
  "kPi = 884279719003555 / 281474976710656"

lemma kPi_pos [simp]: "0 < (kPi :: 'a::floor_ceiling)"
  by (simp add: kPi_def)

lemma kPi_nonzero [simp]: "(kPi :: 'a::floor_ceiling) \<noteq> 0" "\<bar>kPi\<bar> = (kPi :: 'a::floor_ceiling)"
  using kPi_pos [where 'a = 'a] by (simp_all del: kPi_pos)

lemma M_PI_kPi: "M_PI = kPi"
  by (simp add: kPi_def M_PI_def)

lemma ceiling_decrease: "x = y - 1 \<Longrightarrow> 1 < y \<Longrightarrow> nat \<lceil>x\<rceil> < nat \<lceil>y\<rceil>" for x y :: "'a::floor_ceiling"
  by simp

function wrap_down :: "'a::floor_ceiling \<Rightarrow> 'a" where
  "wrap_down angle = (if angle > kPi then wrap_down (angle - 2 * kPi) else angle)"
  by pat_completeness auto
termination
proof (relation "measure (\<lambda>a. nat \<lceil>(a + kPi) / (2 * kPi)\<rceil>)")
  fix angle :: 'a
  assume *: "kPi < angle"
  have "(angle - 2 * kPi + kPi) / (2 * kPi) = (angle + kPi) / (2 * kPi) - 1"
    using kPi_pos by (simp add: field_simps)
  moreover have "1 < (angle + kPi) / (2 * kPi)" using * kPi_pos by (simp add: field_simps)
  ultimately show "(angle - 2 * kPi, angle) \<in> measure (\<lambda>a. nat \<lceil>(a + kPi) / (2 * kPi)\<rceil>)"
    by (simp only: in_measure ceiling_decrease)
qed simp

function wrap_up :: "'a::floor_ceiling \<Rightarrow> 'a" where
  "wrap_up angle = (if angle < - kPi then wrap_up (angle + 2 * kPi) else angle)"
  by pat_completeness auto
termination
proof (relation "measure (\<lambda>a. nat \<lceil>(kPi - a) / (2 * kPi)\<rceil>)")
  fix angle :: 'a
  assume *: "angle < - kPi"
  have "(kPi - (angle + 2 * kPi)) / (2 * kPi) = (kPi - angle) / (2 * kPi) - 1"
    using kPi_pos by (simp add: field_simps)
  moreover have "1 < (kPi - angle) / (2 * kPi)" using * kPi_pos by (simp add: field_simps)
  ultimately show "(angle + 2 * kPi, angle) \<in> measure (\<lambda>a. nat \<lceil>(kPi - a) / (2 * kPi)\<rceil>)"
    by (simp only: in_measure ceiling_decrease)
qed simp

declare wrap_down.simps [simp del] wrap_up.simps [simp del]

definition WrapToPi :: "'a::floor_ceiling \<Rightarrow> 'a" where
  "WrapToPi angle = wrap_up (wrap_down angle)"

text \<open>\<open>std::fmod\<close> of a number that is not negative.\<close>

definition fmod :: "rat \<Rightarrow> rat \<Rightarrow> rat" where
  "fmod x y = x - y * of_int \<lfloor>x / y\<rfloor>"

definition AngleDiff :: "rat \<Rightarrow> rat \<Rightarrow> rat" where
  "AngleDiff angle1 angle2 = kPi - \<bar>fmod \<bar>angle1 - angle2\<bar> (kPi * 2) - kPi\<bar>"

definition DegreesToRadians :: "rat \<Rightarrow> rat" where
  "DegreesToRadians degrees = degrees * kPi / 180"

definition RadiansToDegrees :: "rat \<Rightarrow> rat" where
  "RadiansToDegrees radians = radians * 180 / kPi"

text \<open>An \<open>AngleUnroller\<close> is its \<open>unrolled_angle_\<close>.\<close>

definition AngleUnroller :: "rat \<Rightarrow> rat" where
  "AngleUnroller initial_angle = initial_angle"

definition unrollAngle :: "rat \<Rightarrow> rat \<Rightarrow> rat" where
  "unrollAngle angle unrolled_angle =
     (let previous_angle = WrapToPi unrolled_angle;
          angle = WrapToPi angle;
          diff = angle - previous_angle
      in if \<bar>diff\<bar> \<le> M_PI then unrolled_angle + diff
         else if diff > 0 then unrolled_angle - (2 * M_PI - diff)
         else unrolled_angle + (2 * M_PI + diff))"

section \<open>Whole turns\<close>

definition same_angle :: "'a::floor_ceiling \<Rightarrow> 'a \<Rightarrow> bool" where
  "same_angle a b \<longleftrightarrow> (\<exists>k :: int. a = b + of_int k * (2 * kPi))"

lemma same_angle_refl [simp, intro]: "same_angle a a"
  unfolding same_angle_def by (rule exI [of _ 0]) simp

lemma same_angle_sym: "same_angle a b \<Longrightarrow> same_angle b a"
  unfolding same_angle_def by (metis add_diff_cancel_right' diff_conv_add_uminus mult_minus_left of_int_minus)

lemma same_angle_trans [trans]: "same_angle a b \<Longrightarrow> same_angle b c \<Longrightarrow> same_angle a c"
  unfolding same_angle_def by (metis (no_types) add.assoc distrib_right of_int_add)

lemma same_angle_turn: "same_angle (a + 2 * kPi) a" "same_angle (a - 2 * kPi) a"
  unfolding same_angle_def by (rule exI [of _ 1], simp) (rule exI [of _ "- 1"], simp)

lemma same_angle_shift: "same_angle a b \<Longrightarrow> same_angle (a + c) (b + c)"
  unfolding same_angle_def by (auto simp: algebra_simps)

lemma same_angle_close:
  fixes a b :: "'a::floor_ceiling"
  assumes "same_angle a b" and "\<bar>a - b\<bar> < 2 * kPi"
  shows "a = b"
proof -
  obtain k :: int where k: "a = b + of_int k * (2 * kPi)" using assms(1) by (auto simp: same_angle_def)
  then have "\<bar>of_int k :: 'a\<bar> * kPi < 1 * kPi" using assms(2) by (simp add: abs_mult)
  then have "\<bar>of_int k :: 'a\<bar> < 1" by (simp only: mult_less_cancel_right_pos kPi_pos)
  then have "k = 0" by (simp flip: of_int_abs)
  then show ?thesis by (simp add: k)
qed

lemma wrap_down_wraps: "wrap_down a \<le> kPi \<and> same_angle (wrap_down a) a \<and> (- kPi \<le> a \<longrightarrow> - kPi \<le> wrap_down a)"
proof (induction a rule: wrap_down.induct)
  case (1 a)
  then show ?case
    using same_angle_trans [OF _ same_angle_turn(2), of "wrap_down (a - 2 * kPi)" a]
    by (cases "kPi < a") (auto simp: wrap_down.simps [of a])
qed

lemma wrap_up_wraps: "- kPi \<le> wrap_up a \<and> same_angle (wrap_up a) a \<and> (a \<le> kPi \<longrightarrow> wrap_up a \<le> kPi)"
proof (induction a rule: wrap_up.induct)
  case (1 a)
  then show ?case
    using same_angle_trans [OF _ same_angle_turn(1), of "wrap_up (a + 2 * kPi)" a]
    by (cases "a < - kPi") (auto simp: wrap_up.simps [of a])
qed

lemma WrapToPi_wraps: "- kPi \<le> WrapToPi a" "WrapToPi a \<le> kPi" "same_angle (WrapToPi a) a"
  using wrap_down_wraps [of a] wrap_up_wraps [of "wrap_down a"] same_angle_trans by (auto simp: WrapToPi_def)

section \<open>Properties\<close>

lemma unrollAngle_step: "same_angle (unrollAngle a u) a" "\<bar>unrollAngle a u - u\<bar> \<le> kPi"
proof -
  let ?d = "WrapToPi a - WrapToPi u"
  have near: "\<bar>unrollAngle a u - u\<bar> \<le> kPi \<and> same_angle (unrollAngle a u) (u + ?d)"
    using WrapToPi_wraps [of a] WrapToPi_wraps [of u] same_angle_turn [of "u + ?d"]
    by (auto simp: unrollAngle_def Let_def M_PI_kPi abs_if algebra_simps)
  have "same_angle (u + ?d) (WrapToPi u + ?d)"
    by (rule same_angle_shift [OF same_angle_sym [OF WrapToPi_wraps(3)]])
  then have "same_angle (u + ?d) a" using same_angle_trans [OF _ WrapToPi_wraps(3) [of a]] by simp
  with near same_angle_trans show "same_angle (unrollAngle a u) a" "\<bar>unrollAngle a u - u\<bar> \<le> kPi" by blast+
qed

fun unroll_all :: "rat list \<Rightarrow> rat \<Rightarrow> rat list" where
  "unroll_all [] u = []"
| "unroll_all (a # as) u = (let u' = unrollAngle a u in u' # unroll_all as u')"

text \<open>Successive elements, from the given one on, differ by less than half a turn.\<close>

fun smooth :: "rat \<Rightarrow> rat list \<Rightarrow> bool" where
  "smooth x [] \<longleftrightarrow> True"
| "smooth x (y # ys) \<longleftrightarrow> \<bar>y - x\<bar> < kPi \<and> smooth y ys"

text \<open>
  C36: The angle unroller recovers a smooth signal. If successive values of a signal differ by less
  than half a turn, and every value is fed to the unroller reduced by any number of whole turns,
  the unrolled angles are the values of the signal. Whatever it is fed, each unrolled angle is the
  angle fed up to whole turns, and at most half a turn from the one before.
\<close>

theorem unroller_recovers_signal:
  assumes "list_all2 same_angle angles signal" and "smooth x signal"
  shows "unroll_all angles (AngleUnroller x) = signal \<and>
    same_angle (unrollAngle a u) a \<and> \<bar>unrollAngle a u - u\<bar> \<le> kPi"
proof -
  have "unroll_all angles x = signal"
    using assms
  proof (induction arbitrary: x rule: list_all2_induct)
    case (Cons a as y ys)
    have "unrollAngle a x = y"
    proof (rule same_angle_close)
      show "same_angle (unrollAngle a x) y" using unrollAngle_step(1) Cons.hyps(1) by (rule same_angle_trans)
      show "\<bar>unrollAngle a x - y\<bar> < 2 * kPi" using unrollAngle_step(2) [of a x] Cons.prems by auto
    qed
    with Cons show ?case by (simp add: Let_def)
  qed simp
  with unrollAngle_step show ?thesis by (simp add: AngleUnroller_def)
qed

theorem unroller_recovers_signal_witness:
  "unroll_all [3, 4 - 2 * kPi] (AngleUnroller 2) = [3, 4]"
proof -
  have "list_all2 same_angle [3, 4 - 2 * kPi] [3, 4]" using same_angle_turn(2) [of 4] by auto
  moreover have "smooth 2 [3, 4]" by (simp add: kPi_def)
  ultimately show ?thesis using unroller_recovers_signal [of "[3, 4 - 2 * kPi]" "[3, 4]" 2 0 0] by blast
qed

lemma same_angle_minus: "same_angle a b \<Longrightarrow> same_angle (- a) (- b)"
proof -
  assume "same_angle a b"
  then obtain k where "a = b + of_int k * (2 * kPi)" by (auto simp: same_angle_def)
  then have "- a = - b + of_int (- k) * (2 * kPi)" by simp
  then show ?thesis unfolding same_angle_def by blast
qed

lemma fmod_turn: "0 \<le> fmod x (kPi * 2)" "fmod x (kPi * 2) < kPi * 2" "same_angle (fmod x (kPi * 2)) x"
proof -
  let ?k = "\<lfloor>x / (kPi * 2)\<rfloor>"
  have "of_int ?k * (kPi * 2) \<le> x" "x < (of_int ?k + 1) * (kPi * 2)"
    using floor_correct [of "x / (kPi * 2)"]
    by (simp_all add: pos_le_divide_eq [symmetric] pos_divide_less_eq [symmetric])
  then show "0 \<le> fmod x (kPi * 2)" "fmod x (kPi * 2) < kPi * 2"
    by (simp_all add: fmod_def algebra_simps)
  show "same_angle (fmod x (kPi * 2)) x"
    unfolding same_angle_def fmod_def by (rule exI [of _ "- ?k"]) (simp add: algebra_simps)
qed

lemma wrapped_least: "\<bar>w\<bar> \<le> kPi \<Longrightarrow> same_angle c w \<Longrightarrow> \<bar>w\<bar> \<le> \<bar>c\<bar>"
  using same_angle_close [of c w] by fastforce

lemma AngleDiff_WrapToPi: "AngleDiff a b = \<bar>WrapToPi (a - b)\<bar>"
proof -
  let ?w = "WrapToPi (a - b)" and ?m = "fmod \<bar>a - b\<bar> (kPi * 2)"
  have w: "\<bar>?w\<bar> \<le> kPi" "same_angle ?w (a - b)" using WrapToPi_wraps [of "a - b"] by auto
  obtain v where v: "\<bar>v\<bar> = \<bar>?w\<bar>" "same_angle v ?m"
  proof (cases "0 \<le> a - b")
    case True
    then show ?thesis
      using that [of ?w] same_angle_trans [OF w(2), of ?m] same_angle_sym [OF fmod_turn(3) [of "\<bar>a - b\<bar>"]] by simp
  next
    case False
    then have "same_angle (- ?w) \<bar>a - b\<bar>" using same_angle_minus [OF w(2)] by simp
    from same_angle_trans [OF this, of ?m] show ?thesis
      using that [of "- ?w"] same_angle_sym [OF fmod_turn(3) [of "\<bar>a - b\<bar>"]] by simp
  qed
  let ?r = "if ?m \<le> kPi then ?m else ?m - 2 * kPi"
  have r: "same_angle v ?r" "\<bar>?r\<bar> \<le> kPi" "AngleDiff a b = \<bar>?r\<bar>"
    using v(2) same_angle_trans [OF v(2) same_angle_sym [OF same_angle_turn(2)]] fmod_turn [of "\<bar>a - b\<bar>"]
    by (auto simp: AngleDiff_def)
  have "\<bar>?r\<bar> \<le> \<bar>v\<bar>" "\<bar>v\<bar> \<le> \<bar>?r\<bar>"
    using wrapped_least [OF r(2,1)] wrapped_least [OF _ same_angle_sym [OF r(1)]] w(1) v(1) by auto
  with r(3) v(1) show ?thesis by simp
qed

text \<open>
  \<open>AngleDiff\<close> is the least distance of two angles over all representations: it is attained by
  some whole number of turns, undercut by none, and lies between zero and half a turn.
  \<open>WrapToPi\<close> gives the representation between minus and plus half a turn.
\<close>

theorem angle_diff_least:
  "(\<exists>k :: int. AngleDiff a b = \<bar>a - b + of_int k * (2 * kPi)\<bar>) \<and>
   (\<forall>k :: int. AngleDiff a b \<le> \<bar>a - b + of_int k * (2 * kPi)\<bar>) \<and>
   0 \<le> AngleDiff a b \<and> AngleDiff a b \<le> kPi \<and> AngleDiff a b = \<bar>WrapToPi (a - b)\<bar> \<and>
   - kPi \<le> WrapToPi a \<and> WrapToPi a \<le> kPi \<and> same_angle (WrapToPi a) a"
proof -
  have w: "\<bar>WrapToPi (a - b)\<bar> \<le> kPi" "same_angle (WrapToPi (a - b)) (a - b)"
    using WrapToPi_wraps [of "a - b"] by auto
  have "\<bar>WrapToPi (a - b)\<bar> \<le> \<bar>a - b + of_int k * (2 * kPi)\<bar>" for k
    using same_angle_trans [OF _ same_angle_sym [OF w(2)], of "a - b + of_int k * (2 * kPi)"]
    by (intro wrapped_least w(1)) (auto simp: same_angle_def)
  moreover have "\<exists>k. \<bar>WrapToPi (a - b)\<bar> = \<bar>a - b + of_int k * (2 * kPi)\<bar>"
    using w(2) unfolding same_angle_def by metis
  ultimately show ?thesis using w(1) WrapToPi_wraps [of a] by (simp add: AngleDiff_WrapToPi)
qed

end
