(* ===== verification/Quaternions.thy ===== *)
theory Quaternions
  imports Angles
begin

text \<open>
  \<open>src/a17/maths/quaternion_utils.h\<close>: Euler angles of a quaternion and back. A scalar is a real number
  with exact arithmetic; \<open>M_PI_2\<close> is half the \<open>double\<close> nearest to pi. The quaternion of an angle about an
  axis and the product of quaternions are Eigen's, arguments of \<open>EulerToQuaternion\<close>; what is
  used of them is their documented meaning, \<open>axis_quaternion\<close> and \<open>hamilton\<close>.
\<close>

section \<open>Definitions\<close>

record quaternion =
  q_w :: real
  q_x :: real
  q_y :: real
  q_z :: real

text \<open>\<open>std::atan2\<close>\<close>

definition atan2 :: "real \<Rightarrow> real \<Rightarrow> real" where
  "atan2 y x =
     (if x > 0 then arctan (y / x)
      else if x < 0 then (if y \<ge> 0 then arctan (y / x) + pi else arctan (y / x) - pi)
      else if y > 0 then pi / 2 else if y < 0 then - (pi / 2) else 0)"

definition YawFromQuaternion :: "quaternion \<Rightarrow> real" where
  "YawFromQuaternion q =
     (let siny = 2 * (q_w q * q_z q + q_x q * q_y q);
          cosy = 1 - 2 * (q_y q * q_y q + q_z q * q_z q)
      in atan2 siny cosy)"

definition RollFromQuaternion :: "quaternion \<Rightarrow> real" where
  "RollFromQuaternion q =
     (let sinr = 2 * (q_w q * q_x q + q_y q * q_z q);
          cosr = 1 - 2 * (q_x q * q_x q + q_y q * q_y q)
      in atan2 sinr cosr)"

definition M_PI_2 :: real where
  "M_PI_2 = kPi / 2"

definition kPrecision :: real where
  "kPrecision = 1 / 10 ^ 10"

definition PitchFromQuaternion :: "quaternion \<Rightarrow> real" where
  "PitchFromQuaternion q =
     (let sinp = 2 * (q_w q * q_y q - q_x q * q_z q)
      in if sinp \<ge> 1 - kPrecision then M_PI_2
         else if sinp \<le> - 1 + kPrecision then - M_PI_2
         else arcsin sinp)"

text \<open>Roll, pitch and yaw.\<close>

type_synonym euler = "real \<times> real \<times> real"

definition QuaternionToEuler :: "quaternion \<Rightarrow> euler" where
  "QuaternionToEuler q =
     (let pitch = PitchFromQuaternion q;
          (roll, yaw) = (if pitch = M_PI_2 \<or> pitch = - M_PI_2
             then (0, (if pitch < 0 then - 1 else 1) * - 2 * atan2 (q_x q) (q_w q))
             else (RollFromQuaternion q, YawFromQuaternion q))
      in (WrapToPi roll, WrapToPi pitch, WrapToPi yaw))"

definition EulerToQuaternion ::
  "(real \<Rightarrow> real \<times> real \<times> real \<Rightarrow> quaternion) \<Rightarrow> (quaternion \<Rightarrow> quaternion \<Rightarrow> quaternion) \<Rightarrow> euler \<Rightarrow> quaternion" where
  "EulerToQuaternion AngleAxis qmul = (\<lambda>(roll, pitch, yaw).
     qmul (qmul (AngleAxis yaw (0, 0, 1)) (AngleAxis pitch (0, 1, 0))) (AngleAxis roll (1, 0, 0)))"

section \<open>The documented meaning of Eigen's operations\<close>

definition axis_quaternion :: "real \<Rightarrow> real \<times> real \<times> real \<Rightarrow> quaternion" where
  "axis_quaternion a = (\<lambda>(x, y, z).
     \<lparr>q_w = cos (a / 2), q_x = sin (a / 2) * x, q_y = sin (a / 2) * y, q_z = sin (a / 2) * z\<rparr>)"

definition hamilton :: "quaternion \<Rightarrow> quaternion \<Rightarrow> quaternion" where
  "hamilton p q =
     \<lparr>q_w = q_w p * q_w q - q_x p * q_x q - q_y p * q_y q - q_z p * q_z q,
      q_x = q_w p * q_x q + q_x p * q_w q + q_y p * q_z q - q_z p * q_y q,
      q_y = q_w p * q_y q - q_x p * q_z q + q_y p * q_w q + q_z p * q_x q,
      q_z = q_w p * q_z q + q_x p * q_y q - q_y p * q_x q + q_z p * q_w q\<rparr>"

section \<open>The round trip\<close>

lemma atan2_polar:
  assumes "0 < r" and "- pi < a" "a \<le> pi"
  shows "atan2 (r * sin a) (r * cos a) = a"
proof -
  have quotient: "r * sin a / (r * cos a) = tan a" using assms(1) by (simp add: tan_def)
  consider "\<bar>a\<bar> < pi / 2" | "\<bar>a\<bar> = pi / 2" | "pi / 2 < a" | "a < - (pi / 2)" by linarith
  then show ?thesis
  proof cases
    case 1
    then have "0 < cos a" by (intro cos_gt_zero_pi) auto
    moreover have "arctan (tan a) = a" using 1 by (intro arctan_tan) linarith+
    ultimately show ?thesis using assms(1) by (simp add: atan2_def quotient del: mult_divide_mult_cancel_left_if)
  next
    case 2
    then have "a = pi / 2 \<or> a = - (pi / 2)" by linarith
    then show ?thesis by (rule disjE) (hypsubst, use assms(1) in \<open>simp add: atan2_def\<close>)+
  next
    case 3
    then have "cos a < 0" using assms(3) cos_gt_zero_pi [of "a - pi"] by (simp add: cos_diff)
    moreover have "0 \<le> sin a" using 3 assms(3) pi_gt_zero by (intro sin_ge_zero) linarith+
    moreover have "arctan (tan a) = a - pi"
      using 3 assms(3) arctan_tan [of "a - pi"] tan_periodic_pi [of "a - pi"] by simp
    ultimately show ?thesis using assms(1) by (simp add: atan2_def quotient mult_pos_neg not_less zero_le_mult_iff zero_less_mult_iff mult_less_0_iff del: mult_divide_mult_cancel_left_if)
  next
    case 4
    then have "cos a < 0" using assms(2) cos_gt_zero_pi [of "a + pi"] by (simp add: cos_add)
    moreover have "sin a < 0" using 4 assms(2) sin_gt_zero [of "- a"] by simp
    moreover have "arctan (tan a) = a + pi"
      using 4 assms(2) arctan_tan [of "a + pi"] tan_periodic_pi [of a] by simp
    ultimately show ?thesis using assms(1) by (simp add: atan2_def quotient mult_pos_neg not_less zero_le_mult_iff zero_less_mult_iff mult_less_0_iff del: mult_divide_mult_cancel_left_if)
  qed
qed

lemma WrapToPi_id: "\<bar>a\<bar> \<le> kPi \<Longrightarrow> WrapToPi a = a"
proof -
  assume "\<bar>a\<bar> \<le> kPi"
  then have "\<not> kPi < a" "\<not> a < - kPi" by linarith+
  then show ?thesis by (simp add: WrapToPi_def wrap_down.simps [of a] wrap_up.simps [of a])
qed

text \<open>The products of the coordinates for half angles with cosines and sines \<open>c\<close> and \<open>s\<close> of yaw, pitch
  and roll; the factors that are squares of unit vectors are kept.\<close>

definition half_angles :: "real \<Rightarrow> real \<Rightarrow> real \<Rightarrow> real \<Rightarrow> real \<Rightarrow> real \<Rightarrow> quaternion" where
  "half_angles cy sy cp sp cr sr =
     \<lparr>q_w = cy * cp * cr + sy * sp * sr, q_x = cy * cp * sr - sy * sp * cr,
      q_y = cy * sp * cr + sy * cp * sr, q_z = sy * cp * cr - cy * sp * sr\<rparr>"

lemma half_angles_products:
  fixes cy sy cp sp cr sr :: real
  defines "q \<equiv> half_angles cy sy cp sp cr sr"
  assumes unit: "cy * cy + sy * sy = 1" "cp * cp + sp * sp = 1" "cr * cr + sr * sr = 1"
  shows "q_w q * q_y q - q_x q * q_z q = cp * sp"
    and "q_w q * q_z q + q_x q * q_y q = (cp * cp - sp * sp) * (sy * cy)"
    and "1 - 2 * (q_y q * q_y q + q_z q * q_z q) = (cp * cp - sp * sp) * (cy * cy - sy * sy)"
    and "q_w q * q_x q + q_y q * q_z q = (cp * cp - sp * sp) * (sr * cr)"
    and "1 - 2 * (q_x q * q_x q + q_y q * q_y q) = (cp * cp - sp * sp) * (cr * cr - sr * sr)"
proof -
  have 1: "1 = (cy * cy + sy * sy) * (cp * cp + sp * sp) * (cr * cr + sr * sr)" by (simp add: unit)
  have "q_w q * q_y q - q_x q * q_z q = cp * sp * (cy * cy + sy * sy) * (cr * cr + sr * sr)"
    by (simp add: q_def half_angles_def algebra_simps)
  then show "q_w q * q_y q - q_x q * q_z q = cp * sp" by (simp add: unit)
  have "q_w q * q_z q + q_x q * q_y q = (cp * cp - sp * sp) * (sy * cy) * (cr * cr + sr * sr)"
    by (simp add: q_def half_angles_def algebra_simps)
  then show "q_w q * q_z q + q_x q * q_y q = (cp * cp - sp * sp) * (sy * cy)" by (simp add: unit)
  have "(cy * cy + sy * sy) * (cp * cp + sp * sp) * (cr * cr + sr * sr) - 2 * (q_y q * q_y q + q_z q * q_z q) =
      (cp * cp - sp * sp) * (cy * cy - sy * sy) * (cr * cr + sr * sr)"
    by (simp add: q_def half_angles_def algebra_simps)
  then show "1 - 2 * (q_y q * q_y q + q_z q * q_z q) = (cp * cp - sp * sp) * (cy * cy - sy * sy)"
    by (simp add: unit)
  have "q_w q * q_x q + q_y q * q_z q = (cp * cp - sp * sp) * (sr * cr) * (cy * cy + sy * sy)"
    by (simp add: q_def half_angles_def algebra_simps)
  then show "q_w q * q_x q + q_y q * q_z q = (cp * cp - sp * sp) * (sr * cr)" by (simp add: unit)
  have "(cy * cy + sy * sy) * (cp * cp + sp * sp) * (cr * cr + sr * sr) - 2 * (q_x q * q_x q + q_y q * q_y q) =
      (cp * cp - sp * sp) * (cr * cr - sr * sr) * (cy * cy + sy * sy)"
    by (simp add: q_def half_angles_def algebra_simps)
  then show "1 - 2 * (q_x q * q_x q + q_y q * q_y q) = (cp * cp - sp * sp) * (cr * cr - sr * sr)"
    by (simp add: unit)
qed

lemma EulerToQuaternion_half_angles:
  "EulerToQuaternion axis_quaternion hamilton (r, p, y) =
     half_angles (cos (y / 2)) (sin (y / 2)) (cos (p / 2)) (sin (p / 2)) (cos (r / 2)) (sin (r / 2))"
  by (simp add: EulerToQuaternion_def hamilton_def axis_quaternion_def half_angles_def algebra_simps)

lemma half_angle:
  fixes a :: real
  shows "cos (a / 2) * cos (a / 2) + sin (a / 2) * sin (a / 2) = 1"
    and "2 * (sin (a / 2) * cos (a / 2)) = sin a"
    and "2 * (cos (a / 2) * sin (a / 2)) = sin a"
    and "cos (a / 2) * cos (a / 2) - sin (a / 2) * sin (a / 2) = cos a"
  using sin_double [of "a / 2"] cos_double [of "a / 2"] sin_cos_squared_add3 [of "a / 2"]
  by (simp_all add: power2_eq_square mult.commute)

lemma euler_quaternion:
  fixes r p y :: real
  defines "q \<equiv> EulerToQuaternion axis_quaternion hamilton (r, p, y)"
  shows "2 * (q_w q * q_y q - q_x q * q_z q) = sin p"
    and "2 * (q_w q * q_z q + q_x q * q_y q) = cos p * sin y"
    and "1 - 2 * (q_y q * q_y q + q_z q * q_z q) = cos p * cos y"
    and "2 * (q_w q * q_x q + q_y q * q_z q) = cos p * sin r"
    and "1 - 2 * (q_x q * q_x q + q_y q * q_y q) = cos p * cos r"
proof -
  note products = half_angles_products [OF half_angle(1) [of y] half_angle(1) [of p] half_angle(1) [of r],
      folded EulerToQuaternion_half_angles, folded q_def, unfolded half_angle(4)]
  have scale: "2 * (c * d) = c * (2 * d)" for c d :: real by simp
  show "2 * (q_w q * q_y q - q_x q * q_z q) = sin p" unfolding products by (rule half_angle(3))
  show "2 * (q_w q * q_z q + q_x q * q_y q) = cos p * sin y" unfolding products scale [of "cos p"] half_angle(2) by (rule refl)
  show "1 - 2 * (q_y q * q_y q + q_z q * q_z q) = cos p * cos y" by (rule products)
  show "2 * (q_w q * q_x q + q_y q * q_z q) = cos p * sin r" unfolding products scale [of "cos p"] half_angle(2) by (rule refl)
  show "1 - 2 * (q_x q * q_x q + q_y q * q_y q) = cos p * cos r" by (rule products)
qed

text \<open>C37: converting roll, pitch and yaw to a quaternion and back gives the same angles, away from
  the poles: for roll and yaw within half a turn and a pitch whose sine is not within \<open>kPrecision\<close> of \<open>\<plusminus>1\<close>,
  if Eigen's angle-axis rotations and products of quaternions mean what its documentation says.\<close>

theorem euler_round_trip:
  assumes eigen: "\<And>a v. AngleAxis a v = axis_quaternion a v" "\<And>p q. qmul p q = hamilton p q"
    and roll: "\<bar>roll\<bar> \<le> kPi" "- pi < roll" "roll \<le> pi"
    and yaw: "\<bar>yaw\<bar> \<le> kPi" "- pi < yaw" "yaw \<le> pi"
    and pitch: "\<bar>pitch\<bar> < M_PI_2" "\<bar>pitch\<bar> < pi / 2" "\<bar>sin pitch\<bar> < 1 - kPrecision"
  shows "QuaternionToEuler (EulerToQuaternion AngleAxis qmul (roll, pitch, yaw)) = (roll, pitch, yaw)"
proof -
  let ?q = "EulerToQuaternion axis_quaternion hamilton (roll, pitch, yaw)"
  have ops: "AngleAxis = axis_quaternion" "qmul = hamilton" using eigen by blast+
  have pos: "0 < cos pitch" using pitch(2) by (intro cos_gt_zero_pi) linarith+
  have "\<not> sin pitch \<ge> 1 - kPrecision" "\<not> sin pitch \<le> - 1 + kPrecision" using pitch(3) by linarith+
  moreover have "arcsin (sin pitch) = pitch" using pitch(2) by (intro arcsin_sin) linarith+
  ultimately have p: "PitchFromQuaternion ?q = pitch"
    unfolding PitchFromQuaternion_def euler_quaternion Let_def by simp
  have r: "RollFromQuaternion ?q = roll" and y: "YawFromQuaternion ?q = yaw"
    unfolding RollFromQuaternion_def YawFromQuaternion_def euler_quaternion Let_def
    using atan2_polar [OF pos] roll yaw by blast+
  have "pitch \<noteq> M_PI_2" "pitch \<noteq> - M_PI_2" "\<bar>pitch\<bar> \<le> kPi" using pitch(1) by (auto simp: M_PI_2_def)
  then show ?thesis
    using roll(1) yaw(1) by (simp add: ops QuaternionToEuler_def p r y WrapToPi_id Let_def)
qed

theorem euler_round_trip_witness:
  "QuaternionToEuler (EulerToQuaternion axis_quaternion hamilton (1, 1 / 2, - 1)) = (1, 1 / 2, - 1)"
proof (rule euler_round_trip)
  have half: "\<bar>sin (1 / 2 :: real)\<bar> \<le> 1 / 2" using abs_sin_x_le_abs_x [of "1 / 2"] by simp
  show "\<bar>sin (1 / 2)\<bar> < 1 - kPrecision" by (rule le_less_trans [OF half]) (simp add: kPrecision_def)
qed (use pi_ge_two in \<open>simp_all add: kPi_def M_PI_2_def\<close>)

end
