(* ===== verification/Rotations.thy ===== *)
theory Rotations
  imports Quaternions
begin

text \<open>
  \<open>src/a17/maths/rotations.{h,cpp}\<close>: the change between axes that point east, north, up and axes that
  point north, east, down. The members of \<open>class Rotations\<close> are constants, so an object is a
  record of them. Eigen's angle-axis rotation, product, inverse and rotation of a vector
  are arguments, their documented meanings are \<open>axis_quaternion\<close>, \<open>hamilton\<close>, \<open>conjugate\<close> (for unit
  quaternions) and \<open>rotate\<close>.
\<close>

section \<open>Definitions\<close>

record rotations =
  q_pi_x :: quaternion
  q_pi_2_z :: quaternion
  q_ned_to_enu :: quaternion
  q_enu_to_ned :: quaternion

definition Rotations ::
  "(real \<Rightarrow> real \<times> real \<times> real \<Rightarrow> quaternion) \<Rightarrow> (quaternion \<Rightarrow> quaternion \<Rightarrow> quaternion) \<Rightarrow>
   (quaternion \<Rightarrow> quaternion) \<Rightarrow> rotations" where
  "Rotations AngleAxis qmul qinverse =
     (let pi_x = AngleAxis kPi (1, 0, 0); pi_2_z = AngleAxis M_PI_2 (0, 0, 1); ned_to_enu = qmul pi_2_z pi_x
      in \<lparr>q_pi_x = pi_x, q_pi_2_z = pi_2_z, q_ned_to_enu = ned_to_enu, q_enu_to_ned = qinverse ned_to_enu\<rparr>)"

definition pointEnuToNed ::
  "(quaternion \<Rightarrow> real \<times> real \<times> real \<Rightarrow> real \<times> real \<times> real) \<Rightarrow> rotations \<Rightarrow> real \<times> real \<times> real \<Rightarrow> real \<times> real \<times> real" where
  "pointEnuToNed transformVector R enu = transformVector (q_enu_to_ned R) enu"

definition rotEnuToNed ::
  "(quaternion \<Rightarrow> quaternion \<Rightarrow> quaternion) \<Rightarrow> rotations \<Rightarrow> quaternion \<Rightarrow> quaternion" where
  "rotEnuToNed qmul R enu = qmul (qmul (q_ned_to_enu R) enu) (q_enu_to_ned R)"

section \<open>The documented meaning of Eigen's operations\<close>

definition conjugate :: "quaternion \<Rightarrow> quaternion" where
  "conjugate q = \<lparr>q_w = q_w q, q_x = - q_x q, q_y = - q_y q, q_z = - q_z q\<rparr>"

definition rotate :: "quaternion \<Rightarrow> real \<times> real \<times> real \<Rightarrow> real \<times> real \<times> real" where
  "rotate q = (\<lambda>(x, y, z).
     let r = hamilton (hamilton q \<lparr>q_w = 0, q_x = x, q_y = y, q_z = z\<rparr>) (conjugate q) in (q_x r, q_y r, q_z r))"

abbreviation enu_ned :: rotations where
  "enu_ned \<equiv> Rotations axis_quaternion hamilton conjugate"

section \<open>Properties\<close>

lemma rotate_half_angles:
  fixes ca sa cb sb :: real
  assumes "ca * ca + sa * sa = 1" "cb * cb + sb * sb = 1"
  defines "q \<equiv> conjugate \<lparr>q_w = cb * ca, q_x = cb * sa, q_y = sb * sa, q_z = sb * ca\<rparr>"
    and "Ca \<equiv> ca * ca - sa * sa" and "Sa \<equiv> 2 * (sa * ca)" and "Cb \<equiv> cb * cb - sb * sb" and "Sb \<equiv> 2 * (sb * cb)"
  shows "rotate q (x, y, z) =
    (x * Cb + y * Sb, (y * Cb - x * Sb) * Ca + z * Sa, z * Ca - (y * Cb - x * Sb) * Sa)"
proof -
  let ?ua = "ca * ca + sa * sa" and ?ub = "cb * cb + sb * sb"
  have "rotate q (x, y, z) =
    ((x * Cb + y * Sb) * ?ua, (y * Cb - x * Sb) * Ca + z * Sa * ?ub, z * Ca * ?ub - (y * Cb - x * Sb) * Sa)"
    by (simp add: rotate_def q_def conjugate_def hamilton_def Ca_def Sa_def Cb_def Sb_def Let_def algebra_simps)
  then show ?thesis by (simp add: assms(1,2))
qed

text \<open>A point is turned by a quarter about the vertical axis and by half a turn about the first: up to the
  difference between \<open>kPi\<close> and pi, \<open>(x, y, z)\<close> becomes \<open>(y, x, -z)\<close>.\<close>

lemma enu_ned_quaternion:
  "q_enu_to_ned enu_ned = conjugate \<lparr>q_w = cos (M_PI_2 / 2) * cos (kPi / 2), q_x = cos (M_PI_2 / 2) * sin (kPi / 2),
     q_y = sin (M_PI_2 / 2) * sin (kPi / 2), q_z = sin (M_PI_2 / 2) * cos (kPi / 2)\<rparr>"
  by (simp add: Rotations_def Let_def axis_quaternion_def hamilton_def)

lemma pointEnuToNed_eq:
  "pointEnuToNed rotate enu_ned (x, y, z) =
     (x * cos M_PI_2 + y * sin M_PI_2, (y * cos M_PI_2 - x * sin M_PI_2) * cos kPi + z * sin kPi,
      z * cos kPi - (y * cos M_PI_2 - x * sin M_PI_2) * sin kPi)"
  unfolding pointEnuToNed_def enu_ned_quaternion
    rotate_half_angles [OF half_angle(1) [of kPi] half_angle(1) [of M_PI_2]] half_angle by (rule refl)

text \<open>The change of axes preserves distances to the origin.\<close>

lemma pointEnuToNed_isometry:
  "pointEnuToNed rotate enu_ned (x, y, z) = (x', y', z') \<Longrightarrow> x'\<^sup>2 + y'\<^sup>2 + z'\<^sup>2 = x\<^sup>2 + y\<^sup>2 + z\<^sup>2"
proof -
  have turn: "(u * c + v * s)\<^sup>2 + (v * c - u * s)\<^sup>2 = u\<^sup>2 + v\<^sup>2" if "c\<^sup>2 + s\<^sup>2 = 1" for u v c s :: real
  proof -
    have "(u * c + v * s)\<^sup>2 + (v * c - u * s)\<^sup>2 = (u\<^sup>2 + v\<^sup>2) * (c\<^sup>2 + s\<^sup>2)" by (simp add: power2_eq_square algebra_simps)
    with that show ?thesis by simp
  qed
  assume "pointEnuToNed rotate enu_ned (x, y, z) = (x', y', z')"
  then show ?thesis
    using turn [of "cos M_PI_2" "sin M_PI_2" x y] turn [of "cos kPi" "sin kPi" "y * cos M_PI_2 - x * sin M_PI_2" z]
    by (auto simp: pointEnuToNed_eq)
qed

text \<open>A rotation is conjugated, so that the image of a composition is the composition of the images.\<close>

lemma hamilton_assoc: "hamilton (hamilton p q) r = hamilton p (hamilton q r)"
  by (simp add: hamilton_def algebra_simps)

lemma enu_ned_inverse: "hamilton (q_enu_to_ned enu_ned) (q_ned_to_enu enu_ned) = \<lparr>q_w = 1, q_x = 0, q_y = 0, q_z = 0\<rparr>"
proof -
  have unit: "hamilton (conjugate q) q = \<lparr>q_w = ca * ca + sa * sa, q_x = 0, q_y = 0, q_z = 0\<rparr>"
    if "q = \<lparr>q_w = cb * ca, q_x = cb * sa, q_y = sb * sa, q_z = sb * ca\<rparr>" "cb * cb + sb * sb = 1"
    for q ca sa cb sb
  proof -
    have "hamilton (conjugate q) q = \<lparr>q_w = (ca * ca + sa * sa) * (cb * cb + sb * sb), q_x = 0, q_y = 0, q_z = 0\<rparr>"
      by (simp add: that(1) hamilton_def conjugate_def algebra_simps)
    then show ?thesis by (simp add: that(2))
  qed
  have "q_enu_to_ned enu_ned = conjugate (q_ned_to_enu enu_ned)" by (simp add: Rotations_def Let_def)
  moreover have "q_ned_to_enu enu_ned = \<lparr>q_w = cos (M_PI_2 / 2) * cos (kPi / 2), q_x = cos (M_PI_2 / 2) * sin (kPi / 2),
      q_y = sin (M_PI_2 / 2) * sin (kPi / 2), q_z = sin (M_PI_2 / 2) * cos (kPi / 2)\<rparr>"
    by (simp add: Rotations_def Let_def axis_quaternion_def hamilton_def)
  ultimately show ?thesis using unit half_angle(1) by metis
qed

lemma rotEnuToNed_product:
  "rotEnuToNed hamilton enu_ned (hamilton p q) =
     hamilton (rotEnuToNed hamilton enu_ned p) (rotEnuToNed hamilton enu_ned q)"
proof -
  have one: "hamilton \<lparr>q_w = 1, q_x = 0, q_y = 0, q_z = 0\<rparr> r = r" for r by (simp add: hamilton_def)
  have "hamilton (q_enu_to_ned enu_ned) (hamilton (q_ned_to_enu enu_ned) r) = r" for r
    by (simp add: hamilton_assoc [symmetric] enu_ned_inverse one)
  then show ?thesis by (simp add: rotEnuToNed_def hamilton_assoc)
qed

end
