(* ===== verification/Matrix_Utils.thy ===== *)
theory Matrix_Utils
  imports C_Strings Complex_Main
begin

text \<open>
  \<open>src/a17/maths/matrix_utils.h\<close>: the matrix of a cross product and the adjugate of a square matrix.
  An Eigen matrix is its dimensions and its entries, a scalar a real number. The
  determinant and the inverse are Eigen's, arguments of \<open>Adjugate\<close>. Assignment to a block of a matrix is
  written out: it overwrites the entries of the block and keeps the others, in particular those of
  freshly constructed matrices, whose contents \<open>fresh\<close> are not initialised.
\<close>

section \<open>Definitions\<close>

record matrix =
  m_rows :: nat
  m_cols :: nat
  m_at :: "nat \<Rightarrow> nat \<Rightarrow> real"

definition SkewSymmetricMatrix :: "(nat \<Rightarrow> real) \<Rightarrow> matrix" where
  "SkewSymmetricMatrix v = \<lparr>m_rows = 3, m_cols = 3, m_at = (\<lambda>i j.
     [0, - v 2, v 1, v 2, 0, - v 0, - v 1, v 0, 0] ! (3 * i + j))\<rparr>"

text \<open>\<open>to.block(i, j, h, w) = from.block(k, l, h, w)\<close>\<close>

definition assign_block ::
  "nat \<Rightarrow> nat \<Rightarrow> nat \<Rightarrow> nat \<Rightarrow> nat \<Rightarrow> nat \<Rightarrow> matrix \<Rightarrow> matrix \<Rightarrow> matrix" where
  "assign_block i j k l h w from to = to\<lparr>m_at := (\<lambda>a b.
     if i \<le> a \<and> a < i + h \<and> j \<le> b \<and> b < j + w then m_at from (a - i + k) (b - j + l) else m_at to a b)\<rparr>"

definition minor :: "(nat \<Rightarrow> nat \<Rightarrow> real) \<Rightarrow> matrix \<Rightarrow> nat \<Rightarrow> nat \<Rightarrow> matrix" where
  "minor fresh mat r c =
     (let temp = \<lparr>m_rows = m_rows mat - 1, m_cols = m_cols mat - 1, m_at = fresh\<rparr>;
          br_rows = m_rows mat - (r + 1);
          br_cols = m_cols mat - (c + 1);
          temp = assign_block 0 0 0 0 r c mat temp;
          temp = assign_block 0 c 0 (c + 1) r br_cols mat temp;
          temp = assign_block r 0 (r + 1) 0 br_rows c mat temp
      in assign_block r c (r + 1) (c + 1) br_rows br_cols mat temp)"

definition cofactor :: "(matrix \<Rightarrow> real) \<Rightarrow> (nat \<Rightarrow> nat \<Rightarrow> real) \<Rightarrow> matrix \<Rightarrow> nat \<Rightarrow> nat \<Rightarrow> real" where
  "cofactor determinant fresh mat r c =
     (let even_row = r mod 2 = 0; even_col = c mod 2 = 0; sign = (if even_row = even_col then 1 else - 1)
      in sign * determinant (minor fresh mat r c))"

definition Adjugate ::
  "(matrix \<Rightarrow> real) \<Rightarrow> (matrix \<Rightarrow> matrix) \<Rightarrow> (nat \<Rightarrow> nat \<Rightarrow> real) \<Rightarrow> matrix \<Rightarrow> matrix result" where
  "Adjugate determinant inverse_of fresh mat =
     (if m_rows mat \<noteq> m_cols mat then Inl Invalid_Argument
      else let det = determinant mat in
        if det \<noteq> 0 then Inr ((inverse_of mat)\<lparr>m_at := (\<lambda>i j. det * m_at (inverse_of mat) i j)\<rparr>)
        else Inr \<lparr>m_rows = m_cols mat, m_cols = m_rows mat,
                  m_at = (\<lambda>i j. cofactor determinant fresh mat j i)\<rparr>)"

section \<open>The cross product\<close>

lemma skew_symmetric_cross:
  fixes v w :: "nat \<Rightarrow> real"
  shows "map (\<lambda>i. \<Sum>j<3. m_at (SkewSymmetricMatrix v) i j * w j) [0, 1, 2] =
    [v 1 * w 2 - v 2 * w 1, v 2 * w 0 - v 0 * w 2, v 0 * w 1 - v 1 * w 0]"
  by (simp add: SkewSymmetricMatrix_def eval_nat_numeral)

section \<open>Minors\<close>

lemma minor_size [simp]:
  "m_rows (minor fresh mat r c) = m_rows mat - 1" "m_cols (minor fresh mat r c) = m_cols mat - 1"
  by (simp_all add: minor_def assign_block_def Let_def)

text \<open>The four blocks cover the matrix without row \<open>r\<close> and column \<open>c\<close>.\<close>

lemma minor_at:
  assumes "r < m_rows mat" "c < m_cols mat" "a < m_rows mat - 1" "b < m_cols mat - 1"
  shows "m_at (minor fresh mat r c) a b = m_at mat (if a < r then a else a + 1) (if b < c then b else b + 1)"
  using assms by (auto simp: minor_def assign_block_def Let_def)

text \<open>A minor does not depend on the row that is left out.\<close>

definition with_row :: "nat \<Rightarrow> (nat \<Rightarrow> real) \<Rightarrow> matrix \<Rightarrow> matrix" where
  "with_row k row mat = mat\<lparr>m_at := (m_at mat)(k := row)\<rparr>"

lemma minor_with_row [simp]: "minor fresh (with_row k row mat) k c = minor fresh mat k c"
  by (auto simp: minor_def assign_block_def with_row_def Let_def fun_eq_iff)

lemma cofactor_with_row [simp]: "cofactor det fresh (with_row k row mat) k c = cofactor det fresh mat k c"
  by (simp add: cofactor_def)

section \<open>The adjugate\<close>

definition square :: "nat \<Rightarrow> matrix \<Rightarrow> bool" where
  "square n mat \<longleftrightarrow> m_rows mat = n \<and> m_cols mat = n"

text \<open>Two laws of determinants: the expansion along a row, and repeated rows.\<close>

definition row_expansion :: "nat \<Rightarrow> (matrix \<Rightarrow> real) \<Rightarrow> (nat \<Rightarrow> nat \<Rightarrow> real) \<Rightarrow> bool" where
  "row_expansion n det fresh \<longleftrightarrow>
     (\<forall>m k. square n m \<longrightarrow> k < n \<longrightarrow> (\<Sum>j<n. m_at m k j * cofactor det fresh m k j) = det m)"

definition repeated_rows_vanish :: "nat \<Rightarrow> (matrix \<Rightarrow> real) \<Rightarrow> bool" where
  "repeated_rows_vanish n det \<longleftrightarrow>
     (\<forall>m i k. square n m \<longrightarrow> i < n \<longrightarrow> k < n \<longrightarrow> i \<noteq> k \<longrightarrow> m_at m i = m_at m k \<longrightarrow> det m = 0)"

lemma cofactors_orthogonal:
  assumes laws: "row_expansion n det fresh" "repeated_rows_vanish n det"
    and "square n mat" "i < n" "k < n"
  shows "(\<Sum>j<n. m_at mat i j * cofactor det fresh mat k j) = (if i = k then det mat else 0)"
proof (cases "i = k")
  case False
  let ?m = "with_row k (m_at mat i) mat"
  have sq: "square n ?m" using assms(3) by (simp add: square_def with_row_def)
  have "(\<Sum>j<n. m_at mat i j * cofactor det fresh mat k j) = (\<Sum>j<n. m_at ?m k j * cofactor det fresh ?m k j)"
    by simp (simp add: with_row_def)
  also have "\<dots> = det ?m" using laws(1) sq assms(5) unfolding row_expansion_def by blast
  also have "m_at ?m i = m_at ?m k" using False by (simp add: with_row_def)
  then have "det ?m = 0" using laws(2) sq assms(4,5) False unfolding repeated_rows_vanish_def by blast
  finally show ?thesis using False by simp
qed (use laws(1) assms(3,5) in \<open>simp add: row_expansion_def\<close>)


text \<open>The determinant of matrices of one and of two rows.\<close>

definition small_determinant :: "matrix \<Rightarrow> real" where
  "small_determinant m =
     (if m_rows m = 1 then m_at m 0 0 else m_at m 0 0 * m_at m 1 1 - m_at m 0 1 * m_at m 1 0)"


end
