(* ===== verification/Float_Utils.thy ===== *)
theory Float_Utils
  imports Complex_Main "HOL-Library.Log_Nat" C_Strings
begin

text \<open>
  Comparison of floating point numbers, \<open>src/a17/maths/float_utils.h\<close>. A \<open>float\<close> that is not NaN is
  its sign times its bit pattern without the sign bit, an integer from -0x7F800000 to 0x7F800000
  (minus and plus infinity): neighbouring floats are neighbouring integers and the order is
  that of the integers. \<open>fval\<close> is its value, that of infinity being $2^{128}$. A \<open>double\<close> is a rational
  or real number; \<open>to_float\<close> is the conversion to the nearest float, ties to even.
\<close>

section \<open>Floats\<close>

type_synonym float32 = int

definition fmag :: "nat \<Rightarrow> rat" where
  "fmag n = (let ex = n div 2 ^ 23; fr = n mod 2 ^ 23
             in if ex = 0 then of_nat fr / 2 ^ 149 else of_nat (2 ^ 23 + fr) * 2 ^ (ex - 1) / 2 ^ 149)"

definition fval :: "float32 \<Rightarrow> rat" where
  "fval n = (if n < 0 then - fmag (nat (- n)) else fmag (nat n))"

abbreviation FLT_INF :: float32 where "FLT_INF \<equiv> 0x7F800000"
abbreviation FLT_MAX :: float32 where "FLT_MAX \<equiv> 0x7F7FFFFF"
abbreviation FLT_MIN :: float32 where "FLT_MIN \<equiv> 0x00800000"

definition nexttoward :: "float32 \<Rightarrow> float32 \<Rightarrow> float32" where
  "nexttoward l r = (if l < r then l + 1 else if r < l then l - 1 else r)"

definition round_even :: "'a::floor_ceiling \<Rightarrow> int" where
  "round_even q = (let f = \<lfloor>q\<rfloor>; d = q - of_int f
     in if d < 1 / 2 then f else if d > 1 / 2 then f + 1 else if even f then f else f + 1)"

text \<open>The exponent field of the result, zero for subnormal numbers and the smallest normal ones.\<close>

definition to_float_mag :: "'a::floor_ceiling \<Rightarrow> int" where
  "to_float_mag a =
     (let e = floorlog 2 (nat \<lfloor>a * 2 ^ 126\<rfloor>) - 1
      in min FLT_INF (int e * 2 ^ 23 + round_even (a * 2 ^ 149 / 2 ^ e)))"

definition to_float :: "'a::floor_ceiling \<Rightarrow> float32" where
  "to_float x = (if x < 0 then - to_float_mag (- x) else to_float_mag x)"

section \<open>float\_utils.h\<close>

definition FloatEpsilon :: "float32 \<Rightarrow> float32 \<Rightarrow> rat" where
  "FloatEpsilon left right = max (\<bar>fval (nexttoward left right) - fval left\<bar> * 2) (fval FLT_MIN)"

definition FloatAbsDiff :: "float32 \<Rightarrow> float32 \<Rightarrow> rat" where
  "FloatAbsDiff left right = \<bar>fval left - fval right\<bar>"

definition kFloatMin :: float32 where
  "kFloatMin = nexttoward (- FLT_MAX) 0"

definition kFloatMax :: float32 where
  "kFloatMax = nexttoward FLT_MAX 0"

definition FloatEq_within :: "rat \<Rightarrow> float32 \<Rightarrow> float32 \<Rightarrow> bool" where
  "FloatEq_within epsilon left right =
     (if left \<le> kFloatMin then right \<le> kFloatMin
      else if left \<ge> kFloatMax then right \<ge> kFloatMax
      else if right \<le> kFloatMin \<or> right \<ge> kFloatMax then False
      else (let epsilon = (if epsilon < 0 then FloatEpsilon left right else epsilon)
            in FloatAbsDiff left right < epsilon))"

abbreviation FloatEq :: "float32 \<Rightarrow> float32 \<Rightarrow> bool" where
  "FloatEq \<equiv> FloatEq_within (- 1)"

definition FloatLt :: "float32 \<Rightarrow> float32 \<Rightarrow> bool" where
  "FloatLt left right \<longleftrightarrow> left < right \<and> \<not> FloatEq left right"

definition FloatLtEq :: "float32 \<Rightarrow> float32 \<Rightarrow> bool" where
  "FloatLtEq left right \<longleftrightarrow> left < right \<or> FloatEq left right"

definition FloatGt :: "float32 \<Rightarrow> float32 \<Rightarrow> bool" where
  "FloatGt left right \<longleftrightarrow> left > right \<and> \<not> FloatEq left right"

definition FloatGtEq :: "float32 \<Rightarrow> float32 \<Rightarrow> bool" where
  "FloatGtEq left right \<longleftrightarrow> left > right \<or> FloatEq left right"

text \<open>\<open>std::round\<close> rounds halves away from zero. The conversion to \<open>int\<close> is undefined out of range.\<close>

definition round_away :: "rat \<Rightarrow> int" where
  "round_away x = (if x < 0 then - \<lfloor>- x + 1 / 2\<rfloor> else \<lfloor>x + 1 / 2\<rfloor>)"

definition to_int32 :: "int \<Rightarrow> int result" where
  "to_int32 i = (if - (2 ^ 31) \<le> i \<and> i < 2 ^ 31 then Inr i else Inl Out_Of_Range)"

definition FloatFloor :: "rat \<Rightarrow> int result" where
  "FloatFloor v =
     (let rounded = round_away v; l = to_float v; r = to_float (of_int rounded :: rat)
      in if FloatAbsDiff l r < FloatEpsilon l r then to_int32 rounded else to_int32 \<lfloor>v\<rfloor>)"

section \<open>The values of floats\<close>

definition ulp :: "nat \<Rightarrow> rat" where
  "ulp n = 2 ^ (n div 2 ^ 23 - 1) / 2 ^ 149"

lemma ulp_pos: "0 < ulp n"
  by (simp add: ulp_def)

lemma ulp_mono: "m \<le> n \<Longrightarrow> ulp m \<le> ulp n"
  unfolding ulp_def by (intro divide_right_mono power_increasing) (simp_all add: div_le_mono diff_le_mono)

lemma ulp_near:
  assumes "n \<le> m + 2 ^ 23"
  shows "ulp n \<le> 2 * ulp m"
proof -
  have "n div 2 ^ 23 \<le> Suc (m div 2 ^ 23)" using div_le_mono [OF assms, of "2 ^ 23"] by simp
  then have "n div 2 ^ 23 - 1 \<le> Suc (m div 2 ^ 23 - 1)" by linarith
  then have "(2::rat) ^ (n div 2 ^ 23 - 1) \<le> 2 * 2 ^ (m div 2 ^ 23 - 1)"
    using power_increasing [of "n div 2 ^ 23 - 1" "Suc (m div 2 ^ 23 - 1)" "2::rat"] by simp
  then show ?thesis by (simp add: ulp_def divide_right_mono)
qed

lemma fmag_Suc: "fmag (Suc n) = fmag n + ulp n"
proof -
  define q f where "q = n div 2 ^ 23" and "f = n mod 2 ^ 23"
  have n: "n = q * 2 ^ 23 + f" "f < 2 ^ 23" by (simp_all add: q_def f_def)
  show ?thesis
  proof (cases "Suc f < 2 ^ 23")
    case True
    then have d: "Suc n div 2 ^ 23 = q" "Suc n mod 2 ^ 23 = Suc f" using n by simp_all
    show ?thesis
      unfolding fmag_def ulp_def d q_def [symmetric] f_def [symmetric] Let_def
      by (simp add: field_simps)
  next
    case False
    then have f: "f = 2 ^ 23 - 1" using n by simp
    then have d: "Suc n div 2 ^ 23 = Suc q" "Suc n mod 2 ^ 23 = 0" using n by simp_all
    show ?thesis
      unfolding fmag_def ulp_def d q_def [symmetric] f_def [symmetric] Let_def
      by (cases q) (simp_all add: f field_simps)
  qed
qed

lemma fmag_0 [simp]: "fmag 0 = 0"
  by (simp add: fmag_def)

definition spacing :: "float32 \<Rightarrow> rat" where
  "spacing k = fval (k + 1) - fval k"

lemma spacing_ulp: "spacing k = (if 0 \<le> k then ulp (nat k) else ulp (nat (- k - 1)))"
proof (cases "0 \<le> k")
  case True
  then have "nat (k + 1) = Suc (nat k)" by simp
  with True show ?thesis by (simp add: spacing_def fval_def fmag_Suc)
next
  case False
  then have "nat (- k) = Suc (nat (- k - 1))" "- (k + 1) = - k - 1" by simp_all
  with False show ?thesis by (cases "k = - 1") (auto simp: spacing_def fval_def fmag_Suc)
qed

lemma fval_minus: "fval (- n) = - fval n"
  by (simp add: fval_def)

lemma spacing_pos: "0 < spacing k"
  by (simp add: spacing_ulp ulp_pos)

lemma fval_less:
  assumes "a < b"
  shows "fval a + spacing a \<le> fval b"
proof -
  define n where "n = nat (b - a - 1)"
  have b: "b = a + 1 + int n" using assms by (simp add: n_def)
  have "fval (a + 1) \<le> fval (a + 1 + int n)" for n
  proof (induction n)
    case (Suc n)
    have "fval (a + 1 + int (Suc n)) = fval (a + 1 + int n) + spacing (a + 1 + int n)"
      by (simp add: spacing_def ac_simps)
    with Suc.IH spacing_pos [of "a + 1 + int n"] show ?case by linarith
  qed simp
  then show ?thesis by (simp add: b spacing_def)
qed

lemma fval_mono [simp]: "fval a < fval b \<longleftrightarrow> a < b"
  using fval_less [of a b] fval_less [of b a] spacing_pos [of a] spacing_pos [of b]
  by (cases a b rule: linorder_cases) auto

lemma fval_le [simp]: "fval a \<le> fval b \<longleftrightarrow> a \<le> b"
  using fval_mono [of b a] by (simp only: not_less [symmetric])

lemma spacing_twice: "spacing k \<le> spacing (k + 1) + spacing (k + 2)"
proof (cases "k \<ge> - 2")
  case True
  have "ulp (Suc 0) = ulp 0" by (simp add: ulp_def)
  moreover have "ulp (nat k) \<le> ulp (nat (k + 1))" by (intro ulp_mono) simp
  ultimately show ?thesis using True ulp_pos [of "nat (k + 2)"] ulp_pos [of 0]
    by (cases "k = - 1"; cases "k = - 2") (auto simp: spacing_ulp)
next
  case False
  then have "ulp (nat (- k - 1)) \<le> 2 * ulp (nat (- k - 3))"
    by (intro ulp_near) simp
  moreover have "ulp (nat (- k - 3)) \<le> ulp (nat (- k - 2))" by (intro ulp_mono) simp
  ultimately show ?thesis using False by (simp add: spacing_ulp algebra_simps)
qed

lemma fval_three:
  assumes "a + 2 < b"
  shows "fval a + 2 * spacing a \<le> fval b" "fval a + 2 * spacing (b - 1) \<le> fval b"
proof -
  have three: "fval (k + 3) = fval k + spacing k + spacing (k + 1) + spacing (k + 2)" for k
    by (simp add: spacing_def algebra_simps)
  show "fval a + 2 * spacing a \<le> fval b"
    using three [of a] spacing_twice [of a] fval_le [of "a + 3" b] assms by linarith
  have sym: "spacing (- k - 1) = spacing k" for k by (auto simp: spacing_ulp)
  have "spacing (b - 1) \<le> spacing (b - 2) + spacing (b - 3)"
    using spacing_twice [of "- b"] sym [of "b - 1"] sym [of "b - 2"] sym [of "b - 3"] by (simp add: algebra_simps)
  moreover have "fval a \<le> fval (b - 3)" using assms by simp
  moreover have "fval b = fval (b - 3) + spacing (b - 3) + spacing (b - 2) + spacing (b - 1)"
    using three [of "b - 3"] by (simp add: algebra_simps)
  ultimately show "fval a + 2 * spacing (b - 1) \<le> fval b" by linarith
qed

lemma FloatEq_finite:
  assumes "\<bar>l\<bar> < kFloatMax" "\<bar>r\<bar> < kFloatMax"
  shows "FloatEq l r \<longleftrightarrow> \<bar>fval l - fval r\<bar> <
    max (2 * (if l < r then spacing l else if r < l then spacing (l - 1) else 0)) (fval FLT_MIN)"
proof -
  have "kFloatMin = - kFloatMax" by (simp add: kFloatMin_def kFloatMax_def nexttoward_def)
  then have n: "kFloatMin < l" "l < kFloatMax" "kFloatMin < r" "r < kFloatMax" using assms by auto
  have "\<bar>fval (nexttoward l r) - fval l\<bar> = (if l < r then spacing l else if r < l then spacing (l - 1) else 0)"
    by (simp add: nexttoward_def spacing_def abs_if)
  then show ?thesis
    using n by (simp add: FloatEq_within_def FloatEpsilon_def FloatAbsDiff_def mult.commute)
qed

lemma fval_FLT_MIN: "fval FLT_MIN = 1 / 2 ^ 126"
  by (simp add: fval_def fmag_def)

text \<open>
  What \<open>FloatEq\<close> means. For floats below the largest two in magnitude: a float equals itself
  and its two neighbours; floats that are three or more steps apart are equal only if they differ by
  less than the smallest normal float. Exactly one of "less", "equal" and "greater" holds, and
  the non-strict comparisons are the negations of the strict ones.
\<close>

theorem float_comparison:
  assumes "\<bar>l\<bar> < kFloatMax" "\<bar>r\<bar> < kFloatMax"
  shows "(\<bar>l - r\<bar> \<le> 1 \<longrightarrow> FloatEq l r) \<and>
    (FloatEq l r \<longrightarrow> \<bar>l - r\<bar> \<le> 2 \<or> \<bar>fval l - fval r\<bar> < 1 / 2 ^ 126) \<and>
    (if FloatEq l r then \<not> FloatLt l r \<and> \<not> FloatGt l r else FloatLt l r \<noteq> FloatGt l r) \<and>
    (FloatLtEq l r \<longleftrightarrow> \<not> FloatGt l r) \<and> (FloatGtEq l r \<longleftrightarrow> \<not> FloatLt l r)"
proof -
  have near: "FloatEq l r" if close: "\<bar>l - r\<bar> \<le> 1"
  proof -
    consider "r = l" | "r = l + 1" | "r = l - 1" using close by linarith
    then show ?thesis
      using spacing_pos [of l] spacing_pos [of "l - 1"] unfolding FloatEq_finite [OF assms] fval_FLT_MIN
      by cases (auto simp: spacing_def less_max_iff_disj)
  qed
  have far: "\<bar>l - r\<bar> \<le> 2 \<or> \<bar>fval l - fval r\<bar> < 1 / 2 ^ 126" if "FloatEq l r"
  proof (rule ccontr)
    assume "\<not> ?thesis"
    then have "\<bar>fval l - fval r\<bar> < 2 * (if l < r then spacing l else if r < l then spacing (l - 1) else 0)"
      and "l + 2 < r \<or> r + 2 < l"
      using that by (auto simp: FloatEq_finite [OF assms] fval_FLT_MIN less_max_iff_disj)
    then show False using fval_three(1) [of l r] fval_three(2) [of r l] fval_mono [of l r] fval_mono [of r l]
      by (auto split: if_splits)
  qed
  have "l \<noteq> r" if "\<not> FloatEq l r" using near that by auto
  with near far show ?thesis
    by (auto simp: FloatLt_def FloatGt_def FloatLtEq_def FloatGtEq_def)
qed

theorem float_comparison_witness:
  "FloatEq 0x3F800000 0x3F800001 \<and> \<not> FloatGt 0x3F800000 0x3F800001"
  using float_comparison [of "0x3F800000" "0x3F800001"] by (simp add: kFloatMax_def nexttoward_def)

text \<open>The comparison is not symmetric: the step above 1 is twice the step below.\<close>

lemma FloatEq_not_symmetric:
  "\<not> FloatEq 0x3F7FFFFF 0x3F800001 \<and> FloatEq 0x3F800001 0x3F7FFFFF"
proof -
  have k: "\<bar>0x3F7FFFFF\<bar> < kFloatMax" "\<bar>0x3F800001\<bar> < kFloatMax" by (simp_all add: kFloatMax_def nexttoward_def)
  show ?thesis
    unfolding FloatEq_finite [OF k] FloatEq_finite [OF k(2,1)] fval_FLT_MIN
    by (simp add: spacing_def fval_def fmag_def)
qed

section \<open>Conversion and rounding\<close>

lemma round_even_int [simp]: "round_even (of_int i) = i"
  by (simp add: round_even_def)

lemma floorlog_between: "2 ^ k \<le> n \<Longrightarrow> n < 2 ^ Suc k \<Longrightarrow> floorlog 2 n = Suc k"
  using floorlog_leI [of n 2 "Suc k"] floorlog_geI [of 2 "Suc k" n] by (simp del: power_Suc)

lemma to_float_mag_fmag:
  assumes "n \<le> nat FLT_INF"
  shows "to_float_mag (fmag n) = int n"
proof -
  define q f where "q = n div 2 ^ 23" and "f = n mod 2 ^ 23"
  have n: "n = q * 2 ^ 23 + f" "f < 2 ^ 23" by (simp_all add: q_def f_def)
  show ?thesis
  proof (cases q)
    case 0
    have "fmag n = of_nat f / 2 ^ 149" unfolding fmag_def q_def [symmetric] f_def [symmetric] by (simp add: 0)
    moreover from this have "\<lfloor>fmag n * 2 ^ 126\<rfloor> = 0" using n(2)
      by (simp add: floor_eq_iff field_simps)
    ultimately show ?thesis using n assms 0 round_even_int [of "int f", where 'a = rat]
      by (simp add: to_float_mag_def floorlog_def)
  next
    case (Suc k)
    have v: "fmag n = of_nat (2 ^ 23 + f) * 2 ^ k / 2 ^ 149"
      unfolding fmag_def q_def [symmetric] f_def [symmetric] by (simp add: Suc)
    have w: "fmag n * 2 ^ 126 = (2 ^ 23 + of_nat f) / 2 ^ 23 * 2 ^ k" by (simp add: v)
    have "(2::rat) ^ k \<le> (2 ^ 23 + of_nat f) / 2 ^ 23 * 2 ^ k" "(2 ^ 23 + of_nat f) / 2 ^ 23 * 2 ^ k < (2::rat) ^ Suc k"
      using n(2) by (simp_all add: field_simps)
    then have b: "of_nat (2 ^ k) \<le> fmag n * 2 ^ 126" "fmag n * 2 ^ 126 < of_nat (2 ^ Suc k)"
      unfolding w by (simp_all del: power_Suc)
    have "2 ^ k \<le> nat \<lfloor>fmag n * 2 ^ 126\<rfloor>" using b(1) by linarith
    moreover have "nat \<lfloor>fmag n * 2 ^ 126\<rfloor> < 2 ^ Suc k"
      using b(2) by (subst nat_less_iff) (simp_all add: floor_less_iff v)
    ultimately have "floorlog 2 (nat \<lfloor>fmag n * 2 ^ 126\<rfloor>) = Suc k" by (rule floorlog_between)
    moreover have "fmag n * 2 ^ 149 / 2 ^ k = of_int (2 ^ 23 + int f)" by (simp add: v)
    ultimately show ?thesis using n(1) assms Suc
      by (simp add: to_float_mag_def del: of_int_add)
  qed
qed

lemma to_float_fval:
  assumes "\<bar>n\<bar> \<le> FLT_INF"
  shows "to_float (fval n) = n"
proof -
  have "0 \<le> fmag m" for m by (induction m) (simp_all add: fmag_Suc order_less_imp_le [OF ulp_pos])
  moreover have "0 < fmag m" if "0 < m" for m
    using that calculation [of "m - 1"] ulp_pos [of "m - 1"] by (cases m) (simp_all add: fmag_Suc)
  ultimately show ?thesis
    using assms to_float_mag_fmag [of "nat n"] to_float_mag_fmag [of "nat (- n)"]
    by (cases n "0::int" rule: linorder_cases) (auto simp: to_float_def fval_def not_less leD)
qed

lemma round_away_near: "round_away v = \<lfloor>v\<rfloor> \<or> round_away v = \<lceil>v\<rceil>"
proof -
  have half: "\<lfloor>x + 1 / 2\<rfloor> = \<lfloor>x\<rfloor> \<or> \<lfloor>x + 1 / 2\<rfloor> = \<lceil>x\<rceil>" for x :: rat by linarith
  from half [of v] half [of "- v"] show ?thesis
    by (auto simp: round_away_def ceiling_def)
qed

text \<open>
  \<open>FloatFloor\<close> on a number within the range of \<open>int\<close> never leaves the range and gives the number
  itself if it is an integer, and otherwise one of the two integers around it; converting a float to
  \<open>double\<close> and back is the identity.
\<close>

theorem float_floor_near:
  assumes "- (2 ^ 31) \<le> v" "v \<le> 2 ^ 31 - 1"
  shows "(\<exists>i. FloatFloor v = Inr i \<and> (i = \<lfloor>v\<rfloor> \<or> i = \<lceil>v\<rceil> \<and> i = round_away v)) \<and>
    (\<bar>n\<bar> \<le> FLT_INF \<longrightarrow> to_float (fval n) = n)"
proof -
  have "\<exists>i. FloatFloor v = Inr i \<and> (i = \<lfloor>v\<rfloor> \<or> i = \<lceil>v\<rceil> \<and> i = round_away v)"
  proof -
    have r: "\<lceil>v\<rceil> < 2 ^ 31" "- (2 ^ 31) \<le> \<lfloor>v\<rfloor>" "\<lfloor>v\<rfloor> \<le> \<lceil>v\<rceil>"
      using assms by (simp_all add: ceiling_less_iff le_floor_iff floor_le_ceiling)
    with round_away_near [of v] show ?thesis
      by (auto simp: FloatFloor_def to_int32_def Let_def)
  qed
  with to_float_fval show ?thesis by blast
qed

theorem float_floor_near_witness: "FloatFloor 7 = Inr 7"
  using float_floor_near [of 7 0] by auto

section \<open>Comparison with zero\<close>

text \<open>The least number that the conversion rounds to a normal float.\<close>

definition tiny :: "'a::floor_ceiling" where
  "tiny = (2 ^ 23 - 1 / 2) / 2 ^ 149"

lemma tiny_pos: "0 < (tiny :: 'a::floor_ceiling)"
  by (simp add: tiny_def)

lemma round_even_nonneg: "0 \<le> q \<Longrightarrow> 0 \<le> round_even q"
  by (auto simp: round_even_def Let_def)

lemma round_even_less:
  fixes q :: "'a::floor_ceiling"
  assumes "q < of_int i - 1 / 2"
  shows "round_even q < i"
proof -
  have f: "of_int \<lfloor>q\<rfloor> \<le> q" by simp
  show ?thesis
  proof (cases "q - of_int \<lfloor>q\<rfloor> < 1 / 2")
    case True
    have "(of_int \<lfloor>q\<rfloor> :: 'a) < of_int i" using f assms by (smt (verit) divide_pos_pos less_diff_eq add_less_cancel_left order.strict_trans1 less_add_same_cancel1 zero_less_numeral zero_less_one order_less_trans)
    with True show ?thesis by (simp add: round_even_def Let_def)
  next
    case False
    then have "of_int \<lfloor>q\<rfloor> + 1 / 2 \<le> q" by (simp add: not_less le_diff_eq add.commute)
    then have "of_int \<lfloor>q\<rfloor> + 1 / 2 + 1 / 2 < (of_int i :: 'a)" using assms by (simp add: less_diff_eq order.strict_trans1)
    then have "(of_int (\<lfloor>q\<rfloor> + 1) :: 'a) < of_int i" by simp
    then show ?thesis by (simp only: of_int_less_iff) (simp add: round_even_def Let_def)
  qed
qed

lemma round_even_geq:
  fixes q :: "'a::floor_ceiling"
  assumes "of_int i - 1 / 2 \<le> q" and "even i"
  shows "i \<le> round_even q"
proof (cases "of_int i \<le> q")
  case True
  then have "i \<le> \<lfloor>q\<rfloor>" by (simp add: le_floor_iff)
  then show ?thesis by (auto simp: round_even_def Let_def)
next
  case False
  then have f: "\<lfloor>q\<rfloor> = i - 1" using assms(1) by (simp add: floor_eq_iff)
  show ?thesis using assms by (simp add: round_even_def Let_def f)
qed

lemma to_float_mag_normal:
  fixes a :: "'a::floor_ceiling"
  assumes "0 \<le> a"
  shows "to_float_mag a < FLT_MIN \<longleftrightarrow> a < tiny"
proof (cases "a * 2 ^ 126 < 2")
  case True
  have "nat \<lfloor>x\<rfloor> < 2" if "x < 2" for x :: 'a
  proof -
    have "\<lfloor>x\<rfloor> < 2" using that by (simp add: floor_less_iff)
    then show ?thesis by linarith
  qed
  from this [OF True] have "floorlog 2 (nat \<lfloor>a * 2 ^ 126\<rfloor>) \<le> 1" using floorlog_leI [of _ 2 1] by simp
  then have m: "to_float_mag a = min FLT_INF (round_even (a * 2 ^ 149))" by (simp add: to_float_mag_def)
  have "a < tiny \<longleftrightarrow> a * 2 ^ 149 < of_int FLT_MIN - 1 / 2"
    unfolding tiny_def by (subst pos_less_divide_eq) simp_all
  then show ?thesis
    using round_even_less [of "a * 2 ^ 149" FLT_MIN] round_even_geq [of FLT_MIN "a * 2 ^ 149"]
    unfolding m by (cases "a < tiny") (simp_all add: min_less_iff_disj not_less)
next
  case False
  then have "2 ^ 1 \<le> nat \<lfloor>a * 2 ^ 126\<rfloor>" by (simp add: le_floor_iff le_nat_iff not_less)
  then have "2 \<le> floorlog 2 (nat \<lfloor>a * 2 ^ 126\<rfloor>)" by (intro floorlog_geI) simp_all
  then have "1 \<le> floorlog 2 (nat \<lfloor>a * 2 ^ 126\<rfloor>) - 1" by linarith
  moreover have "0 \<le> round_even (a * 2 ^ 149 / 2 ^ (floorlog 2 (nat \<lfloor>a * 2 ^ 126\<rfloor>) - 1))"
    using assms by (intro round_even_nonneg) simp
  ultimately have "FLT_MIN \<le> to_float_mag a" by (auto simp: to_float_mag_def Let_def)
  moreover have "tiny \<le> a" using False by (simp add: tiny_def not_less field_simps)
  ultimately show ?thesis by linarith
qed

lemma FloatEq_zero: "FloatEq (to_float c) 0 \<longleftrightarrow> \<bar>c\<bar> < tiny" for c :: "'a::floor_ceiling"
proof -
  define m where "m = to_float_mag \<bar>c\<bar>"
  have m: "m < FLT_MIN \<longleftrightarrow> \<bar>c\<bar> < tiny" unfolding m_def by (rule to_float_mag_normal) simp
  have n: "to_float c = m \<or> to_float c = - m" by (auto simp: m_def to_float_def)
  have pos: "0 \<le> m" by (auto simp: m_def to_float_mag_def Let_def intro!: add_nonneg_nonneg round_even_nonneg)
  have k: "kFloatMin = - kFloatMax" "kFloatMax = 0x7F7FFFFE" by (simp_all add: kFloatMin_def kFloatMax_def nexttoward_def)
  have zero: "fval 0 = 0" by (simp add: fval_def)
  have "FloatEq x 0 \<longleftrightarrow> m < FLT_MIN" if x: "x = m \<or> x = - m" for x
  proof (cases "m < kFloatMax")
    case True
    then have lim: "\<bar>x\<bar> < kFloatMax" "\<bar>0\<bar> < kFloatMax" using x pos k by auto
    have v: "\<bar>fval x\<bar> = fval m" using x pos fval_le [of 0 m] by (auto simp: fval_minus zero)
    show ?thesis
    proof (cases "m < FLT_MIN")
      case True
      then show ?thesis using v by (simp add: FloatEq_finite [OF lim] zero less_max_iff_disj)
    next
      case False
      then have "2 * spacing (m - 1) \<le> fval m" "2 * spacing (- m) \<le> fval m" "fval FLT_MIN \<le> fval m"
        using fval_three(2) [of 0 m] fval_three(1) [of "- m" 0] by (simp_all add: zero fval_minus)
      then show ?thesis using False v x pos
        by (auto simp: FloatEq_finite [OF lim] zero less_max_iff_disj not_less)
    qed
  next
    case False
    then show ?thesis using x k by (auto simp: FloatEq_within_def)
  qed
  with n m show ?thesis by metis
qed

end
