(* ===== verification/Polynomials.thy ===== *)
theory Polynomials
  imports Complex_Main Float_Utils
begin

text \<open>
  \<open>class Polynomial\<close> (\<open>src/a17/maths/polynomial.h\<close>) and \<open>QuadraticRealRoots\<close> (\<open>polynomial_utils.h\<close>). A
  \<open>double\<close> is a real number with exact arithmetic, an \<open>Eigen::VectorXd\<close> a list; access outside a
  vector is an error. The root finder of \<open>mav_trajectory_generation\<close> and the printing of a \<open>double\<close> are
  parameters.
\<close>

section \<open>Definitions\<close>

definition FloatEq0 :: "real \<Rightarrow> bool" where
  "FloatEq0 c \<longleftrightarrow> FloatEq (to_float c) 0"

fun reduced_order :: "real list \<Rightarrow> nat \<Rightarrow> nat" where
  "reduced_order coefficients 0 = 0"
| "reduced_order coefficients (Suc k) =
     (if \<not> FloatEq0 (coefficients ! Suc k) then Suc k else reduced_order coefficients k)"

definition Polynomial_default :: "real list" where
  "Polynomial_default = []"

definition setCoefficients :: "real list \<Rightarrow> real list result" where
  "setCoefficients coefficients =
     (if coefficients = [] then Inl Out_Of_Bounds
      else Inr (take (reduced_order coefficients (length coefficients - 1) + 1) coefficients))"

fun horner :: "real \<Rightarrow> real \<Rightarrow> real list \<Rightarrow> real" where
  "horner t v [] = v"
| "horner t v (c # cs) = horner t (v * t + c) cs"

definition polynomial_at :: "real list \<Rightarrow> real \<Rightarrow> real result" where
  "polynomial_at coefficients t =
     (if coefficients = [] then Inl Out_Of_Bounds
      else Inr (horner t (last coefficients) (rev (butlast coefficients))))"

text \<open>The product of \<open>k\<close>, \<open>k - 1\<close> and so on, \<open>order\<close> factors.\<close>

fun derivative_coefficient :: "nat \<Rightarrow> nat \<Rightarrow> real" where
  "derivative_coefficient k 0 = 1"
| "derivative_coefficient k (Suc order) = of_nat k * derivative_coefficient (k - 1) order"

definition derivative :: "int \<Rightarrow> real list \<Rightarrow> real list result" where
  "derivative order coefficients =
     (if order < 0 then Inl (Runtime_Error ''Derivative order must be positive'')
      else if order = 0 then setCoefficients coefficients
      else if int (length coefficients) - order \<le> 0 then setCoefficients [0]
      else setCoefficients (map (\<lambda>i. coefficients ! i * derivative_coefficient i (nat order))
             [nat order..<length coefficients]))"

definition derivative_at :: "int \<Rightarrow> real list \<Rightarrow> real \<Rightarrow> real result" where
  "derivative_at order coefficients t = and_then (derivative order coefficients) (\<lambda>d. polynomial_at d t)"

definition QuadraticRealRoots :: "real \<Rightarrow> real \<Rightarrow> real \<Rightarrow> real list" where
  "QuadraticRealRoots a b c =
     (let discriminant = b * b - 4 * a * c in
      if discriminant = 0 then [- b / (2 * a)]
      else if discriminant > 0 then
        (let droot = sqrt discriminant in [(- b + droot) / (2 * a), (- b - droot) / (2 * a)])
      else [])"

definition levelSet :: "(real list \<Rightarrow> complex list option) \<Rightarrow> real \<Rightarrow> real list \<Rightarrow> real list" where
  "levelSet findRootsJenkinsTraub level coefficients =
     (if length coefficients < 2 then []
      else (let level_poly = coefficients[0 := coefficients ! 0 - level] in
        if length coefficients = 2 then [- (level_poly ! 0) / level_poly ! 1]
        else if length coefficients = 3 then QuadraticRealRoots (level_poly ! 2) (level_poly ! 1) (level_poly ! 0)
        else (case findRootsJenkinsTraub level_poly of
                None \<Rightarrow> []
              | Some roots \<Rightarrow> map Re (filter (\<lambda>z. FloatEq0 (Im z)) roots))))"

text \<open>The entries of the matrix of \<open>reverse\<close>, row by row from the left.\<close>

fun conversion_matrix :: "real \<Rightarrow> nat \<Rightarrow> nat \<Rightarrow> real" where
  "conversion_matrix c 0 0 = 1"
| "conversion_matrix c 0 (Suc col) = c * conversion_matrix c 0 col"
| "conversion_matrix c (Suc row) 0 = 0"
| "conversion_matrix c (Suc row) (Suc col) =
     (if Suc row \<le> Suc col then c * conversion_matrix c (Suc row) col - conversion_matrix c row col else 0)"

definition reverse_poly :: "real \<Rightarrow> real \<Rightarrow> real list \<Rightarrow> real list result" where
  "reverse_poly t0 t1 coefficients =
     setCoefficients (map (\<lambda>row. \<Sum>col < length coefficients.
        conversion_matrix (t0 + t1) row col * coefficients ! col) [0..<length coefficients])"

fun terms :: "(real \<Rightarrow> string) \<Rightarrow> nat \<Rightarrow> real list \<Rightarrow> string" where
  "terms show_double k [] = []"
| "terms show_double k (c # cs) =
     show_double c @ ''t^'' @ to_string k @ (if cs \<noteq> [] then '' + '' else []) @ terms show_double (Suc k) cs"

definition toString :: "(real \<Rightarrow> string) \<Rightarrow> real list \<Rightarrow> string" where
  "toString show_double coefficients = terms show_double 0 coefficients"

section \<open>The function a polynomial stands for\<close>

definition pval :: "real list \<Rightarrow> real \<Rightarrow> real" where
  "pval cs t = (\<Sum>i < length cs. cs ! i * t ^ i)"

definition poly_ok :: "real list \<Rightarrow> bool" where
  "poly_ok cs \<longleftrightarrow> cs \<noteq> [] \<and> (length cs = 1 \<or> \<not> FloatEq0 (last cs))"

lemma FloatEq0_tiny: "FloatEq0 c \<longleftrightarrow> \<bar>c\<bar> < tiny"
  unfolding FloatEq0_def by (rule FloatEq_zero)

lemma horner_sum: "horner t v (rev cs) = v * t ^ length cs + pval cs t"
proof (induction cs arbitrary: v rule: rev_induct)
  case (snoc c cs)
  then show ?case by (simp add: pval_def nth_append algebra_simps)
qed (simp add: pval_def)

lemma pval_snoc: "pval (cs @ [c]) t = pval cs t + c * t ^ length cs"
  by (simp add: pval_def nth_append)

lemma polynomial_at_pval: "cs \<noteq> [] \<Longrightarrow> polynomial_at cs t = Inr (pval cs t)"
  using pval_snoc [of "butlast cs" "last cs" t] by (simp add: polynomial_at_def horner_sum)

lemma reduced_order_bound: "reduced_order cs k \<le> k"
  by (induction k) auto

lemma reduced_order_dropped: "reduced_order cs k < i \<Longrightarrow> i \<le> k \<Longrightarrow> FloatEq0 (cs ! i)"
  by (induction k) (auto split: if_splits simp: le_Suc_eq)

lemma reduced_order_kept: "reduced_order cs k \<noteq> 0 \<Longrightarrow> \<not> FloatEq0 (cs ! reduced_order cs k)"
  by (induction k) (auto split: if_splits)

lemma setCoefficients_ok:
  assumes "setCoefficients cs = Inr ds"
  shows "poly_ok ds" and "\<exists>es. cs = ds @ es \<and> (\<forall>e \<in> set es. \<bar>e\<bar> < tiny)"
proof -
  let ?n = "reduced_order cs (length cs - 1)"
  have cs: "cs \<noteq> []" and ds: "ds = take (?n + 1) cs" using assms by (auto simp: setCoefficients_def split: if_splits)
  have n: "?n < length cs" using reduced_order_bound [of cs "length cs - 1"] cs by (cases cs) auto
  then have "last ds = cs ! ?n" by (simp add: ds take_Suc_conv_app_nth)
  then show "poly_ok ds" using reduced_order_kept [of cs "length cs - 1"] n cs by (auto simp: poly_ok_def ds)
  have "\<bar>e\<bar> < tiny" if "e \<in> set (drop (?n + 1) cs)" for e
    using that reduced_order_dropped [of cs "length cs - 1"] unfolding FloatEq0_tiny [symmetric]
    by (auto simp: in_set_conv_nth)
  then show "\<exists>es. cs = ds @ es \<and> (\<forall>e \<in> set es. \<bar>e\<bar> < tiny)"
    unfolding ds by (intro exI [of _ "drop (?n + 1) cs"]) simp
qed

lemma setCoefficients_id:
  assumes "poly_ok cs"
  shows "setCoefficients cs = Inr cs"
proof -
  have "reduced_order cs (length cs - 1) = length cs - 1"
    using assms by (cases "length cs - 1") (auto simp: poly_ok_def last_conv_nth)
  with assms show ?thesis by (simp add: setCoefficients_def poly_ok_def)
qed

section \<open>Derivatives\<close>

definition diff_coeffs :: "nat \<Rightarrow> real list \<Rightarrow> real list" where
  "diff_coeffs n cs = map (\<lambda>i. cs ! i * derivative_coefficient i n) [n..<length cs]"

lemma diff_coeffs_simps [simp]:
  "length (diff_coeffs n cs) = length cs - n"
  "i < length cs - n \<Longrightarrow> diff_coeffs n cs ! i = cs ! (n + i) * derivative_coefficient (n + i) n"
  "diff_coeffs n cs = [] \<longleftrightarrow> length cs \<le> n"
  by (auto simp: diff_coeffs_def)

lemma derivative_coefficient_Suc:
  "n \<le> k \<Longrightarrow> derivative_coefficient k (Suc n) = derivative_coefficient k n * of_nat (k - n)"
proof (induction n arbitrary: k)
  case (Suc n)
  then show ?case using Suc.IH [of "k - 1"] by simp
qed simp

lemma derivative_coefficient_ge_1: "n \<le> k \<Longrightarrow> 1 \<le> derivative_coefficient k n"
proof (induction n)
  case (Suc n)
  then have "1 \<le> derivative_coefficient k n" "(1::real) \<le> of_nat (k - n)" by simp_all
  with Suc.prems show ?case
    using mult_mono [of 1 "derivative_coefficient k n" 1 "of_nat (k - n)"]
    by (simp add: derivative_coefficient_Suc del: derivative_coefficient.simps)
qed simp

lemma derivative_ok:
  assumes "poly_ok cs"
  shows "derivative (int n) cs = Inr (if n < length cs then diff_coeffs n cs else [0])"
proof (cases "n < length cs")
  case True
  have last: "last (diff_coeffs n cs) = last cs * derivative_coefficient (length cs - 1) n"
    using True assms by (simp add: diff_coeffs_def last_map last_conv_nth [of cs] poly_ok_def)
  have "\<bar>last cs\<bar> * 1 \<le> \<bar>last cs\<bar> * derivative_coefficient (length cs - 1) n"
    using True by (intro mult_left_mono derivative_coefficient_ge_1) auto
  also have "\<dots> = \<bar>last (diff_coeffs n cs)\<bar>"
    using order_trans [OF zero_le_one derivative_coefficient_ge_1, of n "length cs - 1"] True
    by (simp add: last abs_mult)
  finally have "poly_ok (diff_coeffs n cs)"
    using assms True by (auto simp: poly_ok_def FloatEq0_tiny diff_coeffs_def)
  moreover have "diff_coeffs 0 cs = cs" by (simp add: diff_coeffs_def map_nth)
  ultimately show ?thesis
    using True setCoefficients_id by (cases "n = 0") (simp_all add: derivative_def diff_coeffs_def [symmetric])
next
  case False
  have "setCoefficients [0] = Inr [0]" by (rule setCoefficients_id) (simp add: poly_ok_def)
  with False assms show ?thesis by (auto simp: derivative_def poly_ok_def)
qed

lemma pval_has_derivative:
  "(pval cs has_field_derivative (\<Sum>i < length cs. cs ! i * (of_nat i * t ^ (i - 1)))) (at t)"
  unfolding pval_def by (auto intro!: derivative_eq_intros simp: mult_ac)

lemma diff_coeffs_derivative:
  assumes "n < length cs"
  shows "(pval (diff_coeffs n cs) has_field_derivative pval (diff_coeffs (Suc n) cs) t) (at t)"
proof -
  obtain m where m: "length cs - n = Suc m" using assms by (metis Suc_diff_Suc)
  have "(\<Sum>i < length (diff_coeffs n cs). diff_coeffs n cs ! i * (of_nat i * t ^ (i - 1))) =
      (\<Sum>i < Suc m. cs ! (n + i) * derivative_coefficient (n + i) n * (of_nat i * t ^ (i - 1)))"
    by (intro sum.cong) (simp_all add: m)
  also have "\<dots> = (\<Sum>i < m. cs ! (Suc n + i) * derivative_coefficient (Suc n + i) (Suc n) * t ^ i)"
    unfolding sum.lessThan_Suc_shift
    by (simp add: derivative_coefficient_Suc mult.assoc del: derivative_coefficient.simps)
  also have "\<dots> = pval (diff_coeffs (Suc n) cs) t"
    using m unfolding pval_def by (intro sum.cong) simp_all
  finally show ?thesis using pval_has_derivative [of "diff_coeffs n cs" t] by simp
qed

text \<open>
  C39: Derivatives of polynomials. A polynomial made from any vector evaluates to the sum of its
  powers, up to highest coefficients below the resolution of a \<open>float\<close>; the derivative of order zero
  is the polynomial, and the one of order n + 1 is the derivative, in the sense of calculus, of the
  one of order n, also beyond the degree. A negative order is an error.
\<close>

theorem polynomial_derivatives:
  assumes "setCoefficients coefficients = Inr cs"
  shows "(\<exists>es. coefficients = cs @ es \<and> (\<forall>e \<in> set es. \<bar>e\<bar> < tiny)) \<and>
    polynomial_at cs t = Inr (\<Sum>i < length cs. cs ! i * t ^ i) \<and>
    derivative_at 0 cs t = polynomial_at cs t \<and>
    (\<exists>f f'. (\<forall>x. derivative_at (int n) cs x = Inr (f x) \<and> derivative_at (int n + 1) cs x = Inr (f' x) \<and>
      (f has_field_derivative f' x) (at x))) \<and>
    (\<exists>msg. derivative_at (- 1 - int n) cs t = Inl (Runtime_Error msg))"
proof -
  note ok = setCoefficients_ok [OF assms]
  have ne: "cs \<noteq> []" using ok(1) by (simp add: poly_ok_def)
  let ?d = "\<lambda>n. if n < length cs then diff_coeffs n cs else [0]"
  have at: "derivative_at (int n) cs x = Inr (pval (?d n) x)" for n x
    using derivative_ok [OF ok(1), of n] polynomial_at_pval [of "?d n" x]
    by (auto simp: derivative_at_def)
  have zero: "pval [0] = (\<lambda>x. 0)" "pval [] = (\<lambda>x. 0)" by (simp_all add: pval_def fun_eq_iff)
  have "(pval (?d n) has_field_derivative pval (?d (Suc n)) x) (at x)" for x
  proof (cases "n < length cs")
    case True
    have "pval (diff_coeffs (Suc n) cs) = pval (?d (Suc n))"
      using True by (auto simp: zero diff_coeffs_def)
    with diff_coeffs_derivative [OF True, of x] True show ?thesis by simp
  qed (simp add: zero)
  moreover have "derivative_at (int n + 1) cs x = Inr (pval (?d (Suc n)) x)" for x
    using at [of "Suc n" x] by (simp add: add.commute)
  moreover have "derivative_at 0 cs t = polynomial_at cs t"
    using setCoefficients_id [OF ok(1)] by (simp add: derivative_at_def derivative_def)
  moreover have "\<exists>msg. derivative_at (- 1 - int n) cs t = Inl (Runtime_Error msg)"
    by (simp add: derivative_at_def derivative_def)
  moreover have "polynomial_at cs t = Inr (\<Sum>i < length cs. cs ! i * t ^ i)"
    using polynomial_at_pval [OF ne, of t] by (simp add: pval_def)
  ultimately show ?thesis using ok(2) at [of n] by blast
qed

theorem polynomial_derivatives_witness:
  "\<exists>f f'. \<forall>x. derivative_at 1 [1, 2, 3] x = Inr (f x) \<and> derivative_at 2 [1, 2, 3] x = Inr (f' x) \<and>
     (f has_field_derivative f' x) (at x)"
proof -
  have "tiny \<le> (3 :: real)" by (simp add: tiny_def)
  then have "setCoefficients [1, 2, 3] = Inr [1, 2, 3]"
    by (intro setCoefficients_id) (simp add: poly_ok_def FloatEq0_tiny)
  from polynomial_derivatives [OF this, of 0 1] show ?thesis by simp
qed

section \<open>Reversal\<close>

lemma conversion_matrix_binomial:
  "conversion_matrix c row col = (- 1) ^ row * of_nat (col choose row) * c ^ (col - row)"
proof (induction c row col rule: conversion_matrix.induct)
  case (4 c row col)
  show ?case
  proof (cases "Suc row \<le> col")
    case True
    then have "c ^ (col - row) = c * c ^ (col - Suc row)" by (metis Suc_diff_le diff_Suc_Suc power_Suc)
    with 4 True show ?thesis by (simp add: algebra_simps)
  next
    case False
    with 4 show ?thesis by (cases "row = col") (simp_all add: binomial_eq_0)
  qed
qed simp_all

lemma reversed_power: "(\<Sum>row \<le> col. conversion_matrix c row col * t ^ row) = (c - t) ^ col"
proof -
  have "(c - t) ^ col = (\<Sum>k \<le> col. of_nat (col choose k) * (- t) ^ k * c ^ (col - k))"
    using binomial_ring [of "- t" c col] by simp
  also have "\<dots> = (\<Sum>row \<le> col. conversion_matrix c row col * t ^ row)"
    by (intro sum.cong) (simp_all add: conversion_matrix_binomial power_minus [of t] mult_ac)
  finally show ?thesis by simp
qed

definition reversed :: "real \<Rightarrow> real list \<Rightarrow> real list" where
  "reversed c cs = map (\<lambda>row. \<Sum>col < length cs. conversion_matrix c row col * cs ! col) [0..<length cs]"

lemma length_reversed [simp]: "length (reversed c cs) = length cs"
  by (simp add: reversed_def)

lemma reversed_value: "pval (reversed c cs) t = pval cs (c - t)"
proof -
  have "pval (reversed c cs) t =
      (\<Sum>row < length cs. \<Sum>col < length cs. conversion_matrix c row col * cs ! col * t ^ row)"
    by (simp add: pval_def reversed_def sum_distrib_right)
  also have "\<dots> = (\<Sum>col < length cs. cs ! col * (\<Sum>row < length cs. conversion_matrix c row col * t ^ row))"
    by (subst sum.swap) (simp add: sum_distrib_left mult_ac)
  also have "\<dots> = (\<Sum>col < length cs. cs ! col * (c - t) ^ col)"
  proof (intro sum.cong refl)
    fix col assume "col \<in> {..<length cs}"
    then have "(\<Sum>row < length cs. conversion_matrix c row col * t ^ row) = (\<Sum>row \<le> col. conversion_matrix c row col * t ^ row)"
      by (intro sum.mono_neutral_right) (auto simp: conversion_matrix_binomial binomial_eq_0)
    then show "cs ! col * (\<Sum>row < length cs. conversion_matrix c row col * t ^ row) = cs ! col * (c - t) ^ col"
      by (simp add: reversed_power)
  qed
  finally show ?thesis by (simp add: pval_def)
qed

lemma reversed_ok:
  assumes "poly_ok cs"
  shows "poly_ok (reversed c cs)"
proof -
  obtain n where n: "length cs = Suc n" using assms by (cases cs) (auto simp: poly_ok_def)
  have "last (reversed c cs) = (\<Sum>col < Suc n. conversion_matrix c n col * cs ! col)"
    by (simp add: reversed_def n)
  also have "\<dots> = (- 1) ^ n * last cs"
    using n by (simp add: conversion_matrix_binomial binomial_eq_0 last_conv_nth [of cs] flip: length_greater_0_conv)
  finally have "\<bar>last (reversed c cs)\<bar> = \<bar>last cs\<bar>" by (simp add: abs_mult)
  with assms n show ?thesis by (auto simp: poly_ok_def FloatEq0_tiny reversed_def)
qed

lemma reverse_poly_reversed: "poly_ok cs \<Longrightarrow> reverse_poly t0 t1 cs = Inr (reversed (t0 + t1) cs)"
  using setCoefficients_id [OF reversed_ok] by (simp add: reverse_poly_def reversed_def)

lemma poly_ok_at: "poly_ok cs \<Longrightarrow> polynomial_at cs t = Inr (pval cs t)"
  by (simp add: poly_ok_def polynomial_at_pval)

text \<open>
  Reversal. Reversing a polynomial over an interval gives the polynomial whose value at t is that
  of the original at t0 + t1 - t, with the same number of coefficients; reversing it again gives
  the original values.
\<close>

theorem reverse_reverses:
  assumes "setCoefficients coefficients = Inr cs"
  shows "\<exists>ds. reverse_poly t0 t1 cs = Inr ds \<and> length ds = length cs \<and>
    (\<forall>t. polynomial_at ds t = polynomial_at cs (t0 + t1 - t)) \<and>
    (\<exists>es. reverse_poly t0 t1 ds = Inr es \<and> (\<forall>t. polynomial_at es t = polynomial_at cs t))"
  using setCoefficients_ok(1) [OF assms] reversed_ok reversed_ok [OF reversed_ok]
  by (auto simp: reverse_poly_reversed poly_ok_at reversed_value)

theorem reverse_reverses_witness:
  "\<exists>ds. reverse_poly 0 1 [1, 2] = Inr ds \<and> polynomial_at ds 0 = polynomial_at [1, 2] 1"
proof -
  have "tiny \<le> (2 :: real)" by (simp add: tiny_def)
  then have "setCoefficients [1, 2] = Inr [1, 2]"
    by (intro setCoefficients_id) (simp add: poly_ok_def FloatEq0_tiny)
  from reverse_reverses [OF this, of 0 1] show ?thesis by auto
qed

section \<open>Level sets\<close>

lemma QuadraticRealRoots_solve:
  assumes "a \<noteq> 0"
  shows "set (QuadraticRealRoots a b c) = {t. c + b * t + a * t\<^sup>2 = 0}"
proof -
  define D where "D = b * b - 4 * a * c"
  have eq: "c + b * t + a * t\<^sup>2 = 0 \<longleftrightarrow> (2 * a * t + b)\<^sup>2 = D" for t
  proof -
    have "4 * a * (c + b * t + a * t\<^sup>2) = (2 * a * t + b)\<^sup>2 - D"
      by (simp add: D_def power2_eq_square algebra_simps)
    moreover have "c + b * t + a * t\<^sup>2 = 0 \<longleftrightarrow> 4 * a * (c + b * t + a * t\<^sup>2) = 0" using assms by simp
    ultimately show ?thesis by (simp only: right_minus_eq)
  qed
  have lin: "2 * a * t + b = r \<longleftrightarrow> t = (- b + r) / (2 * a)" for t r using assms by (auto simp: field_simps)
  consider "D = 0" | "D > 0" | "D < 0" by linarith
  then show ?thesis
  proof cases
    case 1
    then show ?thesis using lin [of _ 0] by (auto simp: eq QuadraticRealRoots_def D_def [symmetric])
  next
    case 2
    have "(2 * a * t + b)\<^sup>2 = D \<longleftrightarrow> 2 * a * t + b = sqrt D \<or> 2 * a * t + b = - sqrt D" for t
      using 2 power2_eq_iff [of "2 * a * t + b" "sqrt D"] by simp
    then show ?thesis using 2 unfolding eq lin
      by (auto simp: QuadraticRealRoots_def D_def [symmetric] Let_def)
  next
    case 3
    then have "(2 * a * t + b)\<^sup>2 \<noteq> D" for t using zero_le_power2 [of "2 * a * t + b"] by linarith
    then show ?thesis using 3 by (auto simp: eq QuadraticRealRoots_def D_def [symmetric])
  qed
qed

lemma pval_level:
  "cs \<noteq> [] \<Longrightarrow> pval (cs[0 := cs ! 0 - level]) t = pval cs t - level"
  by (cases cs) (simp_all add: pval_def sum.lessThan_Suc_shift del: sum.lessThan_Suc)

definition complex_roots :: "real list \<Rightarrow> complex set" where
  "complex_roots q = {z. (\<Sum>i < length q. of_real (q ! i) * z ^ i) = 0}"

lemma real_root_complex: "of_real t \<in> complex_roots q \<longleftrightarrow> pval q t = 0"
proof -
  have "(\<Sum>i < length q. of_real (q ! i) * (of_real t :: complex) ^ i) = of_real (pval q t)"
    by (simp add: pval_def)
  then show ?thesis unfolding complex_roots_def by (simp only: mem_Collect_eq of_real_eq_0_iff)
qed

text \<open>
  C40: Level sets. For a polynomial of degree one or two \<open>levelSet\<close> gives exactly the points where the
  polynomial has the level. For a higher degree, if the root finder returns the complex roots, it
  gives all of these points, and otherwise only real parts of roots whose imaginary part is below
  the resolution of a \<open>float\<close>.
\<close>

theorem level_set_solves:
  assumes "setCoefficients coefficients = Inr cs" and "1 < length cs"
    and "3 < length cs \<Longrightarrow> \<exists>rs. roots_of (cs[0 := cs ! 0 - level]) = Some rs \<and> set rs = complex_roots (cs[0 := cs ! 0 - level])"
  shows "{t. polynomial_at cs t = Inr level} \<subseteq> set (levelSet roots_of level cs) \<and>
    (length cs \<le> 3 \<longrightarrow> set (levelSet roots_of level cs) \<subseteq> {t. polynomial_at cs t = Inr level}) \<and>
    (\<forall>x \<in> set (levelSet roots_of level cs). \<exists>y. \<bar>y\<bar> < tiny \<and> Complex x y \<in> complex_roots (cs[0 := cs ! 0 - level]))"
proof -
  let ?q = "cs[0 := cs ! 0 - level]" and ?L = "set (levelSet roots_of level cs)"
  have ok: "poly_ok cs" using setCoefficients_ok(1) [OF assms(1)] .
  then have "cs \<noteq> []" and lead: "last cs \<noteq> 0" using tiny_pos [where 'a = real] assms(2)
    by (auto simp: poly_ok_def FloatEq0_tiny)
  have at: "polynomial_at cs t = Inr level \<longleftrightarrow> pval ?q t = 0" for t
    using pval_level [OF \<open>cs \<noteq> []\<close>] by (simp add: poly_ok_at [OF ok])
  have real: "Complex x 0 \<in> complex_roots ?q \<longleftrightarrow> pval ?q x = 0" for x
    using real_root_complex [of x ?q] by (simp add: complex_of_real_def)
  show ?thesis
  proof (cases "length cs \<le> 3")
    case True
    have "?L = {t. pval ?q t = 0}"
    proof (cases "length cs = 2")
      case 2: True
      then obtain c0 c1 where "cs = [c0, c1]" by (auto simp: length_Suc_conv numeral_2_eq_2)
      with lead show ?thesis by (auto simp: levelSet_def pval_def field_simps eval_nat_numeral)
    next
      case False
      then have "length cs = 3" using True assms(2) by linarith
      then obtain c0 c1 c2 where "cs = [c0, c1, c2]" by (auto simp: length_Suc_conv numeral_3_eq_3)
      with lead show ?thesis
        by (simp add: levelSet_def QuadraticRealRoots_solve pval_def eval_nat_numeral algebra_simps)
    qed
    with True tiny_pos [where 'a = real] show ?thesis by (auto simp: at real intro!: exI [of _ "0 :: real"])
  next
    case False
    then obtain rs where rs: "roots_of ?q = Some rs" "set rs = complex_roots ?q" using assms(3) by auto
    have L: "?L = Re ` {z \<in> complex_roots ?q. \<bar>Im z\<bar> < tiny}"
      using False by (auto simp: levelSet_def rs(1) FloatEq0_tiny simp flip: rs(2))
    have "t \<in> ?L" if "pval ?q t = 0" for t
      unfolding L using that real [of t] tiny_pos [where 'a = real] by (intro image_eqI [of _ _ "Complex t 0"]) auto
    moreover have "\<exists>y. \<bar>y\<bar> < tiny \<and> Complex x y \<in> complex_roots ?q" if "x \<in> ?L" for x
      using that unfolding L by (metis (no_types, lifting) complex_surj image_iff mem_Collect_eq)
    ultimately show ?thesis using False by (auto simp: at)
  qed
qed

theorem level_set_solves_witness:
  "{t. polynomial_at [0, 0, 0, 1] t = Inr 0} \<subseteq> set (levelSet (\<lambda>q. Some [0, 0, 0]) 0 [0, 0, 0, 1])"
proof -
  have "tiny \<le> (1 :: real)" by (simp add: tiny_def)
  then have "setCoefficients [0, 0, 0, 1] = Inr [0, 0, 0, 1]"
    by (intro setCoefficients_id) (simp add: poly_ok_def FloatEq0_tiny)
  moreover have "complex_roots [0, 0, 0, 1] = {0}" by (auto simp: complex_roots_def eval_nat_numeral)
  ultimately show ?thesis
    using level_set_solves [of "[0, 0, 0, 1]" "[0, 0, 0, 1]" "\<lambda>q. Some [0, 0, 0]" 0] by simp
qed

end
