(* ===== verification/Log_Level.thy ===== *)
theory Log_Level
  imports C_Strings
begin

text \<open>
  \<open>SpdlogLevelFromString\<close> (\<open>src/a17/utils/spdlog.cpp\<close>). A level is its number, from \<open>trace\<close>, which is 0, to \<open>off\<close>, which is 6. The
  names of the levels and, for spdlog 1.x, the function \<open>from_str\<close> are the logging library's and arguments.
\<close>

section \<open>Definitions\<close>

definition tolower :: "char \<Rightarrow> char" where
  "tolower c = (if 65 \<le> code_of c \<and> code_of c \<le> 90 then char_of (code_of c + 32) else c)"

text \<open>Whether \<open>strncasecmp\<close> returns 0, and \<open>strcasecmp\<close>; a string ends with its first zero.\<close>

fun strncaseeq :: "nat \<Rightarrow> string \<Rightarrow> string \<Rightarrow> bool" where
  "strncaseeq 0 a b \<longleftrightarrow> True"
| "strncaseeq (Suc n) [] b \<longleftrightarrow> b = [] \<or> hd b = NUL"
| "strncaseeq (Suc n) (c # a) [] \<longleftrightarrow> c = NUL"
| "strncaseeq (Suc n) (c # a) (d # b) \<longleftrightarrow> tolower c = tolower d \<and> (c = NUL \<or> strncaseeq n a b)"

definition strcaseeq :: "string \<Rightarrow> string \<Rightarrow> bool" where
  "strcaseeq a b \<longleftrightarrow> strncaseeq (Suc (max (length a) (length b))) a b"

definition level_off :: nat where
  "level_off = 6"

definition kNumSpdlogLevels :: nat where
  "kNumSpdlogLevels = 7"

text \<open>spdlog 1.x and later.\<close>

definition SpdlogLevelFromString_1 :: "(string \<Rightarrow> nat) \<Rightarrow> string \<Rightarrow> nat result" where
  "SpdlogLevelFromString_1 from_str s =
     (let level = from_str s
      in if level = level_off \<and> s \<noteq> ''off'' \<and> s \<noteq> ''O'' then Inl Invalid_Argument else Inr level)"

text \<open>spdlog 0.x: the loop over the levels from the \<open>i\<close>-th on.\<close>

fun level_loop :: "nat \<Rightarrow> string list \<Rightarrow> string list \<Rightarrow> string \<Rightarrow> nat result" where
  "level_loop i (l # ls) (sh # shs) s =
     (if i < kNumSpdlogLevels then
        (if strncaseeq (length s) s l \<or> strcaseeq s sh then Inr i else level_loop (Suc i) ls shs s)
      else Inl Invalid_Argument)"
| "level_loop i ls shs s = (if i < kNumSpdlogLevels then Inl Out_Of_Bounds else Inl Invalid_Argument)"

definition SpdlogLevelFromString :: "string list \<Rightarrow> string list \<Rightarrow> string \<Rightarrow> nat result" where
  "SpdlogLevelFromString level_names short_level_names s = level_loop 0 level_names short_level_names s"

section \<open>Properties\<close>

definition documented_names :: "string list" where
  "documented_names = [''trace'', ''debug'', ''info'', ''warning'', ''error'', ''critical'', ''off'']"

definition documented_short_names :: "string list" where
  "documented_short_names = [''T'', ''D'', ''I'', ''W'', ''E'', ''C'', ''O'']"

text \<open>Every documented name is recognised. So are the prefixes of names, in any case, among them the
  empty string, which is the level \<open>trace\<close>.\<close>

lemma documented_levels:
  "map (SpdlogLevelFromString documented_names documented_short_names) documented_names = map Inr [0..<7]"
  "map (SpdlogLevelFromString documented_names documented_short_names) documented_short_names = map Inr [0..<7]"
  by code_simp+

lemma prefixes_accepted:
  "SpdlogLevelFromString documented_names documented_short_names [] = Inr 0"
  "SpdlogLevelFromString documented_names documented_short_names ''WARN'' = Inr 3"
  "SpdlogLevelFromString documented_names documented_short_names ''verbose'' = Inl Invalid_Argument"
  by code_simp+

lemma strncaseeq_prefix: "NUL \<notin> set s \<Longrightarrow> strncaseeq (length s) s (s @ rest)"
  by (induction s) auto

text \<open>The empty string is a level whatever the names are.\<close>

lemma empty_level: "SpdlogLevelFromString (l # ls) (sh # shs) [] = Inr 0"
  by (simp add: SpdlogLevelFromString_def kNumSpdlogLevels_def)

lemma level_in_range: "level_loop i ls shs s = Inr k \<Longrightarrow> i \<le> k \<and> k < kNumSpdlogLevels"
  by (induction i ls shs s rule: level_loop.induct) (auto split: if_splits)

end
