(* ===== verification/Spec2Isabelle.thy ===== *)
theory Spec2Isabelle
  imports Connections Request_Reply Character_Device Rate_Measure Udp_Socket Rotations Matrix_Utils
    Polynomials Log_Level
begin

text \<open>
  \<^bold>\<open>The program.\<close> The C++ libraries under \<open>src/a17\<close>: \<open>dispatch\<close>, messaging between processes over
  ZeroMQ with discovery by UDP multicast, and the helpers \<open>utils\<close> and \<open>maths\<close>.

  A process has a \<open>Node\<close>, which has a \<open>Directory\<close>, a \<open>BufferPool\<close> and an event loop. A \<open>Publisher\<close> or
  \<open>ReplyServer\<close> is a \<open>Server\<close>: it binds a socket and adds a topic to the directory, which announces it to
  the multicast group. The directories of the other nodes receive the packet, put the topic into their
  \<open>DirectoryTopicStore\<close> and call the observers of its name. A \<open>Subscriber\<close> is a \<open>Client\<close>, which connects to
  every address of its topic; a \<open>RequestClient\<close> connects to the newest one. Observed topics nobody has
  announced are asked for by a timer. The messages themselves are built by \<open>SmartCapnpBuilder\<close> in
  buffers of the pool, cross the sockets part by part and are read by \<open>SmartCapnpReader\<close>.

  \<^bold>\<open>Modelling.\<close> A class is a record, a member function takes the record and returns it changed. What a
  function does to the outside (packets, timers, handlers, connections) is a list of outputs in the
  order of the calls; what comes from outside (completions, timer expiry, packets, the clock, addresses
  returned by the system) is an argument. An exception or an undefined access is the left value of a
  sum, or an output where the caller goes on. \<open>std::map\<close> and \<open>std::set\<close> are sorted lists, as the order of iteration
  is visible; \<open>uint16_t\<close> and wider integers are words; \<open>double\<close> is a rational or real number
  with exact arithmetic, \<open>float\<close> is a point of the binary32 grid. Handlers run one at a time on the event
  loop, so the behaviours of a component are the sequences of its steps; only the buffer pool
  is shared by threads and is therefore also modelled access by access.

  \<^bold>\<open>Theories.\<close>

  \<^item> \<open>A17_Prelude\<close>: results, sorted maps with the locale \<open>keyed_store\<close>, and the locales \<open>machine\<close>,
    \<open>output_machine\<close> and \<open>accounting\<close> for components whose steps preserve an invariant, emit outputs of one kind
    only, or balance a quantity against their outputs. \<open>C_Strings\<close>: character arrays, C strings and numbers.

  \<^item> \<open>Buffer_Pool\<close> (\<open>utils/buffer_pool\<close>): the ring of free buffers implements a FIFO queue (locale
    \<open>buffer_source\<close>); one allocating and any number of freeing threads never hand out a buffer twice.

  \<^item> \<open>Topic_Name\<close>, \<open>Socket_Types\<close>, \<open>Net_Address\<close> (\<open>dispatch/topic\<close>, \<open>defs\<close>, \<open>socket_types\<close>, \<open>address\<close>):
    names, the table of socket types, choice of the interface, printing and parsing of addresses.

  \<^item> \<open>Topic_Store\<close> (\<open>directory_topic\<close>, \<open>DirectoryTopicStore\<close> of \<open>directory\<close>): the store is well formed after
    any calls, observers have seen the current topics, updates of different nodes commute (locale
    \<open>topic_registry\<close>), adding and removing own topics.

  \<^item> \<open>Wire_Format\<close>, \<open>Directory\<close>, \<open>Discovery\<close>, \<open>Discovery_Queries\<close> (\<open>directory.cpp\<close>): text of the
    packets and the tokeniser, every operation of \<open>Directory\<close>; no packet of up to \<open>EVENT_BUFFER_SIZE\<close> bytes is
    handled with a fault, the loop over the names of a search returns, announcements, searches, exits
    are understood, queries cover the missing topics, the timer runs while topics are missing, what
    becomes of send buffers; \<open>reachable_directory_safe\<close> is the safety of all reachable states.

  \<^item> \<open>Replication\<close>, \<open>Discovery_Network\<close>: any number of directories on one multicast group, as a step relation over
    their states and the packets on their way. The locale \<open>replication\<close> says what actions, the handling of notices
    and departures must keep so that nodes learn of each other's offers, and is interpreted with the operations of
    \<open>Directory\<close>: the directories agree on what is offered once packets have been handled, what they know was
    offered even when packets are lost, repeated and reordered, and the exchange of packets comes to rest. \<open>Discovery_Search\<close>:
    a node that observes a missing topic, also one that came late, finds it by the searches of its query timer.

  \<^item> \<open>Observers\<close>, \<open>Connections\<close>: the network together with a client of one of its nodes. Whatever packet or call a directory handles,
    a registered handler has been called with the current map and with no other topic's. \<open>linked\<close> is the life of a client from its
    constructor on, beside all steps of the network, the calls its directory makes and posts, and its own requests and timeouts; the locale
    \<open>topic_client\<close> is what a client has to do with the maps it is given, and is interpreted with \<open>RequestClient\<close> and with
    \<open>Client\<close>. So their connections are to addresses offered at the moment once the packets have been handled, to addresses that were
    offered in any case, and a client that lacks a server is connected after the next query if there is one.

  \<^item> \<open>Servers\<close>, \<open>Client_Sockets\<close> (\<open>server\<close>, \<open>client\<close>, \<open>request_client\<close>): life of a server and its registration, what a move leaves behind,
    connections that follow the directory, requests settled at most once.

  \<^item> \<open>Msg_Socket\<close> (\<open>socket\<close>, \<open>listener\<close>, \<open>reply_server\<close>): messages of several parts, in order and whole, for any
    handler that satisfies the locale \<open>message_handler\<close>; every request answered once.

  \<^item> \<open>Capnp_Builder\<close>, \<open>Smart_Messages\<close>, \<open>Message_Helpers\<close> (\<open>smart_capnp_builder\<close>, \<open>smart_capnp_reader\<close>,
    \<open>smart_message_reader\<close>, \<open>message_helpers\<close>, \<open>subscriber.cpp\<close>, \<open>sub_server.cpp\<close>): memory of a message under
    construction, its serialisation and delivery, printing, comparison and filters.

  \<^item> \<open>Nodes\<close> (\<open>node\<close>, constructors of \<open>publisher.h\<close>, \<open>subscriber.h\<close>, \<open>pub_client.h\<close>, \<open>sub_server.h\<close>,
    \<open>reply_server.h\<close>): the composition; a publisher and a subscriber of two nodes find each other and messages
    reach the application's handler; the event loop
    ends when the node is stopped. \<open>Request_Reply\<close>: a request client finds a reply server of another node, and its
    requests are answered one by one, from the builder's message to the reply handler.

  \<^item> \<open>Timers\<close>, \<open>Character_Device\<close>, \<open>Udp_Socket\<close>, \<open>Pid\<close>, \<open>Rate_Measure\<close> (\<open>utils\<close>): repeater and watchdog, output
    queue of a device, datagrams of doubles, the controller's limits, rates over a window.

  \<^item> \<open>Angles\<close>, \<open>Quaternions\<close>, \<open>Rotations\<close>, \<open>Matrix_Utils\<close>, \<open>Float_Utils\<close>, \<open>Polynomials\<close> (\<open>maths\<close>): unrolling of
    angles, Euler angles and quaternions, change of axes, the adjugate, comparison of floats, evaluation, derivatives and
    level sets of polynomials. \<open>Log_Level\<close> (\<open>utils/spdlog\<close>): names of log levels.

  \<^bold>\<open>Loops.\<close> No function has fuel. The loop of \<open>discoverySearch\<close> and the event loop \<open>Node::run\<close> are
  \<open>partial_function\<close>s; \<open>search_terminates\<close> and \<open>node_stops\<close> show that they return; all other loops are total functions with measures. With exact
  arithmetic the loops over angles end; in \<open>double\<close> they do not when a turn is below the precision of
  the angle.

  \<^bold>\<open>Assumptions.\<close> Memory returned by the system is fresh and not null (\<open>env_ok\<close>); an announcement fits a
  send buffer (\<open>topics_fit\<close>), which the code does not check: longer ones are the fault \<open>Buffer_Overflow\<close> of the
  model; ZeroMQ delivers the parts of a message in order and without loss, and so does the network the packets from one node
  to another in \<open>network_agreement\<close> (not in \<open>network_authentic\<close>), where names and addresses are words of printable
  characters and every node takes the addresses for ones of its network; capnproto
  reads back what it wrote; Eigen's rotations, products and determinants are the documented ones; a root finder for
  degrees above two finds the roots it reports. Each is a premise of the theorems that use it.

  \<^bold>\<open>Not modelled.\<close> \<open>bind.h\<close> and \<open>handlers.h\<close>, macros and names of types; \<open>node_gemini\<close>, a copy of
  \<open>node.cpp\<close> that no build file mentions, with a header that breaks off within a declaration; accessors that return a member; logging everywhere; the scheduling of asio beyond the order of
  ready handlers; rounding of \<open>double\<close>; the Python implementation, the schemas, vendored libraries and
  build files.
\<close>

end
